(* ===== verification/Jmap_Prelude.thy ===== *)
theory Jmap_Prelude
  imports
    Main
    "HOL-Library.Char_ord"
    "HOL-Library.List_Lexorder"
    "HOL-Library.Sublist"
begin

text \<open>
  The ground layer of the development.

  A Rust \<^verbatim>\<open>String\<close> or \<^verbatim>\<open>&str\<close> is its list of UTF-8 octets, one \<^typ>\<open>char\<close> each; the order of
  \<^verbatim>\<open>String\<close> is the octet order, which is the lexicographic order of \<open>HOL-Library.List_Lexorder\<close>.
  The string operations below are those of the Rust standard library that the modelled code calls,
  on octets. A \<^verbatim>\<open>BTreeMap\<close> is the association list of its iteration order: ascending keys, each
  once.
  A \<^verbatim>\<open>Result<T, E>\<close> is \<open>'e + 't\<close> with \<^term>\<open>Inl\<close> for \<^verbatim>\<open>Err\<close>.

  The theory ends with two interfaces: \<open>codec\<close>, an encoder with a decoder that reads it back, and
  \<open>ordered_map\<close>, what a client of a \<^verbatim>\<open>BTreeMap\<close> may rely on.
\<close>

type_synonym str = string

named_theorems str_simps \<open>evaluation of the string operations\<close>
named_theorems res_simps \<open>case analysis on results\<close>

subsection \<open>Results\<close>

abbreviation Ok :: "'a \<Rightarrow> 'e + 'a" where "Ok \<equiv> Inr"
abbreviation Err :: "'e \<Rightarrow> 'e + 'a" where "Err \<equiv> Inl"

text \<open>The \<^verbatim>\<open>?\<close> operator: an error leaves the function, a value goes on.\<close>

definition res_bind :: "'e + 'a \<Rightarrow> ('a \<Rightarrow> 'e + 'b) \<Rightarrow> 'e + 'b" where
  "res_bind r f = (case r of Inl e \<Rightarrow> Inl e | Inr x \<Rightarrow> f x)"

lemma res_bind_simps [simp]:
  "res_bind (Inl e) f = Inl e"
  "res_bind (Inr x) f = f x"
  by (simp_all add: res_bind_def)

lemma res_bind_Inr_iff: "res_bind r f = Inr y \<longleftrightarrow> (\<exists>x. r = Inr x \<and> f x = Inr y)"
  by (cases r) auto

lemma res_bind_Inl_iff:
  "res_bind r f = Inl e \<longleftrightarrow> r = Inl e \<or> (\<exists>x. r = Inr x \<and> f x = Inl e)"
  by (cases r) auto

lemmas res_bind_iffs [res_simps] = res_bind_Inr_iff res_bind_Inl_iff

text \<open>\<^verbatim>\<open>Option::ok_or\<close> and \<^verbatim>\<open>Result::map_err\<close>.\<close>

definition ok_or :: "'a option \<Rightarrow> 'e \<Rightarrow> 'e + 'a" where
  "ok_or x e = (case x of None \<Rightarrow> Inl e | Some v \<Rightarrow> Inr v)"

lemma ok_or_simps [simp]: "ok_or None e = Inl e" "ok_or (Some v) e = Inr v"
  by (simp_all add: ok_or_def)

definition map_err :: "('e \<Rightarrow> 'f) \<Rightarrow> 'e + 'a \<Rightarrow> 'f + 'a" where
  "map_err f r = (case r of Inl e \<Rightarrow> Inl (f e) | Inr x \<Rightarrow> Inr x)"

lemma map_err_simps [simp]: "map_err f (Inl e) = Inl (f e)" "map_err f (Inr x) = Inr x"
  by (simp_all add: map_err_def)

text \<open>\<^verbatim>\<open>iter().map(f).collect::<Result<Vec<_>, _>>()\<close>: the first error, or all values.\<close>

fun collect_results :: "('a \<Rightarrow> 'e + 'b) \<Rightarrow> 'a list \<Rightarrow> 'e + 'b list" where
  "collect_results f [] = Inr []"
| "collect_results f (x # xs) =
     res_bind (f x) (\<lambda>y. res_bind (collect_results f xs) (\<lambda>ys. Inr (y # ys)))"

lemma collect_results_Inr:
  "collect_results f xs = Inr ys \<longleftrightarrow> list_all2 (\<lambda>x y. f x = Inr y) xs ys"
  by (induction xs arbitrary: ys) (auto simp: res_bind_Inr_iff list_all2_Cons1)

text \<open>
  A function that may panic: \<open>Panic\<close>, or the value it returns. \<open>try_opt\<close> is the \<^verbatim>\<open>?\<close> operator in such
  a function with an \<^verbatim>\<open>Option\<close> result.
\<close>

datatype 'a outcome = Panic | Done 'a

definition try_opt :: "'a option outcome \<Rightarrow> ('a \<Rightarrow> 'b option outcome) \<Rightarrow> 'b option outcome" where
  "try_opt r f =
     (case r of Panic \<Rightarrow> Panic | Done None \<Rightarrow> Done None | Done (Some x) \<Rightarrow> f x)"

lemma try_opt_simps [simp]:
  "try_opt Panic f = Panic"
  "try_opt (Done None) f = Done None"
  "try_opt (Done (Some x)) f = f x"
  by (simp_all add: try_opt_def)

lemma try_opt_Panic_iff:
  "try_opt r f = Panic \<longleftrightarrow> r = Panic \<or> (\<exists>x. r = Done (Some x) \<and> f x = Panic)"
  by (cases r) (auto simp: try_opt_def split: option.splits)

lemma try_opt_Some_iff:
  "try_opt r f = Done (Some y) \<longleftrightarrow> (\<exists>x. r = Done (Some x) \<and> f x = Done (Some y))"
  by (cases r) (auto simp: try_opt_def split: option.splits)

subsection \<open>Characters\<close>

abbreviation LF :: char where "LF \<equiv> CHR 0x0A"
abbreviation CR :: char where "CR \<equiv> CHR 0x0D"
abbreviation TAB :: char where "TAB \<equiv> CHR 0x09"
abbreviation NUL :: char where "NUL \<equiv> CHR 0x00"

definition to_ascii_lower :: "char \<Rightarrow> char" where
  "to_ascii_lower c =
     (if CHR ''A'' \<le> c \<and> c \<le> CHR ''Z'' then char_of (of_char c + 32 :: nat) else c)"

definition to_ascii_lowercase :: "str \<Rightarrow> str" where
  "to_ascii_lowercase s = map to_ascii_lower s"

lemma to_ascii_lower_idem [simp]: "to_ascii_lower (to_ascii_lower c) = to_ascii_lower c"
  by (auto simp: to_ascii_lower_def less_eq_char_def)

lemma to_ascii_lowercase_idem [simp]: "to_ascii_lowercase (to_ascii_lowercase s) = to_ascii_lowercase s"
  by (simp add: to_ascii_lowercase_def)

definition eq_ignore_ascii_case :: "str \<Rightarrow> str \<Rightarrow> bool" where
  "eq_ignore_ascii_case s t \<longleftrightarrow> to_ascii_lowercase s = to_ascii_lowercase t"

lemma length_to_ascii_lowercase [simp]: "length (to_ascii_lowercase s) = length s"
  by (simp add: to_ascii_lowercase_def)

lemma eq_ignore_ascii_case_refl [simp]: "eq_ignore_ascii_case s s"
  by (simp add: eq_ignore_ascii_case_def)

lemma eq_ignore_ascii_case_length: "eq_ignore_ascii_case s t \<Longrightarrow> length s = length t"
  unfolding eq_ignore_ascii_case_def by (metis length_to_ascii_lowercase)

definition is_ascii_digit :: "char \<Rightarrow> bool" where
  "is_ascii_digit c \<longleftrightarrow> CHR ''0'' \<le> c \<and> c \<le> CHR ''9''"

definition is_ascii_alphabetic :: "char \<Rightarrow> bool" where
  "is_ascii_alphabetic c \<longleftrightarrow>
     CHR ''A'' \<le> c \<and> c \<le> CHR ''Z'' \<or> CHR ''a'' \<le> c \<and> c \<le> CHR ''z''"

definition is_ascii_alphanumeric :: "char \<Rightarrow> bool" where
  "is_ascii_alphanumeric c \<longleftrightarrow> is_ascii_alphabetic c \<or> is_ascii_digit c"

subsection \<open>Splitting and stripping\<close>

text \<open>\<^verbatim>\<open>str::split_once(c)\<close>, at the first occurrence, and \<^verbatim>\<open>str::rsplit_once(c)\<close>, at the last.\<close>

fun split_once :: "char \<Rightarrow> str \<Rightarrow> (str \<times> str) option" where
  "split_once c [] = None"
| "split_once c (x # xs) =
     (if x = c then Some ([], xs)
      else map_option (\<lambda>(a, b). (x # a, b)) (split_once c xs))"

fun rsplit_once :: "char \<Rightarrow> str \<Rightarrow> (str \<times> str) option" where
  "rsplit_once c [] = None"
| "rsplit_once c (x # xs) =
     (case rsplit_once c xs of
        Some (a, b) \<Rightarrow> Some (x # a, b)
      | None \<Rightarrow> if x = c then Some ([], xs) else None)"

lemma split_once_None_iff [simp]: "split_once c s = None \<longleftrightarrow> c \<notin> set s"
  by (induction s) auto

lemma split_once_Some_iff:
  "split_once c s = Some (a, b) \<longleftrightarrow> s = a @ c # b \<and> c \<notin> set a"
proof (induction s arbitrary: a)
  case Nil
  show ?case by simp
next
  case (Cons x s)
  show ?case by (cases a) (auto simp: Cons.IH)
qed

lemma split_once_append [simp]: "c \<notin> set a \<Longrightarrow> split_once c (a @ c # b) = Some (a, b)"
  by (simp add: split_once_Some_iff)

lemma rsplit_once_None_iff: "rsplit_once c s = None \<longleftrightarrow> c \<notin> set s"
  by (induction s) (auto split: option.splits)

lemma rsplit_once_None [simp]: "c \<notin> set s \<Longrightarrow> rsplit_once c s = None"
  by (simp add: rsplit_once_None_iff)

lemma rsplit_once_append [simp]: "c \<notin> set b \<Longrightarrow> rsplit_once c (a @ c # b) = Some (a, b)"
  by (induction a) auto

lemma rsplit_once_Some_iff:
  "rsplit_once c s = Some (a, b) \<longleftrightarrow> s = a @ c # b \<and> c \<notin> set b"
proof (induction s arbitrary: a)
  case Nil
  show ?case by simp
next
  case (Cons x s)
  show ?case
    by (cases a; cases "rsplit_once c s") (auto simp: Cons.IH rsplit_once_None_iff)
qed

text \<open>\<^verbatim>\<open>str::split(c)\<close>: every field, at least one.\<close>

fun split_on :: "char \<Rightarrow> str \<Rightarrow> str list" where
  "split_on c [] = [[]]"
| "split_on c (x # xs) =
     (if x = c then [] # split_on c xs
      else (case split_on c xs of [] \<Rightarrow> [[x]] | f # fs \<Rightarrow> (x # f) # fs))"

lemma split_on_not_Nil [simp]: "split_on c s \<noteq> []"
  by (induction s) (auto split: list.splits)

lemma split_on_no_sep: "c \<notin> set s \<Longrightarrow> split_on c s = [s]"
  by (induction s) auto

lemma split_on_append: "c \<notin> set a \<Longrightarrow> split_on c (a @ c # b) = a # split_on c b"
  by (induction a) auto

text \<open>\<^verbatim>\<open>str::rsplit(c).next()\<close>: the text after the last separator, or all of it.\<close>

definition last_field :: "char \<Rightarrow> str \<Rightarrow> str" where
  "last_field c s = (case rsplit_once c s of None \<Rightarrow> s | Some (_, b) \<Rightarrow> b)"

lemma last_field_append [simp]: "c \<notin> set b \<Longrightarrow> last_field c (a @ c # b) = b"
  by (simp add: last_field_def)

lemma last_field_no_sep [simp]: "c \<notin> set s \<Longrightarrow> last_field c s = s"
  by (simp add: last_field_def)

lemma last_field_free [simp]: "c \<notin> set (last_field c s)"
  by (cases "rsplit_once c s")
    (auto simp: last_field_def rsplit_once_Some_iff rsplit_once_None_iff)

fun strip_prefix :: "str \<Rightarrow> str \<Rightarrow> str option" where
  "strip_prefix [] s = Some s"
| "strip_prefix (p # ps) [] = None"
| "strip_prefix (p # ps) (x # xs) = (if p = x then strip_prefix ps xs else None)"

lemma strip_prefix_Some_iff: "strip_prefix p s = Some t \<longleftrightarrow> s = p @ t"
  by (induction p s rule: strip_prefix.induct) auto

lemma strip_prefix_append [simp]: "strip_prefix p (p @ t) = Some t"
  by (simp add: strip_prefix_Some_iff)

definition strip_suffix :: "str \<Rightarrow> str \<Rightarrow> str option" where
  "strip_suffix p s = map_option rev (strip_prefix (rev p) (rev s))"

lemma strip_suffix_append [simp]: "strip_suffix p (s @ p) = Some s"
  by (simp add: strip_suffix_def)

lemma strip_suffix_Some_iff: "strip_suffix p s = Some t \<longleftrightarrow> s = t @ p"
  by (auto simp: strip_suffix_def strip_prefix_Some_iff) (metis rev_append rev_rev_ident)

text \<open>
  The octet positions at which a text may be cut: not before a continuation octet.
  \<^verbatim>\<open>str::split_at\<close> panics at any other position.
\<close>

definition is_continuation :: "char \<Rightarrow> bool" where
  "is_continuation c \<longleftrightarrow> CHR 0x80 \<le> c \<and> c \<le> CHR 0xBF"

definition is_char_boundary :: "str \<Rightarrow> nat \<Rightarrow> bool" where
  "is_char_boundary s i \<longleftrightarrow>
     i = 0 \<or> i = length s \<or> i < length s \<and> \<not> is_continuation (s ! i)"

definition split_at :: "str \<Rightarrow> nat \<Rightarrow> (str \<times> str) outcome" where
  "split_at s i = (if is_char_boundary s i then Done (take i s, drop i s) else Panic)"

definition is_ascii :: "str \<Rightarrow> bool" where
  "is_ascii s \<longleftrightarrow> list_all (\<lambda>c. c < CHR 0x80) s"

lemma split_at_ascii:
  assumes "is_ascii text" "n \<le> length text"
  shows "split_at text n \<noteq> Panic"
  using assms
  by (auto simp: split_at_def is_char_boundary_def is_continuation_def is_ascii_def list_all_length)
    (metis leD le_neq_implies_less)

text \<open>\<^verbatim>\<open>str::find\<close> with a string: the position of its first occurrence.\<close>

fun find_str :: "str \<Rightarrow> str \<Rightarrow> nat option" where
  "find_str p [] = (if p = [] then Some 0 else None)"
| "find_str p (c # s) = (if prefix p (c # s) then Some 0 else map_option Suc (find_str p s))"

definition contains_str :: "str \<Rightarrow> str \<Rightarrow> bool" where
  "contains_str p s \<longleftrightarrow> find_str p s \<noteq> None"

lemma find_str_SomeD:
  "find_str p s = Some i \<Longrightarrow> i + length p \<le> length s \<and> take (length p) (drop i s) = p"
proof (induction p s arbitrary: i rule: find_str.induct)
  case (2 p c s)
  show ?case
  proof (cases "prefix p (c # s)")
    case True
    then show ?thesis using "2.prems" prefix_length_le [OF True] by (auto simp: prefix_def)
  qed (use 2 in auto)
qed (auto split: if_splits)

lemma find_str_first: "find_str p s = Some i \<Longrightarrow> j < i \<Longrightarrow> \<not> prefix p (drop j s)"
proof (induction p s arbitrary: i j rule: find_str.induct)
  case (2 p c s)
  then show ?case by (cases j) (auto split: if_splits)
qed (auto split: if_splits)

lemma find_str_no_char: "c \<in> set p \<Longrightarrow> c \<notin> set s \<Longrightarrow> find_str p s = None"
proof (induction s)
  case (Cons x s)
  then have "\<not> prefix p (x # s)" by (meson set_mono_prefix subsetD)
  with Cons show ?case by simp
qed auto

lemma find_str_append:
  assumes "c \<in> set p" "c \<notin> set s" "hd p = c"
  shows "find_str p (s @ p @ t) = Some (length s)"
  using assms
proof (induction s)
  case Nil
  then show ?case by (cases p) (auto simp: prefix_def)
next
  case (Cons x s)
  have "\<not> prefix p (x # s @ p @ t)"
    using Cons.prems by (cases p) (auto simp: prefix_def)
  then show ?case using Cons by simp
qed

text \<open>\<^verbatim>\<open>str::find\<close> with a set of characters: the position of the first one.\<close>

fun find_char :: "(char \<Rightarrow> bool) \<Rightarrow> str \<Rightarrow> nat option" where
  "find_char p [] = None"
| "find_char p (x # xs) = (if p x then Some 0 else map_option Suc (find_char p xs))"

text \<open>\<^verbatim>\<open>str::trim_end_matches\<close> with a set of characters.\<close>

definition trim_end_chars :: "(char \<Rightarrow> bool) \<Rightarrow> str \<Rightarrow> str" where
  "trim_end_chars p s = rev (dropWhile p (rev s))"

lemma trim_end_chars_split: "\<exists>t. s = trim_end_chars p s @ t \<and> (\<forall>c \<in> set t. p c)"
proof -
  have "rev s = takeWhile p (rev s) @ dropWhile p (rev s)" by simp
  then have "s = trim_end_chars p s @ rev (takeWhile p (rev s))"
    unfolding trim_end_chars_def by (metis rev_append rev_rev_ident)
  moreover have "\<forall>c \<in> set (rev (takeWhile p (rev s))). p c"
    by (auto dest: set_takeWhileD)
  ultimately show ?thesis by blast
qed

lemma find_char_first:
  assumes "list_all (\<lambda>c. \<not> P c) a" "P x"
  shows "find_char P (a @ x # b) = Some (length a)"
  using assms by (induction a) simp_all

lemma find_char_None: "list_all (\<lambda>c. \<not> P c) a \<Longrightarrow> find_char P a = None"
  by (induction a) simp_all

lemma trim_end_chars_id: "\<not> P (last s) \<Longrightarrow> trim_end_chars P s = s"
  by (cases s rule: rev_cases) (simp_all add: trim_end_chars_def)

definition is_ascii_letter :: "char \<Rightarrow> bool" where
  "is_ascii_letter c \<longleftrightarrow> (of_char c :: nat) \<in> {65..90} \<union> {97..122}"

lemma to_ascii_lower_other: "\<not> is_ascii_letter c \<Longrightarrow> to_ascii_lower d = c \<longleftrightarrow> d = c"
proof -
  assume c: "\<not> is_ascii_letter c"
  have "is_ascii_letter (char_of (of_char d + 32 :: nat))" if "65 \<le> (of_char d :: nat)" "of_char d \<le> (90 :: nat)"
    using that by (simp add: is_ascii_letter_def)
  then show ?thesis
    using c by (auto simp: to_ascii_lower_def less_eq_char_def is_ascii_letter_def)
qed

subsection \<open>White space\<close>

text \<open>
  \<^verbatim>\<open>str::trim\<close> removes the code points with the Unicode property White\_Space. In UTF-8 these are
  the six ASCII ones, U+0085 and U+00A0 (two octets), and U+1680, U+2000 to U+200A, U+2028, U+2029,
  U+202F, U+205F and U+3000 (three octets).
\<close>

definition ascii_space :: "char \<Rightarrow> bool" where
  "ascii_space c \<longleftrightarrow> c = CHR 0x20 \<or> CHR 0x09 \<le> c \<and> c \<le> CHR 0x0D"

definition space2 :: "char \<Rightarrow> char \<Rightarrow> bool" where
  "space2 a b \<longleftrightarrow> a = CHR 0xC2 \<and> (b = CHR 0x85 \<or> b = CHR 0xA0)"

definition space3 :: "char \<Rightarrow> char \<Rightarrow> char \<Rightarrow> bool" where
  "space3 a b c \<longleftrightarrow>
     a = CHR 0xE1 \<and> b = CHR 0x9A \<and> c = CHR 0x80 \<or>
     a = CHR 0xE2 \<and> b = CHR 0x80 \<and>
       (CHR 0x80 \<le> c \<and> c \<le> CHR 0x8A \<or> c = CHR 0xA8 \<or> c = CHR 0xA9 \<or> c = CHR 0xAF) \<or>
     a = CHR 0xE2 \<and> b = CHR 0x81 \<and> c = CHR 0x9F \<or>
     a = CHR 0xE3 \<and> b = CHR 0x80 \<and> c = CHR 0x80"

text \<open>
  The octets of the white space code point that a text starts with, 0 if it starts with none, and
  the same for a text in reverse order, where the octets of a code point are in reverse order.
\<close>

definition space_len :: "str \<Rightarrow> nat" where
  "space_len s =
     (case s of
        [] \<Rightarrow> 0
      | a # t \<Rightarrow>
          if ascii_space a then 1
          else (case t of
            [] \<Rightarrow> 0
          | b # u \<Rightarrow>
              if space2 a b then 2
              else (case u of [] \<Rightarrow> 0 | c # _ \<Rightarrow> if space3 a b c then 3 else 0)))"

definition space_len_rev :: "str \<Rightarrow> nat" where
  "space_len_rev s =
     (case s of
        [] \<Rightarrow> 0
      | a # t \<Rightarrow>
          if ascii_space a then 1
          else (case t of
            [] \<Rightarrow> 0
          | b # u \<Rightarrow>
              if space2 b a then 2
              else (case u of [] \<Rightarrow> 0 | c # _ \<Rightarrow> if space3 c b a then 3 else 0)))"

function drop_spaces :: "(str \<Rightarrow> nat) \<Rightarrow> str \<Rightarrow> str" where
  "drop_spaces len s = (if len s = 0 \<or> s = [] then s else drop_spaces len (drop (len s) s))"
  by pat_completeness auto
termination
  by (relation "measure (\<lambda>(len, s). length s)") (auto simp: neq_Nil_conv)

declare drop_spaces.simps [simp del]

definition trim :: "str \<Rightarrow> str" where
  "trim s = rev (drop_spaces space_len_rev (rev (drop_spaces space_len s)))"

lemma trim_Nil [simp]: "trim [] = []"
  by (simp add: trim_def drop_spaces.simps)

subsection \<open>Decimal numbers\<close>

definition digit_char :: "nat \<Rightarrow> char" where
  "digit_char d = char_of (48 + d)"

definition digit_val :: "char \<Rightarrow> nat" where
  "digit_val c = of_char c - 48"

fun dec :: "nat \<Rightarrow> str" where
  "dec n = (if n < 10 then [digit_char n] else dec (n div 10) @ [digit_char (n mod 10)])"

declare dec.simps [simp del]

text \<open>The format \<^verbatim>\<open>{:0w}\<close>: at least \<open>w\<close> digits.\<close>

definition pad_dec :: "nat \<Rightarrow> nat \<Rightarrow> str" where
  "pad_dec w n = replicate (w - length (dec n)) (CHR ''0'') @ dec n"

fun digits_value :: "nat \<Rightarrow> str \<Rightarrow> nat" where
  "digits_value acc [] = acc"
| "digits_value acc (c # cs) = digits_value (10 * acc + digit_val c) cs"

text \<open>
  \<^verbatim>\<open>str::parse\<close> for an unsigned type with largest value \<open>hi\<close>: an optional \<^verbatim>\<open>+\<close>, then at least one
  digit. A signed type also takes a \<^verbatim>\<open>-\<close>.
\<close>

definition parse_digits :: "str \<Rightarrow> nat option" where
  "parse_digits s = (if s \<noteq> [] \<and> list_all is_ascii_digit s then Some (digits_value 0 s) else None)"

definition parse_unsigned :: "nat \<Rightarrow> str \<Rightarrow> nat option" where
  "parse_unsigned hi s =
     Option.bind (parse_digits (case strip_prefix ''+'' s of None \<Rightarrow> s | Some t \<Rightarrow> t))
       (\<lambda>n. if n \<le> hi then Some n else None)"

definition parse_signed :: "int \<Rightarrow> int \<Rightarrow> str \<Rightarrow> int option" where
  "parse_signed lo hi s =
     (case strip_prefix ''-'' s of
        Some t \<Rightarrow> Option.bind (parse_digits t) (\<lambda>n. if lo \<le> - int n then Some (- int n) else None)
      | None \<Rightarrow>
          Option.bind (parse_digits (case strip_prefix ''+'' s of None \<Rightarrow> s | Some t \<Rightarrow> t))
            (\<lambda>n. if int n \<le> hi then Some (int n) else None))"

definition I64_MIN :: int where "I64_MIN = - (2 ^ 63)"
definition I64_MAX :: int where "I64_MAX = 2 ^ 63 - 1"
definition U32_MAX :: nat where "U32_MAX = 2 ^ 32 - 1"
definition U64_MAX :: nat where "U64_MAX = 2 ^ 64 - 1"

definition in_i64 :: "int \<Rightarrow> bool" where
  "in_i64 x \<longleftrightarrow> I64_MIN \<le> x \<and> x \<le> I64_MAX"

lemma digit_char_props:
  assumes "d < 10"
  shows "is_ascii_digit (digit_char d)" and "digit_val (digit_char d) = d"
proof -
  have "d \<in> {0, 1, 2, 3, 4, 5, 6, 7, 8, 9}" using assms by auto
  then show "is_ascii_digit (digit_char d)" and "digit_val (digit_char d) = d"
    by (auto simp: digit_char_def digit_val_def is_ascii_digit_def less_eq_char_def)
qed

lemma digits_value_append: "digits_value acc (xs @ ys) = digits_value (digits_value acc xs) ys"
  by (induction xs arbitrary: acc) auto

lemma dec_not_Nil [simp]: "dec n \<noteq> []"
  by (subst dec.simps) simp

lemma dec_digits: "list_all is_ascii_digit (dec n)"
proof (induction n rule: dec.induct)
  case (1 n)
  show ?case
    by (subst dec.simps) (auto simp: digit_char_props "1.IH")
qed

lemma digits_value_dec [simp]: "digits_value 0 (dec n) = n"
proof (induction n rule: dec.induct)
  case (1 n)
  show ?case
  proof (cases "n < 10")
    case True
    then show ?thesis by (subst dec.simps) (simp add: digit_char_props)
  next
    case False
    then show ?thesis
      using "1.IH" by (subst dec.simps) (simp add: digits_value_append digit_char_props)
  qed
qed

lemma digits_value_zeros [simp]:
  "digits_value 0 (replicate k (CHR ''0'') @ s) = digits_value 0 s"
  by (induction k) (simp_all add: digit_val_def)

lemma pad_dec_digits: "list_all is_ascii_digit (pad_dec w n)"
  by (auto simp: pad_dec_def dec_digits list_all_iff is_ascii_digit_def less_eq_char_def
      dest: dec_digits [unfolded list_all_iff, rule_format])

lemma pad_dec_not_Nil [simp]: "pad_dec w n \<noteq> []"
  by (simp add: pad_dec_def)

lemma parse_digits_pad_dec [simp]: "parse_digits (pad_dec w n) = Some n"
  unfolding parse_digits_def using pad_dec_digits [of w n] by (simp add: pad_dec_def)

lemma digit_string_not_in:
  assumes "list_all is_ascii_digit s" and "\<not> is_ascii_digit c"
  shows "c \<notin> set s"
  using assms by (auto simp: list_all_iff)

lemma pad_dec_not_in [simp]: "\<not> is_ascii_digit c \<Longrightarrow> c \<notin> set (pad_dec w n)"
  by (rule digit_string_not_in [OF pad_dec_digits])

lemma strip_prefix_single:
  "strip_prefix [c] s = (case s of [] \<Rightarrow> None | x # xs \<Rightarrow> if c = x then Some xs else None)"
  by (cases s) auto

lemma strip_sign_pad_dec:
  assumes "\<not> is_ascii_digit c"
  shows "strip_prefix [c] (pad_dec w n) = None"
proof -
  obtain x xs where s: "pad_dec w n = x # xs" by (meson neq_Nil_conv pad_dec_not_Nil)
  then have "x \<noteq> c" using pad_dec_not_in [OF assms, of w n] by auto
  then show ?thesis by (simp add: s)
qed

lemma parse_unsigned_pad_dec [simp]: "n \<le> hi \<Longrightarrow> parse_unsigned hi (pad_dec w n) = Some n"
  by (simp add: parse_unsigned_def strip_sign_pad_dec is_ascii_digit_def less_eq_char_def)

lemma parse_signed_pad_dec [simp]: "int n \<le> hi \<Longrightarrow> parse_signed lo hi (pad_dec w n) = Some (int n)"
  by (simp add: parse_signed_def strip_sign_pad_dec is_ascii_digit_def less_eq_char_def)

lemmas parse_eval = parse_unsigned_def parse_signed_def parse_digits_def is_ascii_digit_def
  less_eq_char_def digit_val_def U32_MAX_def I64_MAX_def I64_MIN_def strip_suffix_def

subsection \<open>Ordered maps\<close>

text \<open>\<^verbatim>\<open>BTreeMap::insert\<close>, \<^verbatim>\<open>remove\<close>, \<^verbatim>\<open>get\<close> and \<^verbatim>\<open>contains_key\<close>.\<close>

fun bt_insert :: "'k::linorder \<Rightarrow> 'v \<Rightarrow> ('k \<times> 'v) list \<Rightarrow> ('k \<times> 'v) list" where
  "bt_insert k v [] = [(k, v)]"
| "bt_insert k v ((k', v') # m) =
     (if k < k' then (k, v) # (k', v') # m
      else if k = k' then (k, v) # m
      else (k', v') # bt_insert k v m)"

definition bt_remove :: "'k \<Rightarrow> ('k \<times> 'v) list \<Rightarrow> ('k \<times> 'v) list" where
  "bt_remove k m = filter (\<lambda>(k', _). k' \<noteq> k) m"

definition bt_keys :: "('k \<times> 'v) list \<Rightarrow> 'k list" where
  "bt_keys m = map fst m"

definition bt_contains :: "('k \<times> 'v) list \<Rightarrow> 'k \<Rightarrow> bool" where
  "bt_contains m k \<longleftrightarrow> k \<in> set (bt_keys m)"

text \<open>\<^verbatim>\<open>entry(k).or_insert(v)\<close>: the first value of a key stays.\<close>

definition bt_or_insert :: "'k::linorder \<Rightarrow> 'v \<Rightarrow> ('k \<times> 'v) list \<Rightarrow> ('k \<times> 'v) list" where
  "bt_or_insert k v m = (if bt_contains m k then m else bt_insert k v m)"

definition bt_extend :: "('k::linorder \<times> 'v) list \<Rightarrow> ('k \<times> 'v) list \<Rightarrow> ('k \<times> 'v) list" where
  "bt_extend m kvs = fold (\<lambda>(k, v) m. bt_insert k v m) kvs m"

definition bt_wf :: "('k::linorder \<times> 'v) list \<Rightarrow> bool" where
  "bt_wf m \<longleftrightarrow> sorted_wrt (<) (bt_keys m)"

text \<open>
  What a client of such a map relies on: \<open>wf\<close> is the invariant, \<open>get\<close> the abstraction to a partial
  function.
\<close>

locale ordered_map =
  fixes ins :: "'k \<Rightarrow> 'v \<Rightarrow> 'm \<Rightarrow> 'm"
    and del :: "'k \<Rightarrow> 'm \<Rightarrow> 'm"
    and get :: "'m \<Rightarrow> 'k \<Rightarrow> 'v option"
    and wf :: "'m \<Rightarrow> bool"
  assumes get_ins: "wf m \<Longrightarrow> get (ins k v m) = (get m)(k \<mapsto> v)"
    and get_del: "wf m \<Longrightarrow> get (del k m) = (get m)(k := None)"
    and wf_ins: "wf m \<Longrightarrow> wf (ins k v m)"
    and wf_del: "wf m \<Longrightarrow> wf (del k m)"
begin

lemma wf_fold_ins: "wf m \<Longrightarrow> wf (fold (\<lambda>(k, v) m. ins k v m) kvs m)"
  by (induction kvs arbitrary: m) (auto simp: wf_ins)

lemma get_fold_ins:
  "wf m \<Longrightarrow> get (fold (\<lambda>(k, v) m. ins k v m) kvs m) = get m ++ map_of (rev kvs)"
proof (induction kvs arbitrary: m)
  case Nil
  then show ?case by simp
next
  case (Cons kv kvs)
  then show ?case
    by (cases kv) (simp add: wf_ins get_ins map_add_upd_left map_add_def fun_eq_iff
        split: option.splits)
qed

lemma get_fold_del: "wf m \<Longrightarrow> get (fold del ks m) = get m |` (- set ks)"
proof (induction ks arbitrary: m)
  case Nil
  then show ?case by simp
next
  case (Cons k ks)
  then show ?case
    by (simp add: wf_del get_del) (auto simp: restrict_map_def fun_eq_iff)
qed

end

lemma bt_keys_simps [simp]: "bt_keys [] = []" "bt_keys ((k, v) # m) = k # bt_keys m"
  by (simp_all add: bt_keys_def)

lemma bt_keys_insert: "set (bt_keys (bt_insert k v m)) = insert k (set (bt_keys m))"
  by (induction k v m rule: bt_insert.induct) auto

lemma bt_contains_simps [simp]:
  "bt_contains [] k \<longleftrightarrow> False"
  "bt_contains ((k', v) # m) k \<longleftrightarrow> k' = k \<or> bt_contains m k"
  by (auto simp: bt_contains_def)

lemma bt_contains_insert [simp]: "bt_contains (bt_insert k v m) k' \<longleftrightarrow> k' = k \<or> bt_contains m k'"
  by (auto simp: bt_contains_def bt_keys_insert)

lemma bt_contains_map_of: "bt_contains m k \<longleftrightarrow> map_of m k \<noteq> None"
  by (induction m) (auto simp: bt_contains_def)

lemma bt_wf_Nil [simp]: "bt_wf []"
  by (simp add: bt_wf_def)

lemma bt_wf_insert [simp]: "bt_wf m \<Longrightarrow> bt_wf (bt_insert k v m)"
  unfolding bt_wf_def
  by (induction k v m rule: bt_insert.induct) (auto simp: bt_keys_insert)

lemma map_of_bt_insert: "bt_wf m \<Longrightarrow> map_of (bt_insert k v m) = (map_of m)(k \<mapsto> v)"
proof (induction k v m rule: bt_insert.induct)
  case (2 k v k' v' m)
  then have "bt_wf m" by (simp add: bt_wf_def)
  with 2 show ?case by (auto simp: fun_eq_iff)
qed simp

lemma map_of_bt_remove [simp]: "map_of (bt_remove k m) = (map_of m)(k := None)"
  unfolding bt_remove_def by (induction m) (auto simp: fun_eq_iff)

lemma bt_wf_remove [simp]: "bt_wf m \<Longrightarrow> bt_wf (bt_remove k m)"
  unfolding bt_wf_def bt_remove_def bt_keys_def
  by (induction m) auto

interpretation btm: ordered_map bt_insert bt_remove map_of bt_wf
  by unfold_locales
    (erule map_of_bt_insert | rule map_of_bt_remove | erule bt_wf_insert | erule bt_wf_remove)+

lemma bt_wf_extend [simp]: "bt_wf m \<Longrightarrow> bt_wf (bt_extend m kvs)"
  unfolding bt_extend_def by (rule btm.wf_fold_ins)

lemma map_of_bt_extend: "bt_wf m \<Longrightarrow> map_of (bt_extend m kvs) = map_of m ++ map_of (rev kvs)"
  unfolding bt_extend_def by (rule btm.get_fold_ins)

lemma bt_wf_distinct: "bt_wf m \<Longrightarrow> distinct (bt_keys m)"
  by (simp add: bt_wf_def strict_sorted_iff)

lemma bt_keys_insert_present: "bt_wf m \<Longrightarrow> bt_contains m k \<Longrightarrow> bt_keys (bt_insert k v m) = bt_keys m"
  by (induction k v m rule: bt_insert.induct) (auto simp: bt_wf_def bt_contains_def)

lemma bt_insert_absent:
  assumes "\<not> bt_contains m k"
  shows "length (bt_insert k v m) = Suc (length m)"
    "sum_list (map f (bt_keys (bt_insert k v m))) = f k + (sum_list (map f (bt_keys m)) :: nat)"
  using assms by (induction k v m rule: bt_insert.induct) auto

lemma length_bt_keys: "length (bt_keys m) = length m"
  by (simp add: bt_keys_def)

lemma bt_wf_map_of_rev: "bt_wf m \<Longrightarrow> map_of (rev m) = map_of m"
  using bt_wf_distinct [of m] by (simp add: bt_keys_def map_of_inject_set rev_map [symmetric])

lemma bt_wf_or_insert [simp]: "bt_wf m \<Longrightarrow> bt_wf (bt_or_insert k v m)"
  by (simp add: bt_or_insert_def)

lemma map_of_bt_or_insert:
  "bt_wf m \<Longrightarrow> map_of (bt_or_insert k v m) = [k \<mapsto> v] ++ map_of m"
  by (auto simp: bt_or_insert_def map_of_bt_insert bt_contains_map_of map_add_def fun_eq_iff
      split: option.splits)

text \<open>Two well-formed maps with the same lookups are the same map: the list is canonical.\<close>

lemma bt_canonical:
  assumes "bt_wf m"
  shows "map (\<lambda>k. (k, the (map_of m k))) (bt_keys m) = m"
  unfolding bt_keys_def map_map
proof (rule map_idI)
  fix kv assume "kv \<in> set m"
  moreover obtain k v where "kv = (k, v)" by fastforce
  moreover have "distinct (map fst m)" using bt_wf_distinct [OF assms] by (simp add: bt_keys_def)
  ultimately show "((\<lambda>k. (k, the (map_of m k))) \<circ> fst) kv = kv"
    by (simp add: map_of_is_SomeI)
qed

lemma bt_wf_eqI:
  assumes "bt_wf m" and "bt_wf n" and eq: "map_of m = map_of n"
  shows "m = n"
proof -
  have "set (bt_keys m) = set (bt_keys n)"
    using arg_cong [OF eq, of dom] by (simp add: bt_keys_def dom_map_of_conv_image_fst)
  then have "bt_keys m = bt_keys n"
    using assms(1,2) unfolding bt_wf_def by (simp add: strict_sorted_equal)
  then show ?thesis
    by (metis bt_canonical assms)
qed

subsection \<open>Encoders with a reader\<close>

text \<open>
  An encoder \<open>enc\<close> on a domain \<open>ok\<close>, with a reader \<open>rd\<close> that gives the encoded value back. What
  follows is proved once: such an encoder is injective, and the reader is its inverse.
\<close>

locale codec =
  fixes enc :: "'a \<Rightarrow> 'b" and rd :: "'b \<Rightarrow> 'a option" and ok :: "'a \<Rightarrow> bool"
  assumes rd_enc: "ok x \<Longrightarrow> rd (enc x) = Some x"
begin

lemma enc_inj: "ok x \<Longrightarrow> ok y \<Longrightarrow> enc x = enc y \<longleftrightarrow> x = y"
  by (metis option.inject rd_enc)

lemma enc_inj_on: "inj_on enc {x. ok x}"
  by (simp add: inj_on_def enc_inj)

lemma distinct_map_enc: "(\<forall>x \<in> set xs. ok x) \<Longrightarrow> distinct (map enc xs) \<longleftrightarrow> distinct xs"
  by (simp add: distinct_map inj_on_def enc_inj)

end

subsection \<open>Operations on a state\<close>

text \<open>
  An operation that may fail and changes a state: it takes the state and gives the result with the new
  state, also when it fails. \<open>io_bind\<close> is the \<^verbatim>\<open>?\<close> operator.
\<close>

type_synonym ('s, 'e, 'a) io = "'s \<Rightarrow> ('e + 'a) \<times> 's"

definition io_bind :: "('s, 'e, 'a) io \<Rightarrow> ('a \<Rightarrow> ('s, 'e, 'b) io) \<Rightarrow> ('s, 'e, 'b) io" where
  "io_bind m f s = (case m s of (Inl e, s') \<Rightarrow> (Inl e, s') | (Inr x, s') \<Rightarrow> f x s')"

definition io_lift :: "'e + 'a \<Rightarrow> ('s, 'e, 'a) io" where
  "io_lift r s = (r, s)"

lemma io_bind_cong [fundef_cong]:
  assumes "m s = m' s'" "\<And>x t. m' s' = (Inr x, t) \<Longrightarrow> f x t = f' x t"
  shows "io_bind m f s = io_bind m' f' s'"
  using assms by (auto simp: io_bind_def split: prod.splits sum.splits)

lemma io_lift_Inr_iff: "io_lift r s = (Inr x, s') \<longleftrightarrow> r = Inr x \<and> s' = s"
  by (auto simp: io_lift_def)

lemma io_bind_Inr_iff:
  "io_bind m f s = (Inr y, s') \<longleftrightarrow> (\<exists>x s1. m s = (Inr x, s1) \<and> f x s1 = (Inr y, s'))"
  by (auto simp: io_bind_def split: prod.splits sum.splits)

text \<open>
  What an operation does to the state, as a relation between the state before and after. A reflexive
  and transitive relation that holds of the parts holds of the whole.
\<close>

definition io_within :: "('s \<Rightarrow> 's \<Rightarrow> bool) \<Rightarrow> ('s, 'e, 'a) io \<Rightarrow> bool" where
  "io_within R m \<longleftrightarrow> (\<forall>s. R s (snd (m s)))"

locale io_relation =
  fixes R :: "'s \<Rightarrow> 's \<Rightarrow> bool"
  assumes R_refl: "R s s" and R_trans: "R s t \<Longrightarrow> R t u \<Longrightarrow> R s u"
begin

lemma within_lift: "io_within R (io_lift r)"
  by (simp add: io_within_def io_lift_def R_refl)

lemma within_bind: "io_within R m \<Longrightarrow> (\<And>x. io_within R (f x)) \<Longrightarrow> io_within R (io_bind m f)"
  unfolding io_within_def io_bind_def
  by (auto split: prod.splits sum.splits) (metis R_trans snd_conv)+

end

end
