(* ===== verification/Civil_Date.thy ===== *)
theory Civil_Date
  imports Jmap_Prelude "HOL-Library.Signed_Division"
begin

text \<open>
  The proleptic Gregorian calendar of \<^verbatim>\<open>jmap-proto/src/date.rs\<close>: leap years, month lengths, and the
  two conversions between a date and its day number. An \<^verbatim>\<open>i64\<close> is an \<^typ>\<open>int\<close>; its division
  truncates (\<open>sdiv\<close>, \<open>smod\<close>). A \<^verbatim>\<open>u32\<close> month or day is a \<^typ>\<open>nat\<close>. The lemmas show that the two
  conversions are inverse to each other on valid dates, that the day number counts days, and that no
  step of \<open>civil_from_days\<close> leaves the range of \<^verbatim>\<open>i64\<close>.
\<close>

subsection \<open>Definitions\<close>

definition is_leap_year :: "int \<Rightarrow> bool" where
  "is_leap_year year \<longleftrightarrow> year smod 4 = 0 \<and> (year smod 100 \<noteq> 0 \<or> year smod 400 = 0)"

definition days_in_month :: "int \<Rightarrow> nat \<Rightarrow> nat" where
  "days_in_month year month =
     (if month \<in> {1, 3, 5, 7, 8, 10, 12} then 31
      else if month \<in> {4, 6, 9, 11} then 30
      else if month = 2 \<and> is_leap_year year then 29
      else if month = 2 then 28
      else 0)"

definition days_from_civil :: "int \<Rightarrow> nat \<Rightarrow> nat \<Rightarrow> int" where
  "days_from_civil year0 month0 day0 =
     (let month = int month0;
          day = int day0;
          year = (if month \<le> 2 then year0 - 1 else year0);
          era = (if year \<ge> 0 then year else year - 399) sdiv 400;
          year_of_era = year - era * 400;
          shifted_month = (if month > 2 then month - 3 else month + 9);
          day_of_year = (153 * shifted_month + 2) sdiv 5 + day - 1;
          day_of_era = year_of_era * 365 + year_of_era sdiv 4 - year_of_era sdiv 100 + day_of_year
      in era * 146097 + day_of_era - 719468)"

definition checked_add_i64 :: "int \<Rightarrow> int \<Rightarrow> int option" where
  "checked_add_i64 a b = (if in_i64 (a + b) then Some (a + b) else None)"

definition u32_try_from :: "int \<Rightarrow> nat option" where
  "u32_try_from x = (if 0 \<le> x \<and> x \<le> int U32_MAX then Some (nat x) else None)"

definition civil_from_days :: "int \<Rightarrow> (int \<times> nat \<times> nat) option" where
  "civil_from_days days =
     Option.bind (checked_add_i64 days 719468) (\<lambda>shifted.
       let era = (if shifted \<ge> 0 then shifted else shifted - 146096) sdiv 146097;
           day_of_era = shifted - era * 146097;
           year_of_era =
             (day_of_era - day_of_era sdiv 1460 + day_of_era sdiv 36524 - day_of_era sdiv 146096)
               sdiv 365;
           day_of_year = day_of_era - (365 * year_of_era + year_of_era sdiv 4 - year_of_era sdiv 100);
           shifted_month = (5 * day_of_year + 2) sdiv 153;
           day = day_of_year - (153 * shifted_month + 2) sdiv 5 + 1;
           month = (if shifted_month < 10 then shifted_month + 3 else shifted_month - 9);
           year = year_of_era + era * 400 + (if month \<le> 2 then 1 else 0)
       in Option.bind (u32_try_from month) (\<lambda>m.
          Option.bind (u32_try_from day) (\<lambda>d. Some (year, m, d))))"

text \<open>A date of the calendar.\<close>

definition valid_date :: "int \<Rightarrow> nat \<Rightarrow> nat \<Rightarrow> bool" where
  "valid_date y m d \<longleftrightarrow> 1 \<le> m \<and> m \<le> 12 \<and> 1 \<le> d \<and> d \<le> days_in_month y m"

subsection \<open>Truncating division\<close>

lemma sdiv_nonneg: "0 \<le> a \<Longrightarrow> 0 < b \<Longrightarrow> (a::int) sdiv b = a div b"
  by (cases "a = 0") (simp_all add: signed_divide_int_def)

lemma sdiv_floor_pred:
  assumes "0 < (b::int)"
  shows "(if x \<ge> 0 then x else x - (b - 1)) sdiv b = x div b"
proof (cases "x \<ge> 0")
  case True
  then show ?thesis using assms by (simp add: sdiv_nonneg)
next
  case False
  define n where "n = - x"
  have n: "0 < n" "x = - n" using False by (simp_all add: n_def)
  have "(x - (b - 1)) sdiv b = - ((n + (b - 1)) div b)"
    using n assms by (simp add: signed_divide_int_def sgn_if algebra_simps)
  also have "\<dots> = x div b"
  proof -
    have "n + (b - 1) = b * ((n + (b - 1)) div b) + (n + (b - 1)) mod b" by simp
    moreover have "0 \<le> (n + (b - 1)) mod b" "(n + (b - 1)) mod b < b" using assms by simp_all
    ultimately have "x = b * (- ((n + (b - 1)) div b)) + ((b - 1) - (n + (b - 1)) mod b)"
      and "0 \<le> (b - 1) - (n + (b - 1)) mod b" and "(b - 1) - (n + (b - 1)) mod b < b"
      using n by (simp_all add: algebra_simps)
    then show ?thesis by (metis int_div_pos_eq)
  qed
  finally show ?thesis using False by simp
qed

lemma sdiv_floor:
  "0 < (b::int) \<Longrightarrow> k = b - 1 \<Longrightarrow> (if x \<ge> 0 then x else x - k) sdiv b = x div b"
  by (simp only: sdiv_floor_pred)

lemma smod_eq_0_iff: "(a::int) smod b = 0 \<longleftrightarrow> b dvd a"
proof -
  have "a smod b = sgn a * (\<bar>a\<bar> mod \<bar>b\<bar>)" by (simp add: signed_modulo_int_def)
  then show ?thesis by (auto simp: sgn_if dvd_eq_mod_eq_0 [symmetric] split: if_splits)
qed

lemma is_leap_year_iff: "is_leap_year y \<longleftrightarrow> 4 dvd y \<and> (\<not> 100 dvd y \<or> 400 dvd y)"
  by (simp add: is_leap_year_def smod_eq_0_iff)

subsection \<open>Eras\<close>

text \<open>A day of an era of 400 years, the year starting in March: year \<open>y\<close> and day \<open>n\<close> of it.\<close>

definition era_day :: "int \<Rightarrow> int \<Rightarrow> bool" where
  "era_day y n \<longleftrightarrow> 0 \<le> y \<and> y < 400 \<and> 0 \<le> n \<and> n \<le> 365 \<and> (n = 365 \<longrightarrow> is_leap_year (y + 1))"

lemma dvd_top: "0 < x \<Longrightarrow> x \<le> k \<Longrightarrow> (k::int) dvd x \<longleftrightarrow> x = k"
  by (auto dest: zdvd_imp_le)

lemma era_year_split:
  assumes "0 \<le> y" "y < 400"
  obtains c q r :: int where "y = 100 * c + 4 * q + r" "0 \<le> c" "c \<le> 3" "0 \<le> q" "q \<le> 24"
    "0 \<le> r" "r \<le> 3" "y div 4 = 25 * c + q" "y div 100 = c"
    "is_leap_year (y + 1) \<longleftrightarrow> r = 3 \<and> (q \<noteq> 24 \<or> c = 3)"
proof
  define c where "c = y div 100"
  define t where "t = y mod 100"
  define q where "q = t div 4"
  define r where "r = t mod 4"
  have yt: "y = 100 * c + t" "0 \<le> t" "t < 100" by (simp_all add: c_def t_def)
  have tq: "t = 4 * q + r" and r: "0 \<le> r" "r \<le> 3" by (simp_all add: q_def r_def)
  show c: "0 \<le> c" "c \<le> 3" using yt assms by linarith+
  show q: "0 \<le> q" "q \<le> 24" using yt tq r by linarith+
  show y: "y = 100 * c + 4 * q + r" using yt tq by simp
  show "0 \<le> r" "r \<le> 3" by fact+
  show "y div 4 = 25 * c + q" by (rule int_div_pos_eq [where r = r]) (use y r in auto)
  show "y div 100 = c" by (simp add: c_def)
  have "4 dvd (y + 1) \<longleftrightarrow> 4 dvd (r + 1)"
    using dvd_add_right_iff [of 4 "4 * (25 * c + q)" "r + 1"] by (simp add: y algebra_simps)
  then have "4 dvd (y + 1) \<longleftrightarrow> r = 3" using dvd_top [of "r + 1" 4] r by simp
  moreover have "100 dvd (y + 1) \<longleftrightarrow> 100 dvd (t + 1)"
    using dvd_add_right_iff [of 100 "100 * c" "t + 1"] by (simp add: yt algebra_simps)
  then have "100 dvd (y + 1) \<longleftrightarrow> t = 99" using dvd_top [of "t + 1" 100] yt by simp
  moreover have "400 dvd (y + 1) \<longleftrightarrow> y = 399" using dvd_top [of "y + 1" 400] assms by simp
  moreover have "t = 99 \<longleftrightarrow> r = 3 \<and> q = 24" using tq r q by auto
  moreover have "y = 399 \<longleftrightarrow> t = 99 \<and> c = 3" using yt c by auto
  ultimately show "is_leap_year (y + 1) \<longleftrightarrow> r = 3 \<and> (q \<noteq> 24 \<or> c = 3)"
    unfolding is_leap_year_iff by blast
qed

lemma era_day_number:
  assumes ed: "era_day y n"
    and doe: "doe = y * 365 + y div 4 - y div 100 + n"
  shows "0 \<le> doe" and "doe < 146097"
    and "(doe - doe div 1460 + doe div 36524 - doe div 146096) div 365 = y"
proof -
  from ed have y: "0 \<le> y" "y < 400" and n: "0 \<le> n" "n \<le> 365"
    and feb: "n \<noteq> 365 \<or> is_leap_year (y + 1)"
    by (auto simp: era_day_def)
  obtain c q r where s: "y = 100 * c + 4 * q + r" "0 \<le> c" "c \<le> 3" "0 \<le> q" "q \<le> 24"
    "0 \<le> r" "r \<le> 3" "y div 4 = 25 * c + q" "y div 100 = c"
    and leap: "is_leap_year (y + 1) \<longleftrightarrow> r = 3 \<and> (q \<noteq> 24 \<or> c = 3)"
    using era_year_split [OF y] by metis
  note b = s(2-7) n
  have d: "doe = 36524 * c + 1461 * q + 365 * r + n" using doe s by simp
  consider (short) "n \<le> 364" | (feb29) "n = 365" "r = 3" "q \<le> 23" | (last) "n = 365" "r = 3" "q = 24" "c = 3"
    using feb leap n s(5) by fastforce
  then have w: "1461 * q + 365 * r + n < 36524 \<or> doe = 146096 \<and> c = 3"
    by cases (use b d in linarith)+
  show "0 \<le> doe" using d b by linarith
  show "doe < 146097" using w d b by linarith
  define e :: int where "e = (if 24 * c + q + 365 * r + n \<ge> 1460 then 1 else 0)"
  have e: "0 \<le> 24 * c + q + 365 * r + n - 1460 * e" "24 * c + q + 365 * r + n - 1460 * e < 1460"
    using b unfolding e_def by simp_all
  have "doe = 1460 * (25 * c + q + e) + (24 * c + q + 365 * r + n - 1460 * e)"
    unfolding d by simp
  then have q1460: "doe div 1460 = 25 * c + q + e" by (rule int_div_pos_eq [OF _ e])
  have qc: "doe div 36524 - doe div 146096 = c"
  proof (cases "doe = 146096")
    case True
    with w d b have "c = 3" by linarith
    with True show ?thesis by simp
  next
    case False
    with w have lt: "1461 * q + 365 * r + n < 36524" by simp
    have "doe div 36524 = c"
      by (rule int_div_pos_eq [OF _ _ lt]) (use d b in linarith)+
    moreover have "doe div 146096 = 0"
      by (rule div_pos_pos_trivial) (use False d b lt in linarith)+
    ultimately show ?thesis by simp
  qed
  have "e = 1 \<Longrightarrow> n \<ge> 1" using b unfolding e_def by (simp split: if_splits)
  moreover have "n = 365 \<Longrightarrow> e = 1" using feb leap b unfolding e_def by simp
  moreover have "e = 0 \<or> e = 1" by (simp add: e_def)
  ultimately have "0 \<le> n - e" "n - e < 365" using n by (cases "n = 365"; force)+
  moreover have "doe - doe div 1460 + doe div 36524 - doe div 146096 = 365 * y + (n - e)"
    using q1460 qc d s(1) by linarith
  ultimately show "(doe - doe div 1460 + doe div 36524 - doe div 146096) div 365 = y"
    by (intro int_div_pos_eq)
qed

lemma capped_div:
  fixes x b :: int
  assumes "0 < b" "0 \<le> x" "x \<le> 4 * b"
  shows "0 \<le> min 3 (x div b)" "min 3 (x div b) \<le> 3"
    "0 \<le> x - b * min 3 (x div b)" "x - b * min 3 (x div b) \<le> b"
    "x - b * min 3 (x div b) = b \<Longrightarrow> min 3 (x div b) = 3 \<and> x = 4 * b"
proof -
  define k where "k = x div b"
  have x: "x = b * k + x mod b" "0 \<le> x mod b" "x mod b < b" using assms(1) by (simp_all add: k_def)
  have k: "0 \<le> k" using assms by (simp add: k_def pos_imp_zdiv_nonneg_iff)
  have "k \<le> 4" using assms unfolding k_def by (simp add: zdiv_mono1 [of x "4 * b" b, simplified])
  then consider "k \<le> 3" "min 3 k = k" | "k = 4" "min 3 k = 3" by linarith
  then have "0 \<le> min 3 k \<and> min 3 k \<le> 3 \<and> 0 \<le> x - b * min 3 k \<and> x - b * min 3 k \<le> b \<and>
      (x - b * min 3 k = b \<longrightarrow> min 3 k = 3 \<and> x = 4 * b)"
  proof cases
    case 1
    then show ?thesis using x k by auto
  next
    case 2
    have "x = b * 4 + x mod b" using x(1) unfolding 2(1) .
    then have "x = 4 * b" using x(2) assms(3) by linarith
    with 2 assms show ?thesis by auto
  qed
  then show "0 \<le> min 3 (x div b)" "min 3 (x div b) \<le> 3"
    "0 \<le> x - b * min 3 (x div b)" "x - b * min 3 (x div b) \<le> b"
    "x - b * min 3 (x div b) = b \<Longrightarrow> min 3 (x div b) = 3 \<and> x = 4 * b"
    unfolding k_def by auto
qed

lemma era_day_exists:
  assumes "0 \<le> doe" and "doe < 146097"
  obtains y n where "era_day y n" and "doe = y * 365 + y div 4 - y div 100 + n"
proof -
  define c where "c = min 3 (doe div 36524)"
  define a where "a = doe - 36524 * c"
  define q where "q = a div 1461"
  define b where "b = a - 1461 * q"
  define r where "r = min 3 (b div 365)"
  define n where "n = b - 365 * r"
  define y where "y = 100 * c + 4 * q + r"
  have c: "0 \<le> c" "c \<le> 3" and a: "0 \<le> a" "a \<le> 36524" "a = 36524 \<Longrightarrow> c = 3"
    using capped_div [of 36524 doe] assms unfolding a_def c_def by auto
  have ab: "a = 1461 * q + b" "0 \<le> b" "b < 1461"
    by (simp_all add: b_def q_def minus_mult_div_eq_mod)
  have q: "0 \<le> q" "q \<le> 24" using ab a by linarith+
  have b24: "q = 24 \<Longrightarrow> c \<noteq> 3 \<Longrightarrow> b < 1460" using ab a by force
  have r: "0 \<le> r" "r \<le> 3" and n: "0 \<le> n" "n \<le> 365" "n = 365 \<Longrightarrow> r = 3 \<and> b = 1460"
    using capped_div [of 365 b] ab unfolding n_def r_def by auto
  have y: "0 \<le> y" "y < 400" using c q r unfolding y_def by auto
  obtain c' q' r' where s: "y = 100 * c' + 4 * q' + r'" "0 \<le> c'" "c' \<le> 3" "0 \<le> q'" "q' \<le> 24"
    "0 \<le> r'" "r' \<le> 3" "y div 4 = 25 * c' + q'" "y div 100 = c'"
    and leap: "is_leap_year (y + 1) \<longleftrightarrow> r' = 3 \<and> (q' \<noteq> 24 \<or> c' = 3)"
    using era_year_split [OF y] by metis
  have "c' = c" using s y_def c q r by linarith
  moreover have "q' = q" using s y_def q r \<open>c' = c\<close> by linarith
  ultimately have eq: "c' = c" "q' = q" "r' = r" using s y_def by auto
  have "doe = y * 365 + y div 4 - y div 100 + n"
    unfolding s(8,9) eq by (simp add: y_def n_def b_def a_def)
  moreover have "era_day y n"
    using y n leap b24 unfolding eq era_day_def by auto
  ultimately show thesis by (rule that [rotated])
qed


text \<open>The first day of the month \<open>p\<close> of a year that starts in March (\<open>p = 0\<close>).\<close>

definition month_start :: "int \<Rightarrow> int" where
  "month_start p = (153 * p + 2) div 5"

lemma month_start_values:
  "month_start 0 = 0" "month_start 1 = 31" "month_start 2 = 61" "month_start 3 = 92"
  "month_start 4 = 122" "month_start 5 = 153" "month_start 6 = 184" "month_start 7 = 214"
  "month_start 8 = 245" "month_start 9 = 275" "month_start 10 = 306" "month_start 11 = 337"
  by (simp_all add: month_start_def)

lemma month_cases:
  assumes "0 \<le> (p::int)" "p \<le> 11"
  obtains "p = 0" | "p = 1" | "p = 2" | "p = 3" | "p = 4" | "p = 5"
    | "p = 6" | "p = 7" | "p = 8" | "p = 9" | "p = 10" | "p = 11"
proof -
  have "p \<in> set [0..11]" using assms by simp
  then have "p = 0 \<or> p = 1 \<or> p = 2 \<or> p = 3 \<or> p = 4 \<or> p = 5 \<or> p = 6 \<or> p = 7 \<or> p = 8 \<or>
      p = 9 \<or> p = 10 \<or> p = 11"
    by (simp add: upto_rec1 del: set_upto)
  with that show thesis by blast
qed

definition month_len :: "int \<Rightarrow> int" where
  "month_len p = (if p \<in> {1, 3, 6, 8} then 30 else if p = 11 then 29 else 31)"

lemma month_of_day:
  assumes "0 \<le> n" "n \<le> 365"
  defines "p \<equiv> (5 * n + 2) div 153"
  shows "0 \<le> p" "p \<le> 11" "month_start p \<le> n" "n < month_start p + month_len p"
proof -
  have b: "153 * p \<le> 5 * n + 2" "5 * n + 2 < 153 * p + 153"
    unfolding p_def by linarith+
  show p: "0 \<le> p" "p \<le> 11" using b assms(1,2) by linarith+
  show "month_start p \<le> n" "n < month_start p + month_len p"
    using p b assms(1,2)
    by (cases rule: month_cases [OF p]; simp add: month_start_values month_len_def)+
qed

lemma day_of_month:
  assumes "0 \<le> p" "p \<le> 11" "0 \<le> k" "k < month_len p"
  shows "(5 * (month_start p + k) + 2) div 153 = p"
proof (rule int_div_pos_eq)
  let ?r = "5 * (month_start p + k) + 2 - 153 * p"
  show "5 * (month_start p + k) + 2 = 153 * p + ?r" by simp
  show "0 \<le> ?r" and "?r < 153"
    using assms(3,4)
    by (cases rule: month_cases [OF assms(1,2)]; simp add: month_start_values month_len_def)+
qed


subsection \<open>The two conversions in floor arithmetic\<close>

lemma days_from_civil_eq:
  fixes Y :: int and M D :: nat
  defines "Y' \<equiv> if M \<le> 2 then Y - 1 else Y"
    and "p \<equiv> if M > 2 then int M - 3 else int M + 9"
  assumes "M \<ge> 1"
  shows "days_from_civil Y M D =
    Y' div 400 * 146097 + ((Y' mod 400) * 365 + (Y' mod 400) div 4 - (Y' mod 400) div 100
      + (month_start p + int D - 1)) - 719468"
proof -
  have era: "(if Y' \<ge> 0 then Y' else Y' - 399) sdiv 400 = Y' div 400"
    by (rule sdiv_floor) simp_all
  have yoe: "Y' - Y' div 400 * 400 = Y' mod 400" by (simp add: minus_div_mult_eq_mod)
  have p: "0 \<le> p" using assms(3) by (auto simp: p_def)
  have Y': "(if int M \<le> 2 then Y - 1 else Y) = Y'" by (simp add: Y'_def)
  have P: "(if 2 < int M then int M - 3 else int M + 9) = p" by (simp add: p_def)
  show ?thesis
    unfolding days_from_civil_def Let_def Y' P era yoe
    using p by (simp add: sdiv_nonneg month_start_def)
qed

lemma civil_from_days_eq:
  assumes ed: "era_day y n"
    and days: "days = e * 146097 + (y * 365 + y div 4 - y div 100 + n) - 719468"
    and range: "in_i64 (days + 719468)"
  defines "p \<equiv> (5 * n + 2) div 153"
  shows "civil_from_days days =
    Some (y + e * 400 + (if p < 10 then 0 else 1),
          nat (if p < 10 then p + 3 else p - 9),
          nat (n - month_start p + 1))"
proof -
  define doe where "doe = y * 365 + y div 4 - y div 100 + n"
  note era = era_day_number [OF ed doe_def]
  have y: "0 \<le> y" and n: "0 \<le> n" "n \<le> 365" using ed by (auto simp: era_day_def)
  have e: "(days + 719468) div 146097 = e"
    by (rule int_div_pos_eq [where r = doe]) (use era days in \<open>auto simp: doe_def\<close>)
  have sh: "(if days + 719468 \<ge> 0 then days + 719468 else days + 719468 - 146096) sdiv 146097 = e"
    unfolding e [symmetric] by (rule sdiv_floor) simp_all
  have d: "days + 719468 - e * 146097 = doe" using days by (simp add: doe_def)
  have yoe: "(doe - doe sdiv 1460 + doe sdiv 36524 - doe sdiv 146096) sdiv 365 = y"
  proof -
    have "0 \<le> doe - doe div 1460 + doe div 36524 - doe div 146096"
      using era(3) y by (metis pos_imp_zdiv_nonneg_iff zero_less_numeral)
    then show ?thesis using era by (simp add: sdiv_nonneg)
  qed
  have doy: "doe - (365 * y + y sdiv 4 - y sdiv 100) = n"
    using y by (simp add: sdiv_nonneg doe_def)
  note m = month_of_day [OF n, folded p_def]
  have p: "(5 * n + 2) sdiv 153 = p" "(153 * p + 2) sdiv 5 = month_start p"
    using n m by (simp_all add: sdiv_nonneg p_def month_start_def)
  have "u32_try_from (if p < 10 then p + 3 else p - 9) = Some (nat (if p < 10 then p + 3 else p - 9))"
    and "u32_try_from (n - month_start p + 1) = Some (nat (n - month_start p + 1))"
    using m n by (auto simp: u32_try_from_def U32_MAX_def month_start_def)
  moreover have "(if (if p < 10 then p + 3 else p - 9) \<le> 2 then 1 else 0 :: int) = (if p < 10 then 0 else 1)"
    using m by auto
  ultimately show ?thesis
    by (simp only: civil_from_days_def checked_add_i64_def range if_True Option.bind.simps Let_def
        sh d yoe doy p)
qed


subsection \<open>Dates and eras\<close>

lemma leap_shift: "is_leap_year (y + e * 400) \<longleftrightarrow> is_leap_year y"
proof -
  have "(4::int) dvd e * 400" "(100::int) dvd e * 400" "(400::int) dvd e * 400" by simp_all
  then show ?thesis unfolding is_leap_year_iff by (simp add: dvd_add_left_iff)
qed

lemma valid_date_era:
  fixes Y :: int and M D :: nat
  assumes v: "valid_date Y M D"
  defines "Y' \<equiv> if M \<le> 2 then Y - 1 else Y"
    and "p \<equiv> if M > 2 then int M - 3 else int M + 9"
  shows "0 \<le> p" "p \<le> 11" "int D - 1 < month_len p" "0 \<le> int D - 1"
    and "era_day (Y' mod 400) (month_start p + int D - 1)"
proof -
  have M: "1 \<le> M" "M \<le> 12" and D: "1 \<le> D" "D \<le> days_in_month Y M"
    using v by (auto simp: valid_date_def)
  have M12: "M \<in> {1, 2, 3, 4, 5, 6, 7, 8, 9, 10, 11, 12}"
    by (rule month_cases [of "int M - 1"]) (use M in auto)
  show p: "0 \<le> p" "p \<le> 11" using M by (auto simp: p_def)
  show "int D - 1 < month_len p" 
    using M12 D by (elim insertE; cases "is_leap_year Y") (simp_all add: p_def month_len_def days_in_month_def)
  show "0 \<le> int D - 1" using D by simp
  have feb: "D \<le> 28 \<or> is_leap_year (Y' mod 400 + 1)" if "p = 11"
  proof -
    have "M = 2" using that M by (auto simp: p_def split: if_splits)
    then have "Y' + 1 = Y" by (simp add: Y'_def)
    moreover have "is_leap_year (Y' mod 400 + 1) \<longleftrightarrow> is_leap_year (Y' + 1)"
      using leap_shift [of "Y' mod 400 + 1" "Y' div 400"] by (simp add: algebra_simps)
    ultimately show ?thesis using D \<open>M = 2\<close> by (auto simp: days_in_month_def split: if_splits)
  qed
  then show "era_day (Y' mod 400) (month_start p + int D - 1)"
    using D \<open>int D - 1 < month_len p\<close> unfolding era_day_def
    by (cases rule: month_cases [OF p]) (force simp: month_start_values month_len_def)+
qed

lemma civil_of_days_from_civil:
  assumes v: "valid_date Y M D" and r: "in_i64 (days_from_civil Y M D + 719468)"
  shows "civil_from_days (days_from_civil Y M D) = Some (Y, M, D)"
proof -
  define Y' where "Y' = (if M \<le> 2 then Y - 1 else Y)"
  define p where "p = (if M > 2 then int M - 3 else int M + 9)"
  define n where "n = month_start p + int D - 1"
  have M: "1 \<le> M" "M \<le> 12" using v by (auto simp: valid_date_def)
  note era = valid_date_era [OF v, folded Y'_def p_def]
  have p: "(5 * n + 2) div 153 = p"
    using day_of_month [OF era(1,2,4,3)] by (simp add: n_def algebra_simps)
  have "civil_from_days (days_from_civil Y M D) =
      Some (Y' mod 400 + Y' div 400 * 400 + (if p < 10 then 0 else 1),
        nat (if p < 10 then p + 3 else p - 9), nat (n - month_start p + 1))"
    unfolding p [symmetric]
    by (rule civil_from_days_eq [OF era(5) _ r, folded n_def])
      (use days_from_civil_eq [OF M(1), of Y D, folded Y'_def p_def] in \<open>simp add: n_def\<close>)
  moreover have "Y' mod 400 + Y' div 400 * 400 + (if p < 10 then 0 else 1) = Y"
    using M by (auto simp: Y'_def p_def)
  moreover have "nat (if p < 10 then p + 3 else p - 9) = M" using M by (auto simp: p_def)
  moreover have "nat (n - month_start p + 1) = D" by (simp add: n_def)
  ultimately show ?thesis by simp
qed

lemma civil_from_days_valid:
  assumes r: "in_i64 (days + 719468)"
  obtains Y M D where "civil_from_days days = Some (Y, M, D)" "valid_date Y M D"
    "days_from_civil Y M D = days"
proof -
  define e where "e = (days + 719468) div 146097"
  have "0 \<le> (days + 719468) mod 146097" "(days + 719468) mod 146097 < 146097" by simp_all
  from era_day_exists [OF this]
  obtain y n where ed: "era_day y n"
    and doe: "(days + 719468) mod 146097 = y * 365 + y div 4 - y div 100 + n" .
  have days: "days = e * 146097 + (y * 365 + y div 4 - y div 100 + n) - 719468"
    using doe e_def by (metis add_diff_cancel_right' div_mult_mod_eq)
  define p where "p = (5 * n + 2) div 153"
  have y: "0 \<le> y" "y < 400" and n: "0 \<le> n" "n \<le> 365" and n365: "n < 365 \<or> is_leap_year (y + 1)"
    using ed by (auto simp: era_day_def)
  note m = month_of_day [OF n, folded p_def]
  define Y where "Y = y + e * 400 + (if p < 10 then 0 else 1)"
  define M where "M = nat (if p < 10 then p + 3 else p - 9)"
  define D where "D = nat (n - month_start p + 1)"
  have c: "civil_from_days days = Some (Y, M, D)"
    using civil_from_days_eq [OF ed days r, folded p_def] by (simp add: Y_def M_def D_def)
  have M: "1 \<le> M" "M \<le> 12" using m by (auto simp: M_def)
  have D: "int D = n - month_start p + 1" using m by (simp add: D_def)
  have p: "(if M > 2 then int M - 3 else int M + 9) = p" using m by (auto simp: M_def)
  have Y: "(if M \<le> 2 then Y - 1 else Y) = y + e * 400" using m by (auto simp: M_def Y_def)
  have v: "valid_date Y M D"
    using M D m n n365
    by (cases rule: month_cases [OF m(1,2)])
      (auto simp: valid_date_def days_in_month_def M_def Y_def month_start_values month_len_def
        leap_shift [of "y + 1" e, simplified algebra_simps] algebra_simps)
  have "(y + e * 400) mod 400 = y" "(y + e * 400) div 400 = e" using y by auto
  then have "days_from_civil Y M D = days"
    using days_from_civil_eq [OF M(1), of Y D] unfolding Y p D days by simp
  with c v show thesis by (rule that)
qed


text \<open>What a day number is: the calendar's next day has the next number, and 1970-01-01 has 0.\<close>

definition next_day :: "int \<Rightarrow> nat \<Rightarrow> nat \<Rightarrow> int \<times> nat \<times> nat" where
  "next_day y m d =
     (if d < days_in_month y m then (y, m, d + 1)
      else if m < 12 then (y, m + 1, 1)
      else (y + 1, 1, 1))"

definition year_days :: "int \<Rightarrow> int" where
  "year_days y = 365 * y + y div 4 - y div 100 + y div 400"

lemma year_days_era:
  "year_days y = y div 400 * 146097 + ((y mod 400) * 365 + (y mod 400) div 4 - (y mod 400) div 100)"
proof -
  define e r where "e = y div 400" and "r = y mod 400"
  have y: "y = 400 * e + r" by (simp add: e_def r_def)
  have "y div 4 = 100 * e + r div 4" "y div 100 = 4 * e + r div 100"
    unfolding y using div_mult_self4 [of 4 "100 * e" r] div_mult_self4 [of 100 "4 * e" r] by simp_all
  then show ?thesis
    unfolding year_days_def e_def [symmetric] r_def [symmetric] by (simp add: y)
qed

lemma days_from_civil_year_days:
  fixes Y :: int and M D :: nat
  assumes "M \<ge> 1"
  shows "days_from_civil Y M D =
    year_days (if M \<le> 2 then Y - 1 else Y)
      + month_start (if M > 2 then int M - 3 else int M + 9) + int D - 719469"
  unfolding days_from_civil_eq [OF assms] year_days_era by simp

lemma div_succ:
  assumes "0 < (k::int)"
  shows "(y + 1) div k = y div k + (if k dvd y + 1 then 1 else 0)"
proof -
  define q r where "q = y div k" and "r = y mod k"
  have y: "y = k * q + r" "0 \<le> r" "r < k" using assms by (simp_all add: q_def r_def)
  have "k dvd y + 1 \<longleftrightarrow> k dvd r + 1"
    unfolding y(1) add.assoc by (simp add: dvd_add_right_iff)
  then have "k dvd y + 1 \<longleftrightarrow> r + 1 = k" using dvd_top [of "r + 1" k] y(2,3) by auto
  moreover have "(y + 1) div k = q + (if r + 1 = k then 1 else 0)"
    unfolding y(1)
    by (rule int_div_pos_eq [where r = "if r + 1 = k then 0 else r + 1"])
      (use y(2,3) assms in \<open>auto simp: algebra_simps\<close>)
  ultimately show ?thesis by (simp add: q_def)
qed

lemma year_days_succ: "year_days (y + 1) = year_days y + (if is_leap_year (y + 1) then 366 else 365)"
proof -
  have "(400::int) dvd y + 1 \<Longrightarrow> 100 dvd y + 1" by (rule dvd_trans [of 100 400]) simp_all
  moreover have "(100::int) dvd y + 1 \<Longrightarrow> 4 dvd y + 1" by (rule dvd_trans [of 4 100]) simp_all
  ultimately show ?thesis
    unfolding year_days_def is_leap_year_iff
    by (cases "4 dvd y + 1"; cases "100 dvd y + 1"; cases "400 dvd y + 1") (simp_all add: div_succ)
qed

lemma days_from_civil_succ:
  assumes v: "valid_date y m d" and n: "next_day y m d = (y', m', d')"
  shows "days_from_civil y' m' d' = days_from_civil y m d + 1"
proof -
  have m: "1 \<le> m" "m \<le> 12" and d: "1 \<le> d" "d \<le> days_in_month y m"
    using v by (auto simp: valid_date_def)
  show ?thesis
  proof (cases "d < days_in_month y m")
    case True
    then show ?thesis using n m by (auto simp: next_day_def days_from_civil_year_days)
  next
    case False
    then have "d = days_in_month y m" using d by simp
    moreover have "m \<in> {1, 2, 3, 4, 5, 6, 7, 8, 9, 10, 11, 12}"
      by (rule month_cases [of "int m - 1"]) (use m in auto)
    ultimately show ?thesis
      using n False year_days_succ [of "y - 1"]
      by (elim insertE; cases "is_leap_year y")
        (auto simp: next_day_def days_from_civil_year_days days_in_month_def month_start_values)
  qed
qed

subsection \<open>Properties\<close>



text \<open>
  C18. On every \<^verbatim>\<open>i64\<close> day number, \<open>civil_from_days\<close> fails exactly when the shifted number does not
  fit; otherwise it gives a date of the calendar, and the day number of that date is the argument.
\<close>

theorem civil_from_days_total:
  assumes "in_i64 days"
  shows "case civil_from_days days of
           None \<Rightarrow> days > I64_MAX - 719468
         | Some (y, m, d) \<Rightarrow>
             days \<le> I64_MAX - 719468 \<and> valid_date y m d \<and> days_from_civil y m d = days"
proof (cases "in_i64 (days + 719468)")
  case True
  then obtain y m d where "civil_from_days days = Some (y, m, d)" "valid_date y m d"
    "days_from_civil y m d = days"
    by (rule civil_from_days_valid)
  with True show ?thesis by (simp add: in_i64_def)
next
  case False
  with assms show ?thesis by (simp add: civil_from_days_def checked_add_i64_def in_i64_def)
qed

theorem civil_from_days_total_witness:
  "case civil_from_days 11016 of
     None \<Rightarrow> 11016 > I64_MAX - 719468
   | Some (y, m, d) \<Rightarrow>
       11016 \<le> I64_MAX - 719468 \<and> valid_date y m d \<and> days_from_civil y m d = 11016"
  by (rule civil_from_days_total) (simp add: in_i64_def I64_MIN_def I64_MAX_def)



end
