(* ===== verification/Mail_Date.thy ===== *)
theory Mail_Date
  imports Civil_Date
begin

text \<open>
  The dates of \<^verbatim>\<open>jmap-mail-sync/src/date.rs\<close>: \<open>epoch_seconds\<close> reads a JMAP \<^verbatim>\<open>UTCDate\<close> or \<^verbatim>\<open>Date\<close> as
  seconds since the epoch, \<open>utc_date\<close> writes seconds as a \<^verbatim>\<open>UTCDate\<close>. The reader cuts the text of a
  numeric offset by octets, so it can panic; the model has that outcome. The lemmas show that every
  date written is read back, which instants can be written, that the reader never panics on ASCII
  text, and a text from the wire on which it does.
\<close>

subsection \<open>Definitions\<close>

definition in_years :: "int \<Rightarrow> bool" where
  "in_years year \<longleftrightarrow> 1 \<le> year \<and> year \<le> 9999"

abbreviation parse_u32 :: "str \<Rightarrow> nat option" where
  "parse_u32 \<equiv> parse_unsigned U32_MAX"

abbreviation parse_i64 :: "str \<Rightarrow> int option" where
  "parse_i64 \<equiv> parse_signed I64_MIN I64_MAX"

definition split3 :: "str \<Rightarrow> char \<Rightarrow> (str \<times> str \<times> str) option" where
  "split3 text separator =
     (case split_on separator text of [a, b, c] \<Rightarrow> Some (a, b, c) | _ \<Rightarrow> None)"

definition split_offset :: "str \<Rightarrow> (str \<times> int) option outcome" where
  "split_offset text =
     (case strip_suffix ''Z'' text of
        Some time \<Rightarrow> Done (Some (time, 0))
      | None \<Rightarrow>
     (case strip_suffix ''z'' text of
        Some time \<Rightarrow> Done (Some (time, 0))
      | None \<Rightarrow>
     try_opt (Done (find_char (\<lambda>c. c = CHR ''+'' \<or> c = CHR ''-'') text)) (\<lambda>sign_at.
       let time = take sign_at text;
           offset0 = drop sign_at text;
           sign = (if hd offset0 = CHR ''-'' then -1 else 1 :: int);
           offset = drop 1 offset0
       in try_opt
            (case split_once (CHR '':'') offset of
               Some (hours, minutes) \<Rightarrow> Done (Some (hours, minutes))
             | None \<Rightarrow>
                 if length offset = 4
                 then (case split_at offset 2 of Panic \<Rightarrow> Panic | Done p \<Rightarrow> Done (Some p))
                 else Done None)
            (\<lambda>(hours_text, minutes_text).
               try_opt (Done (parse_u32 hours_text)) (\<lambda>hours.
               try_opt (Done (parse_u32 minutes_text)) (\<lambda>minutes.
                 if hours > 23 \<or> minutes > 59 then Done None
                 else Done (Some (time, sign * (int hours * 3600 + int minutes * 60)))))))))"

definition epoch_seconds :: "str \<Rightarrow> int option outcome" where
  "epoch_seconds text =
     try_opt (Done (split_once (CHR ''T'') text)) (\<lambda>(date, rest).
     try_opt (Done (split3 date (CHR ''-''))) (\<lambda>(year_text, month_text, day_text).
     try_opt (Done (parse_i64 year_text)) (\<lambda>year.
     try_opt (Done (parse_u32 month_text)) (\<lambda>month.
     try_opt (Done (parse_u32 day_text)) (\<lambda>day.
     if \<not> in_years year \<or> \<not> (1 \<le> month \<and> month \<le> 12) \<or> day < 1 \<or> day > days_in_month year month
     then Done None
     else
     try_opt (split_offset rest) (\<lambda>(time, offset).
     try_opt (Done (split3 time (CHR '':''))) (\<lambda>(hour_text, minute_text, second_field).
     let second_text = (case split_once (CHR ''.'') second_field of
                          None \<Rightarrow> second_field | Some (whole, _) \<Rightarrow> whole)
     in
     try_opt (Done (parse_u32 hour_text)) (\<lambda>hour.
     try_opt (Done (parse_u32 minute_text)) (\<lambda>minute.
     try_opt (Done (parse_u32 second_text)) (\<lambda>second.
     if hour > 23 \<or> minute > 59 \<or> second > 60 then Done None
     else
       let seconds_of_day = int hour * 3600 + int minute * 60 + int (min second 59)
       in Done (Some (days_from_civil year month day * 86400 + seconds_of_day - offset))))))))))))"

definition civil_from_days_in_years :: "int \<Rightarrow> (int \<times> nat \<times> nat) option" where
  "civil_from_days_in_years days =
     Option.bind (civil_from_days days) (\<lambda>(year, month, day).
       if in_years year then Some (year, month, day) else None)"

definition utc_date :: "int \<Rightarrow> str option" where
  "utc_date seconds =
     (let days = seconds div 86400;
          seconds_of_day = seconds mod 86400
      in Option.bind (civil_from_days_in_years days) (\<lambda>(year, month, day).
           let hour = seconds_of_day sdiv 3600;
               minute = (seconds_of_day sdiv 60) smod 60;
               second = seconds_of_day smod 60
           in Some (pad_dec 4 (nat year) @ ''-'' @ pad_dec 2 month @ ''-'' @ pad_dec 2 day @ ''T''
                @ pad_dec 2 (nat hour) @ '':'' @ pad_dec 2 (nat minute) @ '':''
                @ pad_dec 2 (nat second) @ ''Z'')))"

subsection \<open>Lemmas\<close>

lemma year_days_mono: "y \<le> y' \<Longrightarrow> year_days y \<le> year_days y'"
proof (induction y' rule: int_ge_induct)
  case (step i)
  then show ?case using year_days_succ [of i] by (simp split: if_splits)
qed simp

lemma valid_date_in_year:
  assumes "valid_date y m d"
  shows "days_from_civil y 1 1 \<le> days_from_civil y m d"
    and "days_from_civil y m d < days_from_civil (y + 1) 1 1"
proof -
  have m: "1 \<le> m" "m \<le> 12" and d: "1 \<le> d" "d \<le> days_in_month y m"
    using assms by (auto simp: valid_date_def)
  have M12: "m \<in> {1, 2, 3, 4, 5, 6, 7, 8, 9, 10, 11, 12}"
    by (rule month_cases [of "int m - 1"]) (use m in auto)
  have s: "year_days y = year_days (y - 1) + (if is_leap_year y then 366 else 365)"
    using year_days_succ [of "y - 1"] by simp
  show "days_from_civil y 1 1 \<le> days_from_civil y m d"
    using M12 d s
    by (elim insertE; cases "is_leap_year y")
      (simp_all add: days_from_civil_year_days month_start_values days_in_month_def)
  show "days_from_civil y m d < days_from_civil (y + 1) 1 1"
    using M12 d s
    by (elim insertE; cases "is_leap_year y")
      (simp_all add: days_from_civil_year_days month_start_values days_in_month_def)
qed

lemma days_from_civil_Jan1_mono: "y \<le> y' \<Longrightarrow> days_from_civil y 1 1 \<le> days_from_civil y' 1 1"
  using year_days_mono [of "y - 1" "y' - 1"] by (simp add: days_from_civil_year_days)

lemma in_years_iff_days:
  assumes "valid_date y m d"
  shows "in_years y \<longleftrightarrow> -719162 \<le> days_from_civil y m d \<and> days_from_civil y m d \<le> 2932896"
proof -
  have first: "days_from_civil 1 1 1 = -719162" and last: "days_from_civil 10000 1 1 = 2932897"
    by (simp_all add: days_from_civil_year_days year_days_def month_start_values)
  note b = valid_date_in_year [OF assms]
  have "1 \<le> y \<longleftrightarrow> -719162 \<le> days_from_civil y m d"
    using days_from_civil_Jan1_mono [of 1 y] days_from_civil_Jan1_mono [of "y + 1" 1] b first
    by fastforce
  moreover have "y \<le> 9999 \<longleftrightarrow> days_from_civil y m d \<le> 2932896"
    using days_from_civil_Jan1_mono [of "y + 1" 10000] days_from_civil_Jan1_mono [of 10000 y] b last
    by fastforce
  ultimately show ?thesis by (simp add: in_years_def)
qed

lemma civil_from_days_SomeD:
  assumes "civil_from_days days = Some (y, m, d)"
  shows "valid_date y m d" and "days_from_civil y m d = days"
proof -
  have "in_i64 (days + 719468)"
    using assms by (auto simp: civil_from_days_def checked_add_i64_def split: if_splits)
  then obtain y' m' d' where "civil_from_days days = Some (y', m', d')" "valid_date y' m' d'"
    "days_from_civil y' m' d' = days"
    by (rule civil_from_days_valid)
  with assms show "valid_date y m d" and "days_from_civil y m d = days" by auto
qed

lemma civil_in_years_SomeD:
  assumes "civil_from_days_in_years days = Some (y, m, d)"
  shows "valid_date y m d" and "days_from_civil y m d = days" and "in_years y"
  using assms civil_from_days_SomeD
  by (auto simp: civil_from_days_in_years_def bind_eq_Some_conv split: if_splits)

lemma utc_date_range:
  assumes "in_i64 seconds"
  shows "utc_date seconds \<noteq> None \<longleftrightarrow> -62135596800 \<le> seconds \<and> seconds \<le> 253402300799"
proof -
  define days where "days = seconds div 86400"
  have s: "seconds = 86400 * days + seconds mod 86400" "0 \<le> seconds mod 86400"
    "seconds mod 86400 < 86400"
    by (simp_all add: days_def)
  have "- 9223372036854775808 \<le> seconds" "seconds \<le> 9223372036854775807"
    using assms by (simp_all add: in_i64_def I64_MIN_def I64_MAX_def)
  then have "- 9223372036854775808 \<le> days + 719468" "days + 719468 \<le> 9223372036854775807"
    using s by linarith+
  then have "in_i64 (days + 719468)" by (simp add: in_i64_def I64_MIN_def I64_MAX_def)
  then obtain y m d where c: "civil_from_days days = Some (y, m, d)" "valid_date y m d"
    "days_from_civil y m d = days"
    by (rule civil_from_days_valid)
  have "utc_date seconds \<noteq> None \<longleftrightarrow> in_years y"
    by (simp add: utc_date_def Let_def days_def [symmetric] civil_from_days_in_years_def c(1))
  also have "\<dots> \<longleftrightarrow> -719162 \<le> days \<and> days \<le> 2932896"
    using in_years_iff_days [OF c(2)] c(3) by simp
  also have "\<dots> \<longleftrightarrow> -62135596800 \<le> seconds \<and> seconds \<le> 253402300799"
    using s by linarith
  finally show ?thesis .
qed

lemma split3_fields:
  assumes "c \<notin> set a" "c \<notin> set b" "c \<notin> set d"
  shows "split3 (a @ c # b @ c # d) c = Some (a, b, d)"
  using assms by (simp add: split3_def split_on_append split_on_no_sep)

lemma time_of_day_fields:
  assumes "0 \<le> t" "t < 86400"
  defines "h \<equiv> nat (t sdiv 3600)" and "mi \<equiv> nat ((t sdiv 60) smod 60)" and "s \<equiv> nat (t smod 60)"
  shows "h \<le> 23" "mi \<le> 59" "s \<le> 59" "int h * 3600 + int mi * 60 + int s = t"
proof -
  have e: "h = nat (t div 3600)" "mi = nat (t div 60 mod 60)" "s = nat (t mod 60)"
    using assms(1,2)
    by (simp_all add: h_def mi_def s_def sdiv_nonneg signed_modulo_int_def sgn_if)
  show "h \<le> 23" "mi \<le> 59" "s \<le> 59" using assms(1,2) unfolding e by linarith+
  have "t div 60 div 60 = t div 3600" by (simp add: div_mult2_eq [symmetric] zdiv_zmult2_eq [symmetric])
  then show "int h * 3600 + int mi * 60 + int s = t"
    using assms(1,2) unfolding e by (simp add: pos_imp_zdiv_nonneg_iff) presburger
qed


lemma utc_date_read_back:
  assumes "utc_date seconds = Some text"
  shows "epoch_seconds text = Done (Some seconds)"
proof -
  define t where "t = seconds mod 86400"
  have t: "0 \<le> t" "t < 86400" by (simp_all add: t_def)
  define h mi s where "h = nat (t sdiv 3600)" and "mi = nat ((t sdiv 60) smod 60)"
    and "s = nat (t smod 60)"
  note f = time_of_day_fields [OF t, folded h_def mi_def s_def]
  obtain y m d where c: "civil_from_days_in_years (seconds div 86400) = Some (y, m, d)"
    and tx: "text = (pad_dec 4 (nat y) @ CHR ''-'' # pad_dec 2 m @ CHR ''-'' # pad_dec 2 d)
      @ CHR ''T'' # ((pad_dec 2 h @ CHR '':'' # pad_dec 2 mi @ CHR '':'' # pad_dec 2 s) @ ''Z'')"
    using assms by (auto simp: utc_date_def Let_def bind_eq_Some_conv h_def mi_def s_def t_def)
  note v = civil_in_years_SomeD [OF c]
  have bounds: "1 \<le> m" "m \<le> 12" "1 \<le> d" "d \<le> days_in_month y m" "d \<le> 31"
    using v(1) by (auto simp: valid_date_def days_in_month_def split: if_splits)
  have y: "1 \<le> y" "y \<le> 9999" using v(3) by (simp_all add: in_years_def)
  have nd: "\<not> is_ascii_digit (CHR ''-'')" "\<not> is_ascii_digit (CHR ''T'')" "\<not> is_ascii_digit (CHR '':'')"
    "\<not> is_ascii_digit (CHR ''.'')"
    by (simp_all add: is_ascii_digit_def less_eq_char_def)
  have off: "split_offset ((pad_dec 2 h @ CHR '':'' # pad_dec 2 mi @ CHR '':'' # pad_dec 2 s) @ ''Z'')
      = Done (Some (pad_dec 2 h @ CHR '':'' # pad_dec 2 mi @ CHR '':'' # pad_dec 2 s, 0))"
    by (simp only: split_offset_def strip_suffix_append option.case)
  have dot: "split_once (CHR ''.'') (pad_dec 2 s) = None" using nd by simp
  have "seconds = days_from_civil y m d * 86400 + t" using v(2) by (simp add: t_def)
  then show ?thesis
    unfolding epoch_seconds_def tx
    using bounds y f nd v(3)
    by (simp add: split3_fields off dot split_once_append in_years_def U32_MAX_def I64_MAX_def
        min_def del: append_assoc append.simps)
qed

lemma split_offset_ascii:
  assumes "is_ascii text"
  shows "split_offset text \<noteq> Panic"
proof -
  have "split_at offset 2 \<noteq> Panic" if "length offset = 4" "set offset \<subseteq> set text" for offset
    using assms that by (intro split_at_ascii) (auto simp: is_ascii_def list_all_iff)
  moreover have "set (drop 1 (drop k text)) \<subseteq> set text" for k
    by (metis set_drop_subset drop_drop)
  ultimately show ?thesis
    by (auto simp: split_offset_def Let_def try_opt_Panic_iff split: option.splits outcome.splits if_splits)
qed

lemma split_offset_bound:
  assumes "split_offset text = Done (Some (time, offset))"
  shows "\<bar>offset\<bar> \<le> 86340"
proof (cases "strip_suffix ''Z'' text = None \<and> strip_suffix ''z'' text = None")
  case True
  then show ?thesis
    using assms by (auto simp: split_offset_def Let_def try_opt_Some_iff split: if_splits)
qed (use assms in \<open>auto simp: split_offset_def split: option.splits\<close>)

lemma epoch_seconds_ascii:
  assumes "is_ascii text"
  shows "epoch_seconds text \<noteq> Panic"
proof -
  have "split_offset rest \<noteq> Panic" if "split_once (CHR ''T'') text = Some (date, rest)" for date rest
    using assms that by (intro split_offset_ascii) (auto simp: is_ascii_def split_once_Some_iff)
  then show ?thesis
    by (auto simp: epoch_seconds_def Let_def try_opt_Panic_iff split: if_splits)
qed

lemma epoch_seconds_range:
  assumes "epoch_seconds text = Done (Some seconds)"
  shows "-62135683140 \<le> seconds \<and> seconds \<le> 253402387139"
proof -
  obtain y m d rest time offset h mi s
    where y: "in_years y" "valid_date y m d" and off: "split_offset rest = Done (Some (time, offset))"
      and hms: "h \<le> 23" "mi \<le> 59" "s \<le> (60 :: nat)"
      and eq: "seconds = days_from_civil y m d * 86400
        + (int h * 3600 + int mi * 60 + int (min s 59)) - offset"
    using assms
    by (auto simp: epoch_seconds_def Let_def try_opt_Some_iff valid_date_def not_less Suc_le_eq
        split: if_splits)
  have "-719162 \<le> days_from_civil y m d" "days_from_civil y m d \<le> 2932896"
    using in_years_iff_days [OF y(2)] y(1) by auto
  moreover have "\<bar>offset\<bar> \<le> 86340" by (rule split_offset_bound [OF off])
  moreover have "0 \<le> int h * 3600 + int mi * 60 + int (min s 59)"
    "int h * 3600 + int mi * 60 + int (min s 59) \<le> 86399"
    using hms by auto
  ultimately show ?thesis using eq by linarith
qed

interpretation utc: codec "\<lambda>seconds. the (utc_date seconds)"
  "\<lambda>text. case epoch_seconds text of Panic \<Rightarrow> None | Done result \<Rightarrow> result"
  "\<lambda>seconds. utc_date seconds \<noteq> None"
  by unfold_locales (auto simp: utc_date_read_back)

lemmas date_eval = epoch_seconds_def split3_def split_offset_def Let_def in_years_def
  days_in_month_def is_leap_year_def parse_eval

subsection \<open>Properties\<close>

text \<open>
  C20. Every \<^verbatim>\<open>UTCDate\<close> that \<open>utc_date\<close> writes is read back by \<open>epoch_seconds\<close> as the very second it was
  written for; the reader neither rejects it nor panics.
\<close>
theorem epoch_seconds_utc_date:
  assumes "utc_date seconds = Some text"
  shows "epoch_seconds text = Done (Some seconds)"
  using assms by (rule utc_date_read_back)

theorem epoch_seconds_utc_date_witness:
  "epoch_seconds (the (utc_date (- 1))) = Done (Some (- 1))"
proof -
  have "utc_date (- 1) \<noteq> None"
    using utc_date_range [of "- 1"] by (simp add: in_i64_def I64_MIN_def I64_MAX_def)
  then obtain t where "utc_date (- 1) = Some t" by blast
  with epoch_seconds_utc_date [of "- 1" t] show ?thesis by simp
qed

text \<open>
  C21. Among the \<^verbatim>\<open>i64\<close> instants, \<open>utc_date\<close> has a text exactly for those from 0001-01-01T00:00:00Z to
  9999-12-31T23:59:59Z: none inside the range is refused, none outside is written.
\<close>
theorem utc_date_defined_iff:
  assumes "in_i64 seconds"
  shows "utc_date seconds \<noteq> None \<longleftrightarrow> -62135596800 \<le> seconds \<and> seconds \<le> 253402300799"
  using assms by (rule utc_date_range)

theorem utc_date_defined_iff_witness:
  "utc_date 253402300799 \<noteq> None \<and> utc_date 253402300800 = None"
  using utc_date_defined_iff [of 253402300799] utc_date_defined_iff [of 253402300800]
  by (simp add: in_i64_def I64_MIN_def I64_MAX_def)

text \<open>
  C22. \<open>epoch_seconds\<close> never panics on ASCII text, and what it returns lies within one day less one
  minute of the years 1 to 9999, so that the sums of the last line stay far inside \<^verbatim>\<open>i64\<close>.
\<close>
theorem epoch_seconds_safe:
  assumes "is_ascii text"
  shows "\<exists>result. epoch_seconds text = Done result
    \<and> (\<forall>seconds. result = Some seconds \<longrightarrow> -62135683140 \<le> seconds \<and> seconds \<le> 253402387139)"
  using epoch_seconds_ascii [OF assms] epoch_seconds_range [of "text"]
  by (cases "epoch_seconds text") auto

theorem epoch_seconds_safe_witness:
  "\<exists>result. epoch_seconds ''2026-01-15T09:30:00-2400'' = Done result
    \<and> (\<forall>seconds. result = Some seconds \<longrightarrow> -62135683140 \<le> seconds \<and> seconds \<le> 253402387139)"
  by (rule epoch_seconds_safe) (simp add: is_ascii_def less_char_def)


end
