(* ===== verification/Ip_Addr.thy ===== *)
theory Ip_Addr
  imports Jmap_Prelude
begin

text \<open>
  The reader of IP addresses of the Rust standard library (\<^verbatim>\<open>str::parse::<IpAddr>\<close>) and
  \<^verbatim>\<open>IpAddr::is_loopback\<close>, as the client uses them. A reader takes the text at its position and gives the
  value with the rest, or \<open>None\<close> and the position stays. IPv4 has four decimal octets of at most three
  digits without leading zeros; IPv6 has groups of one to four hexadecimal digits, at most one \<^verbatim>\<open>::\<close>, and
  may end in an IPv4 address.
\<close>

definition hex_val :: "char \<Rightarrow> nat option" where
  "hex_val c =
     (if is_ascii_digit c then Some (digit_val c)
      else if CHR ''a'' \<le> c \<and> c \<le> CHR ''f'' then Some (of_char c - 87)
      else if CHR ''A'' \<le> c \<and> c \<le> CHR ''F'' then Some (of_char c - 55)
      else None)"

definition read_octet :: "str \<Rightarrow> (nat \<times> str) option" where
  "read_octet s =
     (let ds = takeWhile is_ascii_digit s;
          n = digits_value 0 ds
      in if ds = [] \<or> length ds > 3 \<or> n > 255 \<or> length ds > 1 \<and> hd ds = CHR ''0'' then None
         else Some (n, drop (length ds) s))"

definition read_char :: "char \<Rightarrow> str \<Rightarrow> str option" where
  "read_char c s = (case s of [] \<Rightarrow> None | d # t \<Rightarrow> if d = c then Some t else None)"

definition read_ipv4 :: "str \<Rightarrow> (nat list \<times> str) option" where
  "read_ipv4 s =
     Option.bind (read_octet s) (\<lambda>(a, s1).
     Option.bind (read_char (CHR ''.'') s1) (\<lambda>s2.
     Option.bind (read_octet s2) (\<lambda>(b, s3).
     Option.bind (read_char (CHR ''.'') s3) (\<lambda>s4.
     Option.bind (read_octet s4) (\<lambda>(c, s5).
     Option.bind (read_char (CHR ''.'') s5) (\<lambda>s6.
     Option.bind (read_octet s6) (\<lambda>(d, s7). Some ([a, b, c, d], s7))))))))"

definition read_group :: "str \<Rightarrow> (nat \<times> str) option" where
  "read_group s =
     (let ds = takeWhile (\<lambda>c. hex_val c \<noteq> None) s
      in if ds = [] \<or> length ds > 4 then None
         else Some (foldl (\<lambda>n c. 16 * n + the (hex_val c)) 0 ds, drop (length ds) s))"

text \<open>
  At most \<open>limit\<close> groups, the \<open>i\<close>-th after a colon; an IPv4 address fills two groups and ends the
  list. The flag says whether it was there.
\<close>

fun read_groups :: "nat \<Rightarrow> nat \<Rightarrow> str \<Rightarrow> nat list \<times> bool \<times> str" where
  "read_groups 0 i s = ([], False, s)"
| "read_groups (Suc limit) i s =
     (let at = (if i = 0 then Some s else read_char (CHR '':'') s)
      in case (if limit = 0 then None else Option.bind at read_ipv4) of
           Some ([a, b, c, d], s') \<Rightarrow> ([256 * a + b, 256 * c + d], True, s')
         | _ \<Rightarrow>
           (case Option.bind at read_group of
              None \<Rightarrow> ([], False, s)
            | Some (g, s') \<Rightarrow>
                (case read_groups limit (Suc i) s' of (gs, v4, s'') \<Rightarrow> (g # gs, v4, s''))))"

definition read_ipv6 :: "str \<Rightarrow> (nat list \<times> str) option" where
  "read_ipv6 s =
     (case read_groups 8 0 s of (head, head_v4, s1) \<Rightarrow>
        if length head = 8 then Some (head, s1)
        else if head_v4 then None
        else Option.bind (read_char (CHR '':'') s1) (\<lambda>s2.
             Option.bind (read_char (CHR '':'') s2) (\<lambda>s3.
             (case read_groups (8 - (length head + 1)) 0 s3 of (tail, _, s4) \<Rightarrow>
                Some (head @ replicate (8 - length head - length tail) 0 @ tail, s4)))))"

datatype ip_addr = V4 "nat list" | V6 "nat list"

definition parse_ip :: "str \<Rightarrow> ip_addr option" where
  "parse_ip s =
     (case read_ipv4 s of
        Some (octets, []) \<Rightarrow> Some (V4 octets)
      | Some (octets, _) \<Rightarrow> None
      | None \<Rightarrow> (case read_ipv6 s of Some (groups, []) \<Rightarrow> Some (V6 groups) | _ \<Rightarrow> None))"

fun ip_is_loopback :: "ip_addr \<Rightarrow> bool" where
  "ip_is_loopback (V4 octets) = (hd octets = 127)"
| "ip_is_loopback (V6 groups) = (groups = [0, 0, 0, 0, 0, 0, 0, 1])"

end
