(* ===== verification/Jmap_Types.thy ===== *)
theory Jmap_Types
  imports Jmap_Prelude
begin

text \<open>
  The wire data of \<^verbatim>\<open>jmap-proto\<close> that the client works on: JSON values, the error objects of
  \<^verbatim>\<open>error.rs\<close>, the request and response envelopes of \<^verbatim>\<open>request.rs\<close> and \<^verbatim>\<open>response.rs\<close>, the shapes of the
  standard methods of \<^verbatim>\<open>methods.rs\<close>, and the session of \<^verbatim>\<open>session.rs\<close> with its limits and the choice of
  the primary account.

  A JSON value has the constructors of \<^verbatim>\<open>serde_json::Value\<close>. The numbers of that crate are a type
  parameter, and its \<^verbatim>\<open>as_u64\<close> is an argument of every definition that reads a number.
\<close>

subsection \<open>Values\<close>

type_synonym jid = str
type_synonym jstate = str

datatype 'n json =
    Null
  | Bool bool
  | Number 'n
  | String str
  | Array "'n json list"
  | Object "(str \<times> 'n json) list"

fun json_get :: "str \<Rightarrow> 'n json \<Rightarrow> 'n json option" where
  "json_get key (Object members) = map_of members key"
| "json_get key _ = None"

fun json_str :: "'n json \<Rightarrow> str option" where
  "json_str (String s) = Some s"
| "json_str _ = None"

fun json_u64 :: "('n \<Rightarrow> nat option) \<Rightarrow> 'n json \<Rightarrow> nat option" where
  "json_u64 as_u64 (Number n) = as_u64 n"
| "json_u64 as_u64 _ = None"

subsection \<open>Error objects\<close>

record 'n request_error =
  rer_error_type :: str
  rer_status :: "nat option"
  rer_detail :: "str option"
  rer_extra :: "(str \<times> 'n json) list"

record 'n method_error =
  mer_error_type :: str
  mer_description :: "str option"
  mer_extra :: "(str \<times> 'n json) list"

record 'n set_error =
  ser_error_type :: str
  ser_description :: "str option"
  ser_properties :: "str list option"
  ser_extra :: "(str \<times> 'n json) list"

definition set_error_new :: "str \<Rightarrow> 'n set_error" where
  "set_error_new error_type =
     \<lparr>ser_error_type = error_type, ser_description = None, ser_properties = None, ser_extra = []\<rparr>"

subsection \<open>Envelopes\<close>

record 'n invocation =
  iv_name :: str
  iv_arguments :: "'n json"
  iv_call_id :: str

definition is_error :: "'n invocation \<Rightarrow> bool" where
  "is_error invocation \<longleftrightarrow> iv_name invocation = ''error''"

record 'n request =
  rq_using :: "str list"
  rq_method_calls :: "'n invocation list"
  rq_created_ids :: "(jid \<times> jid) list option"

definition request_new :: "str list \<Rightarrow> 'n request" where
  "request_new using_caps = \<lparr>rq_using = using_caps, rq_method_calls = [], rq_created_ids = None\<rparr>"

definition request_call :: "str \<Rightarrow> 'n json \<Rightarrow> str \<Rightarrow> 'n request \<Rightarrow> 'n request" where
  "request_call name arguments call_id request =
     request\<lparr>rq_method_calls := rq_method_calls request
       @ [\<lparr>iv_name = name, iv_arguments = arguments, iv_call_id = call_id\<rparr>]\<rparr>"

definition with_created_ids :: "(jid \<times> jid) list \<Rightarrow> 'n request \<Rightarrow> 'n request" where
  "with_created_ids created_ids request = request\<lparr>rq_created_ids := Some created_ids\<rparr>"

record 'n response =
  rs_method_responses :: "'n invocation list"
  rs_created_ids :: "(jid \<times> jid) list option"
  rs_session_state :: jstate

definition responses_for :: "'n response \<Rightarrow> str \<Rightarrow> 'n invocation list" where
  "responses_for response call_id =
     filter (\<lambda>invocation. iv_call_id invocation = call_id) (rs_method_responses response)"

subsection \<open>Method shapes\<close>

record result_reference =
  rr_result_of :: str
  rr_name :: str
  rr_path :: str

record get_request =
  gq_account_id :: jid
  gq_ids :: "jid list option"
  gq_ids_ref :: "result_reference option"
  gq_properties :: "str list option"

definition get_request_ids :: "jid \<Rightarrow> jid list \<Rightarrow> get_request" where
  "get_request_ids account_id ids =
     \<lparr>gq_account_id = account_id, gq_ids = Some ids, gq_ids_ref = None, gq_properties = None\<rparr>"

record 't get_response =
  gr_account_id :: jid
  gr_state :: jstate
  gr_list :: "'t list"
  gr_not_found :: "jid list"

definition get_response_new :: "jid \<Rightarrow> jstate \<Rightarrow> 't list \<Rightarrow> 't get_response" where
  "get_response_new account_id new_state objects =
     \<lparr>gr_account_id = account_id, gr_state = new_state, gr_list = objects, gr_not_found = []\<rparr>"

definition with_not_found :: "jid list \<Rightarrow> 't get_response \<Rightarrow> 't get_response" where
  "with_not_found not_found response = response\<lparr>gr_not_found := not_found\<rparr>"

record ('n, 't) set_request =
  sq_account_id :: jid
  sq_if_in_state :: "jstate option"
  sq_create :: "(str \<times> 't) list option"
  sq_update :: "(jid \<times> 'n json) list option"
  sq_destroy :: "jid list option"

record ('n, 't) set_response =
  sr_account_id :: jid
  sr_old_state :: "jstate option"
  sr_new_state :: "jstate option"
  sr_created :: "(str \<times> 't) list option"
  sr_updated :: "(jid \<times> 't option) list option"
  sr_destroyed :: "jid list option"
  sr_not_created :: "(str \<times> 'n set_error) list option"
  sr_not_updated :: "(jid \<times> 'n set_error) list option"
  sr_not_destroyed :: "(jid \<times> 'n set_error) list option"

record comparator =
  cm_property :: str
  cm_is_ascending :: bool
  cm_collation :: "str option"

record 'f query_request =
  qq_account_id :: jid
  qq_filter :: "'f option"
  qq_sort :: "comparator list option"
  qq_position :: int
  qq_anchor :: "jid option"
  qq_anchor_offset :: "int option"
  qq_limit :: "nat option"
  qq_calculate_total :: bool
  qq_collapse_threads :: bool

definition query_request_new :: "jid \<Rightarrow> 'f query_request" where
  "query_request_new account_id =
     \<lparr>qq_account_id = account_id, qq_filter = None, qq_sort = None, qq_position = 0,
      qq_anchor = None, qq_anchor_offset = None, qq_limit = None, qq_calculate_total = False,
      qq_collapse_threads = False\<rparr>"

record query_response =
  qr_account_id :: jid
  qr_query_state :: jstate
  qr_can_calculate_changes :: bool
  qr_position :: nat
  qr_ids :: "jid list"
  qr_total :: "nat option"
  qr_limit :: "nat option"

record changes_request =
  cq_account_id :: jid
  cq_since_state :: jstate
  cq_max_changes :: "nat option"

definition changes_request_new :: "jid \<Rightarrow> jstate \<Rightarrow> changes_request" where
  "changes_request_new account_id since_state =
     \<lparr>cq_account_id = account_id, cq_since_state = since_state, cq_max_changes = None\<rparr>"

record changes_response =
  cr_account_id :: jid
  cr_old_state :: jstate
  cr_new_state :: jstate
  cr_has_more_changes :: bool
  cr_created :: "jid list"
  cr_updated :: "jid list"
  cr_destroyed :: "jid list"

subsection \<open>The session\<close>

record 'n account =
  ac_name :: str
  ac_is_personal :: bool
  ac_is_read_only :: bool
  ac_account_capabilities :: "(str \<times> 'n json) list"
  ac_extra :: "(str \<times> 'n json) list"

record 'n session =
  se_capabilities :: "(str \<times> 'n json) list"
  se_accounts :: "(jid \<times> 'n account) list"
  se_primary_accounts :: "(str \<times> jid) list"
  se_username :: str
  se_api_url :: str
  se_download_url :: str
  se_upload_url :: str
  se_event_source_url :: str
  se_state :: jstate
  se_extra :: "(str \<times> 'n json) list"

definition CAPABILITY_CORE :: str where "CAPABILITY_CORE = ''urn:ietf:params:jmap:core''"
definition CAPABILITY_MAIL :: str where "CAPABILITY_MAIL = ''urn:ietf:params:jmap:mail''"
definition CAPABILITY_SUBMISSION :: str where
  "CAPABILITY_SUBMISSION = ''urn:ietf:params:jmap:submission''"
definition CAPABILITY_CONTACTS :: str where
  "CAPABILITY_CONTACTS = ''urn:ietf:params:jmap:contacts''"
definition CAPABILITY_CALENDARS :: str where
  "CAPABILITY_CALENDARS = ''urn:ietf:params:jmap:calendars''"
definition CAPABILITY_PRINCIPALS :: str where
  "CAPABILITY_PRINCIPALS = ''urn:ietf:params:jmap:principals''"
definition CAPABILITY_SIEVE :: str where "CAPABILITY_SIEVE = ''urn:ietf:params:jmap:sieve''"

definition sole_personal_account :: "'n session \<Rightarrow> str \<Rightarrow> jid option" where
  "sole_personal_account session capability =
     (case filter (\<lambda>(_, account). ac_is_personal account
             \<and> bt_contains (ac_account_capabilities account) capability) (se_accounts session) of
        [(account_id, _)] \<Rightarrow> Some account_id
      | _ \<Rightarrow> None)"

definition resolve_primary_account :: "'n session \<Rightarrow> str \<Rightarrow> jid option" where
  "resolve_primary_account session capability =
     (if \<not> bt_contains (se_capabilities session) capability then None
      else Option.bind
        (case map_of (se_primary_accounts session) capability of
           Some account_id \<Rightarrow> Some account_id
         | None \<Rightarrow> sole_personal_account session capability) (\<lambda>account_id.
        Option.bind (map_of (se_accounts session) account_id) (\<lambda>account.
        if \<not> bt_contains (ac_account_capabilities account) capability then None else Some account_id)))"

definition core_limit :: "('n \<Rightarrow> nat option) \<Rightarrow> str \<Rightarrow> 'n session \<Rightarrow> nat option" where
  "core_limit as_u64 name session =
     Option.bind (map_of (se_capabilities session) CAPABILITY_CORE) (\<lambda>core.
     Option.bind (json_get name core) (json_u64 as_u64))"

definition max_objects_in_get :: "('n \<Rightarrow> nat option) \<Rightarrow> 'n session \<Rightarrow> nat option" where
  "max_objects_in_get as_u64 = core_limit as_u64 ''maxObjectsInGet''"

definition max_calls_in_request :: "('n \<Rightarrow> nat option) \<Rightarrow> 'n session \<Rightarrow> nat option" where
  "max_calls_in_request as_u64 = core_limit as_u64 ''maxCallsInRequest''"

definition max_size_request :: "('n \<Rightarrow> nat option) \<Rightarrow> 'n session \<Rightarrow> nat option" where
  "max_size_request as_u64 = core_limit as_u64 ''maxSizeRequest''"

definition max_concurrent_upload :: "('n \<Rightarrow> nat option) \<Rightarrow> 'n session \<Rightarrow> nat option" where
  "max_concurrent_upload as_u64 = core_limit as_u64 ''maxConcurrentUpload''"

definition max_concurrent_requests :: "('n \<Rightarrow> nat option) \<Rightarrow> 'n session \<Rightarrow> nat option" where
  "max_concurrent_requests as_u64 = core_limit as_u64 ''maxConcurrentRequests''"

definition max_objects_in_set :: "('n \<Rightarrow> nat option) \<Rightarrow> 'n session \<Rightarrow> nat option" where
  "max_objects_in_set as_u64 = core_limit as_u64 ''maxObjectsInSet''"

end
