(* ===== verification/Client_Error.thy ===== *)
theory Client_Error
  imports Jmap_Types
begin

text \<open>
  The error type of \<^verbatim>\<open>jmap-client/src/error.rs\<close> and the questions that callers ask of it: whether a
  failure needs a full resync, a new token, or a pause. The retry hints of
  \<^verbatim>\<open>extract_*_retry_after\<close> of \<^verbatim>\<open>client.rs\<close> are here too, since the error type reads them. Durations are
  nanoseconds.
\<close>

type_synonym duration = nat

definition from_secs :: "nat \<Rightarrow> duration" where
  "from_secs s = s * 1000000000"

definition from_millis :: "nat \<Rightarrow> duration" where
  "from_millis ms = ms * 1000000"

datatype 'n error =
    Transport str
  | Http nat "'n request_error option"
  | Method "'n method_error"
  | Set_Err "'n set_error"
  | Json str
  | Protocol str
  | Cancelled
  | TooLarge nat nat
  | RequestTooLarge nat nat
  | ResponseTooLarge nat
  | OAuthTokenRefused str "str option"
  | CrossOriginRedirect str str "str option"
  | RedirectCredentialsWithheld str str
  | ChunkBoundaryReferenceBroken str str
  | SetPartiallyApplied "('n, 'n json) set_response" "'n error"
  | RateLimited "duration option" "str option"
      "'n request_error option"

subsection \<open>Retry hints\<close>

text \<open>
  The three extractors of the source differ only in the object whose \<^verbatim>\<open>extra\<close> members they read.
\<close>

definition extra_retry_after ::
  "('n \<Rightarrow> nat option) \<Rightarrow> (str \<times> 'n json) list \<Rightarrow> duration option" where
  "extra_retry_after as_u64 extra =
     Option.bind
       (case map_of extra ''retryAfter'' of
          Some v \<Rightarrow> Some v
        | None \<Rightarrow> map_of extra ''retry_after'') (\<lambda>val.
     map_option from_secs
       (case json_u64 as_u64 val of
          Some n \<Rightarrow> Some n
        | None \<Rightarrow> Option.bind (json_str val) (parse_unsigned U64_MAX)))"

definition extract_problem_retry_after ::
  "('n \<Rightarrow> nat option) \<Rightarrow> 'n request_error \<Rightarrow> duration option" where
  "extract_problem_retry_after as_u64 problem = extra_retry_after as_u64 (rer_extra problem)"

definition extract_method_retry_after ::
  "('n \<Rightarrow> nat option) \<Rightarrow> 'n method_error \<Rightarrow> duration option" where
  "extract_method_retry_after as_u64 method_error = extra_retry_after as_u64 (mer_extra method_error)"

definition extract_set_error_retry_after ::
  "('n \<Rightarrow> nat option) \<Rightarrow> 'n set_error \<Rightarrow> duration option" where
  "extract_set_error_retry_after as_u64 set_error = extra_retry_after as_u64 (ser_extra set_error)"

subsection \<open>Questions\<close>

definition is_chunk_boundary_reference_broken :: "'n error \<Rightarrow> bool" where
  "is_chunk_boundary_reference_broken e \<longleftrightarrow>
     (case e of ChunkBoundaryReferenceBroken _ _ \<Rightarrow> True | _ \<Rightarrow> False)"

definition is_cannot_calculate_changes :: "'n error \<Rightarrow> bool" where
  "is_cannot_calculate_changes e \<longleftrightarrow>
     (case e of Method error \<Rightarrow> mer_error_type error = ''cannotCalculateChanges'' | _ \<Rightarrow> False)"

definition is_unknown_method :: "'n error \<Rightarrow> bool" where
  "is_unknown_method e \<longleftrightarrow>
     (case e of Method error \<Rightarrow> mer_error_type error = ''unknownMethod'' | _ \<Rightarrow> False)"

fun is_state_mismatch :: "'n error \<Rightarrow> bool" where
  "is_state_mismatch (Method error) = (mer_error_type error = ''stateMismatch'')"
| "is_state_mismatch (SetPartiallyApplied _ cause) = is_state_mismatch cause"
| "is_state_mismatch _ = False"

fun is_unauthorized :: "'n error \<Rightarrow> bool" where
  "is_unauthorized (Http status _) = (status = 401)"
| "is_unauthorized (SetPartiallyApplied _ cause) = is_unauthorized cause"
| "is_unauthorized _ = False"

definition is_redirect_credentials_withheld :: "'n error \<Rightarrow> bool" where
  "is_redirect_credentials_withheld e \<longleftrightarrow>
     (case e of RedirectCredentialsWithheld _ _ \<Rightarrow> True | _ \<Rightarrow> False)"

text \<open>
  \<^verbatim>\<open>to_lowercase\<close> is Unicode, but no character outside ASCII has one of the letters of \<^verbatim>\<open>state\<close> as its
  lower case, so for the search of that word the ASCII mapping of the octets gives the same answer.
\<close>

definition is_unrecognized_changes_state :: "'n error \<Rightarrow> bool" where
  "is_unrecognized_changes_state e \<longleftrightarrow>
     (case e of
        Method error \<Rightarrow>
          mer_error_type error = ''invalidArguments''
          \<and> (case mer_description error of
               None \<Rightarrow> False
             | Some description \<Rightarrow> contains_str ''state'' (to_ascii_lowercase description))
      | _ \<Rightarrow> False)"

definition needs_full_resync :: "'n error \<Rightarrow> bool" where
  "needs_full_resync e \<longleftrightarrow> is_cannot_calculate_changes e \<or> is_unrecognized_changes_state e"

fun is_rate_limited :: "'n error \<Rightarrow> bool" where
  "is_rate_limited (RateLimited _ _ _) = True"
| "is_rate_limited (Http status problem) =
     (status = 429
      \<or> (case problem of
           Some p \<Rightarrow> rer_error_type p = ''urn:ietf:params:jmap:error:limit''
         | None \<Rightarrow> False))"
| "is_rate_limited (Method method_error) = (mer_error_type method_error = ''limit'')"
| "is_rate_limited (Set_Err set_error) =
     (ser_error_type set_error = ''rateLimit'' \<or> ser_error_type set_error = ''limit'')"
| "is_rate_limited (SetPartiallyApplied _ cause) = is_rate_limited cause"
| "is_rate_limited _ = False"

fun rate_limit_retry_after :: "('n \<Rightarrow> nat option) \<Rightarrow> 'n error \<Rightarrow> duration option" where
  "rate_limit_retry_after as_u64 (RateLimited retry_after _ _) = retry_after"
| "rate_limit_retry_after as_u64 (Http _ (Some problem)) = extract_problem_retry_after as_u64 problem"
| "rate_limit_retry_after as_u64 (Method method_error) =
     extract_method_retry_after as_u64 method_error"
| "rate_limit_retry_after as_u64 (Set_Err set_error) =
     extract_set_error_retry_after as_u64 set_error"
| "rate_limit_retry_after as_u64 (SetPartiallyApplied _ cause) = rate_limit_retry_after as_u64 cause"
| "rate_limit_retry_after as_u64 _ = None"

subsection \<open>Properties\<close>

text \<open>The error of the part that failed, below every \<open>SetPartiallyApplied\<close>.\<close>

fun root_cause :: "'n error \<Rightarrow> 'n error" where
  "root_cause (SetPartiallyApplied _ cause) = root_cause cause"
| "root_cause e = e"


end
