(* ===== verification/Client_Url.thy ===== *)
theory Client_Url
  imports Ip_Addr Client_Error
begin

text \<open>
  The URL functions of \<^verbatim>\<open>jmap-client/src/url.rs\<close>: the origin of a URL and its comparison, which decides
  where credentials go, the TLS and loopback tests, the rewriting of session URLs, and the resolution
  of redirects. Percent-encoding is the work of an external crate, so the encoder is an argument.
\<close>

subsection \<open>Definitions\<close>

definition encode_template_value :: "(str \<Rightarrow> str) \<Rightarrow> str \<Rightarrow> str" where
  "encode_template_value percent_encode val =
     (if val = ''.'' then ''%2E''
      else if val = ''..'' then ''%2E%2E''
      else percent_encode val)"

definition valid_srv_target :: "str \<Rightarrow> nat \<Rightarrow> (str \<times> nat) option" where
  "valid_srv_target host0 port =
     (if port = 0 then None
      else
        let host = (case strip_suffix ''.'' host0 of Some h \<Rightarrow> h | None \<Rightarrow> host0);
            valid = host \<noteq> [] \<and> \<not> prefix ''.'' host \<and> \<not> prefix ''-'' host
              \<and> \<not> contains_str ''..'' host
              \<and> list_all (\<lambda>c. is_ascii_alphanumeric c
                   \<or> c = CHR ''.'' \<or> c = CHR ''-'' \<or> c = CHR ''_'') host
        in if valid then Some (host, port) else None)"

definition ends_authority :: "char \<Rightarrow> bool" where
  "ends_authority c \<longleftrightarrow> c = CHR ''/'' \<or> c = CHR ''?'' \<or> c = CHR ''#'' \<or> c = CHR 0x5C"

definition rebase_origin :: "str \<Rightarrow> str \<Rightarrow> str" where
  "rebase_origin url origin =
     (if url = [] then []
      else
        let base = trim_end_chars (\<lambda>c. c = CHR ''/'') origin
        in case find_str ''://'' url of
             Some scheme_end \<Rightarrow>
               let after_scheme = scheme_end + 3
               in (case find_char ends_authority (drop after_scheme url) of
                     Some pos \<Rightarrow>
                       let tail = drop (after_scheme + pos) url
                       in if prefix ''/'' tail then base @ tail else base @ ''/'' @ tail
                   | None \<Rightarrow> base)
           | None \<Rightarrow> if prefix ''/'' url then base @ url else base @ ''/'' @ url)"

definition split_host_port :: "str \<Rightarrow> (str \<times> str option) option" where
  "split_host_port host_port =
     (if prefix ''['' host_port
      then (case find_char (\<lambda>c. c = CHR '']'') host_port of
              Some end_at \<Rightarrow>
                Some (take (end_at + 1) host_port, strip_prefix '':'' (drop (end_at + 1) host_port))
            | None \<Rightarrow> None)
      else (case rsplit_once (CHR '':'') host_port of
              Some (host, port) \<Rightarrow> Some (host, Some port)
            | None \<Rightarrow> Some (host_port, None)))"

definition default_port :: "str \<Rightarrow> str option" where
  "default_port scheme =
     (if eq_ignore_ascii_case scheme ''http'' then Some ''80''
      else if eq_ignore_ascii_case scheme ''https'' then Some ''443''
      else None)"

definition normalized_host :: "str \<Rightarrow> str" where
  "normalized_host host =
     (if length host > 1 \<and> suffix ''.'' host \<and> \<not> suffix ''..'' host
      then take (length host - 1) host else host)"

definition normalized_port :: "str \<Rightarrow> str option \<Rightarrow> str option" where
  "normalized_port scheme port =
     (case port of
        None \<Rightarrow> None
      | Some p \<Rightarrow> if p \<noteq> [] \<and> default_port scheme \<noteq> Some p then Some p else None)"

definition has_upper :: "str \<Rightarrow> bool" where
  "has_upper s \<longleftrightarrow> list_ex (\<lambda>c. CHR ''A'' \<le> c \<and> c \<le> CHR ''Z'') s"

definition format_origin :: "str \<Rightarrow> str \<Rightarrow> str option \<Rightarrow> str" where
  "format_origin scheme host port =
     scheme @ ''://'' @ host @ (case port of Some p \<Rightarrow> CHR '':'' # p | None \<Rightarrow> [])"

definition origin :: "str \<Rightarrow> str" where
  "origin url =
     (case find_str ''://'' url of
        None \<Rightarrow> url
      | Some scheme_end \<Rightarrow>
          let scheme = take scheme_end url;
              after_scheme = scheme_end + 3;
              authority_end = (case find_char ends_authority (drop after_scheme url) of
                                 Some pos \<Rightarrow> after_scheme + pos
                               | None \<Rightarrow> length url);
              authority = take (authority_end - after_scheme) (drop after_scheme url);
              host_port = (case rsplit_once (CHR ''@'') authority of
                             Some (_, rest) \<Rightarrow> rest
                           | None \<Rightarrow> authority)
          in (case split_host_port host_port of
                None \<Rightarrow> url
              | Some (host, port) \<Rightarrow>
                  if host = [] then url
                  else
                    let host' = normalized_host host;
                        port' = normalized_port scheme port
                    in if \<not> has_upper scheme \<and> \<not> has_upper host' \<and> host' = host \<and> port = port'
                          \<and> length host_port = length authority
                       then take authority_end url
                       else format_origin (to_ascii_lowercase scheme) (to_ascii_lowercase host')
                              port'))"

definition origin_of :: "str \<Rightarrow> str" where
  "origin_of url = origin url"

definition same_origin :: "str \<Rightarrow> str \<Rightarrow> bool" where
  "same_origin a b \<longleftrightarrow> origin a = origin b"

text \<open>
  \<^verbatim>\<open>url.get(..8)\<close> fails only where octet 8 is inside a character, and not after eight ASCII octets, so
  the comparison of the first octets is the whole test.
\<close>

definition split_http_scheme :: "str \<Rightarrow> (bool \<times> str) option" where
  "split_http_scheme url =
     (if eq_ignore_ascii_case (take 8 url) ''https://'' then Some (True, drop 8 url)
      else if eq_ignore_ascii_case (take 7 url) ''http://'' then Some (False, drop 7 url)
      else None)"

definition on_tls :: "str \<Rightarrow> bool" where
  "on_tls url \<longleftrightarrow> (case split_http_scheme url of Some (tls, _) \<Rightarrow> tls | None \<Rightarrow> False)"

definition downgrades :: "str \<Rightarrow> str \<Rightarrow> bool" where
  "downgrades current next_url \<longleftrightarrow> on_tls current \<and> \<not> on_tls next_url"

definition is_loopback :: "str \<Rightarrow> bool" where
  "is_loopback url \<longleftrightarrow>
     (case find_str ''://'' url of
        None \<Rightarrow> False
      | Some scheme_end \<Rightarrow>
          let rest = drop (scheme_end + 3) url;
              authority = take (case find_char ends_authority rest of
                                  Some pos \<Rightarrow> pos | None \<Rightarrow> length rest) rest;
              host_port = last_field (CHR ''@'') authority
          in (case (case strip_prefix ''['' host_port of
                      Some bracketed \<Rightarrow>
                        (case find_char (\<lambda>c. c = CHR '']'') bracketed of
                           Some end_at \<Rightarrow> Some (take end_at bracketed)
                         | None \<Rightarrow> None)
                    | None \<Rightarrow>
                        Some (case rsplit_once (CHR '':'') host_port of
                                Some (h, _) \<Rightarrow> h | None \<Rightarrow> host_port)) of
                None \<Rightarrow> False
              | Some host0 \<Rightarrow>
                  let host = (case strip_suffix ''.'' host0 of Some h \<Rightarrow> h | None \<Rightarrow> host0)
                  in eq_ignore_ascii_case host ''localhost''
                     \<or> eq_ignore_ascii_case host ''localhost.localdomain''
                     \<or> (case parse_ip host of Some address \<Rightarrow> ip_is_loopback address
                        | None \<Rightarrow> False)))"

definition may_carry_credentials :: "str \<Rightarrow> str \<Rightarrow> bool" where
  "may_carry_credentials session_url endpoint \<longleftrightarrow>
     endpoint = [] \<or> on_tls endpoint \<or> is_loopback endpoint
     \<or> (\<not> on_tls session_url \<and> same_origin session_url endpoint)"

definition has_uri_scheme :: "str \<Rightarrow> bool" where
  "has_uri_scheme url \<longleftrightarrow>
     (let head = (case find_char (\<lambda>c. c = CHR ''/'' \<or> c = CHR ''?'' \<or> c = CHR ''#'') url of
                    Some pos \<Rightarrow> take pos url
                  | None \<Rightarrow> url)
      in case split_once (CHR '':'') head of
           None \<Rightarrow> False
         | Some (scheme, _) \<Rightarrow>
             (case scheme of
                [] \<Rightarrow> False
              | c # cs \<Rightarrow> is_ascii_alphabetic c
                  \<and> list_all (\<lambda>c. is_ascii_alphanumeric c
                       \<or> c = CHR ''+'' \<or> c = CHR ''-'' \<or> c = CHR ''.'') cs))"

definition resolve_redirect :: "str \<Rightarrow> str \<Rightarrow> str + str" where
  "resolve_redirect current_url location =
     (if split_http_scheme location \<noteq> None then Ok location
      else if has_uri_scheme location
      then Err (''unsupported redirect scheme in '' @ location)
      else res_bind (ok_or (find_str ''://'' current_url) ''current URL lacks scheme'') (\<lambda>scheme_end.
        let scheme = take scheme_end current_url
        in case strip_prefix ''//'' location of
             Some network_ref \<Rightarrow> Ok (scheme @ ''://'' @ network_ref)
           | None \<Rightarrow>
               if prefix ''/'' location then Ok (origin_of current_url @ location)
               else
                 let path_start = scheme_end + 3;
                     url_without_query = (case find_char (\<lambda>c. c = CHR ''?'') current_url of
                                            Some q \<Rightarrow> take q current_url
                                          | None \<Rightarrow> current_url);
                     last_slash =
                       (if path_start \<le> length url_without_query
                        then map_option (\<lambda>(before, _). path_start + length before)
                               (rsplit_once (CHR ''/'') (drop path_start url_without_query))
                        else None)
                 in (case last_slash of
                       Some idx \<Rightarrow> Ok (take (idx + 1) current_url @ location)
                     | None \<Rightarrow> Ok (current_url @ ''/'' @ location))))"

subsection \<open>Lemmas\<close>

text \<open>
  A URL from its parts, and the parts that are well formed: a scheme without a colon, a host that is a
  name or a bracketed address, a numeric port, and a tail that starts where the authority ends.
\<close>

definition make_url :: "str \<Rightarrow> str option \<Rightarrow> str \<Rightarrow> str option \<Rightarrow> str \<Rightarrow> str" where
  "make_url scheme userinfo host port tail =
     scheme @ ''://'' @ (case userinfo of Some u \<Rightarrow> u @ ''@'' | None \<Rightarrow> [])
     @ host @ (case port of Some p \<Rightarrow> CHR '':'' # p | None \<Rightarrow> []) @ tail"

definition plain_host :: "str \<Rightarrow> bool" where
  "plain_host host \<longleftrightarrow> host \<noteq> []
     \<and> list_all (\<lambda>c. c \<noteq> CHR '':'' \<and> c \<noteq> CHR ''@'' \<and> c \<noteq> CHR ''['' \<and> \<not> ends_authority c) host"

definition bracketed_host :: "str \<Rightarrow> bool" where
  "bracketed_host host \<longleftrightarrow> prefix ''['' host \<and> last host = CHR '']'' \<and> CHR '']'' \<notin> set (butlast host)
     \<and> list_all (\<lambda>c. c \<noteq> CHR ''@'' \<and> \<not> ends_authority c) host"

definition url_ok :: "str \<Rightarrow> str option \<Rightarrow> str \<Rightarrow> str option \<Rightarrow> str \<Rightarrow> bool" where
  "url_ok scheme userinfo host port tail \<longleftrightarrow>
     CHR '':'' \<notin> set scheme
     \<and> (case userinfo of Some u \<Rightarrow> list_all (\<lambda>c. \<not> ends_authority c) u | None \<Rightarrow> True)
     \<and> (plain_host host \<or> bracketed_host host)
     \<and> (case port of Some p \<Rightarrow> list_all is_ascii_digit p | None \<Rightarrow> True)
     \<and> (tail = [] \<or> ends_authority (hd tail))"

lemma authority_cut:
  assumes "list_all (\<lambda>c. \<not> ends_authority c) authority" "tail = [] \<or> ends_authority (hd tail)"
  shows "(case find_char ends_authority (authority @ tail) of Some pos \<Rightarrow> k + pos
            | None \<Rightarrow> k + length (authority @ tail)) = k + length authority"
proof (cases tail)
  case Nil
  then show ?thesis using assms find_char_None [of ends_authority authority] by simp
next
  case (Cons x b)
  then show ?thesis using assms find_char_first [of ends_authority authority x b] by simp
qed

lemma bracketed_hostE:
  assumes "bracketed_host host"
  obtains inner where "host = CHR ''['' # inner @ '']''" "CHR '']'' \<notin> set inner"
    "CHR ''@'' \<notin> set inner"
proof -
  obtain t where h: "host = CHR ''['' # t" using assms by (auto simp: bracketed_host_def prefix_def)
  then have "t \<noteq> []" using assms by (auto simp: bracketed_host_def split: if_splits)
  then obtain inner c where "t = inner @ [c]" by (metis append_butlast_last_id)
  with h assms that [of inner] show thesis by (auto simp: bracketed_host_def list_all_iff)
qed

lemma digits_props:
  assumes "list_all is_ascii_digit p"
  shows "CHR '':'' \<notin> set p" "CHR ''@'' \<notin> set p" "list_all (\<lambda>c. \<not> ends_authority c) p"
  using assms
  by (auto simp: list_all_iff is_ascii_digit_def less_eq_char_def ends_authority_def)

lemma split_host_port_plain:
  assumes "plain_host host" "case port of Some p \<Rightarrow> list_all is_ascii_digit p | None \<Rightarrow> True"
  shows "split_host_port (host @ (case port of Some p \<Rightarrow> CHR '':'' # p | None \<Rightarrow> [])) = Some (host, port)"
proof -
  have nb: "\<not> prefix ''['' (host @ xs)" for xs
    using assms(1) by (cases host) (auto simp: plain_host_def)
  have nc: "CHR '':'' \<notin> set host" using assms(1) by (auto simp: plain_host_def list_all_iff)
  show ?thesis
    using assms(2) nb nc digits_props(1)
    by (cases port) (auto simp: split_host_port_def)
qed

lemma split_host_port_bracketed:
  assumes "bracketed_host host"
  shows "split_host_port (host @ (case port of Some p \<Rightarrow> CHR '':'' # p | None \<Rightarrow> [])) = Some (host, port)"
proof -
  obtain inner where h: "host = CHR ''['' # inner @ '']''" "CHR '']'' \<notin> set inner"
    using assms by (rule bracketed_hostE)
  have "list_all (\<lambda>c. c \<noteq> CHR '']'') (CHR ''['' # inner)" using h(2) by (auto simp: list_all_iff)
  from find_char_first [OF this, of "CHR '']''"]
  have "find_char (\<lambda>c. c = CHR '']'') (host @ xs) = Some (length inner + 1)" for xs
    by (simp add: h(1))
  then show ?thesis
    by (cases port) (simp_all add: split_host_port_def h(1) strip_prefix_append)
qed

lemma split_host_port_ok:
  assumes "plain_host host \<or> bracketed_host host"
    "case port of Some p \<Rightarrow> list_all is_ascii_digit p | None \<Rightarrow> True"
  shows "split_host_port (host @ (case port of Some p \<Rightarrow> CHR '':'' # p | None \<Rightarrow> [])) = Some (host, port)"
  using assms split_host_port_plain split_host_port_bracketed by blast

lemma host_chars:
  assumes "plain_host host \<or> bracketed_host host"
  shows "host \<noteq> []" "CHR ''@'' \<notin> set host" "list_all (\<lambda>c. \<not> ends_authority c) host"
  using assms by (auto simp: plain_host_def bracketed_host_def list_all_iff prefix_def)

lemma no_upper_lower: "\<not> has_upper s \<Longrightarrow> to_ascii_lowercase s = s"
  by (induction s) (auto simp: has_upper_def to_ascii_lowercase_def to_ascii_lower_def)

lemma origin_authority:
  assumes "CHR '':'' \<notin> set scheme" "list_all (\<lambda>c. \<not> ends_authority c) authority"
    "tail = [] \<or> ends_authority (hd tail)"
    "(case rsplit_once (CHR ''@'') authority of Some (_, rest) \<Rightarrow> rest | None \<Rightarrow> authority) = host_port"
    "split_host_port host_port = Some (host, port)" "host \<noteq> []"
    "host_port = host @ (case port of Some p \<Rightarrow> CHR '':'' # p | None \<Rightarrow> [])"
    "length host_port = length authority \<longrightarrow> host_port = authority"
  shows "origin (scheme @ ''://'' @ authority @ tail) =
    format_origin (to_ascii_lowercase scheme) (to_ascii_lowercase (normalized_host host))
      (normalized_port scheme port)"
proof -
  let ?url = "scheme @ ''://'' @ authority @ tail"
  have f: "find_str ''://'' ?url = Some (length scheme)"
    by (rule find_str_append [where c = "CHR '':''"]) (use assms(1) in simp_all)
  have d: "drop (length scheme + 3) ?url = authority @ tail" by simp
  have len: "length ?url = length scheme + 3 + length (authority @ tail)" by simp
  have e: "(case find_char ends_authority (authority @ tail) of
      Some pos \<Rightarrow> length scheme + 3 + pos | None \<Rightarrow> length ?url) = length scheme + 3 + length authority"
    unfolding len by (rule authority_cut [OF assms(2,3)])
  have t: "take (length scheme + 3 + length authority) ?url = scheme @ ''://'' @ authority"
    by (simp add: numeral_3_eq_3)
  have sc: "take (length scheme) ?url = scheme" by simp
  have au: "take (length scheme + 3 + length authority - (length scheme + 3)) (authority @ tail) = authority"
    by simp
  have "scheme @ ''://'' @ authority = format_origin (to_ascii_lowercase scheme)
      (to_ascii_lowercase (normalized_host host)) (normalized_port scheme port)"
    if "\<not> has_upper scheme" "\<not> has_upper (normalized_host host)" "normalized_host host = host"
      "port = normalized_port scheme port" "host_port = authority"
    using that assms(7) by (simp add: no_upper_lower format_origin_def)
  then show ?thesis
    unfolding origin_def f option.case Let_def d e t sc au assms(4) assms(5) prod.case
    using assms(6,8) by auto
qed

lemma origin_make_url:
  assumes "url_ok scheme userinfo host port tail"
  shows "origin (make_url scheme userinfo host port tail) =
    format_origin (to_ascii_lowercase scheme) (to_ascii_lowercase (normalized_host host))
      (normalized_port scheme port)"
proof -
  define hp where "hp = host @ (case port of Some p \<Rightarrow> CHR '':'' # p | None \<Rightarrow> [])"
  define au where "au = (case userinfo of Some u \<Rightarrow> u @ ''@'' | None \<Rightarrow> []) @ hp"
  have o: "CHR '':'' \<notin> set scheme" "plain_host host \<or> bracketed_host host"
    "case port of Some p \<Rightarrow> list_all is_ascii_digit p | None \<Rightarrow> True"
    "tail = [] \<or> ends_authority (hd tail)"
    "case userinfo of Some u \<Rightarrow> list_all (\<lambda>c. \<not> ends_authority c) u | None \<Rightarrow> True"
    using assms by (auto simp: url_ok_def)
  have at: "CHR ''@'' \<notin> set hp"
    using host_chars(2) [OF o(2)] o(3) digits_props(2) by (auto simp: hp_def split: option.splits)
  have "list_all (\<lambda>c. \<not> ends_authority c) hp"
    using host_chars(3) [OF o(2)] o(3) digits_props(3)
    by (auto simp: hp_def ends_authority_def split: option.splits)
  then have au: "list_all (\<lambda>c. \<not> ends_authority c) au"
    using o(5) by (auto simp: au_def ends_authority_def split: option.splits)
  have r: "(case rsplit_once (CHR ''@'') au of Some (_, rest) \<Rightarrow> rest | None \<Rightarrow> au) = hp"
    using at by (cases userinfo) (simp_all add: au_def rsplit_once_None)
  have "length hp = length au \<longrightarrow> hp = au" by (simp add: au_def split: option.splits)
  from origin_authority [OF o(1) au o(4) r _ _ hp_def this] split_host_port_ok [OF o(2,3)] host_chars(1) [OF o(2)]
  have "origin (scheme @ ''://'' @ au @ tail) =
    format_origin (to_ascii_lowercase scheme) (to_ascii_lowercase (normalized_host host))
      (normalized_port scheme port)" by (simp add: hp_def)
  then show ?thesis by (simp add: make_url_def au_def hp_def)
qed

lemma lower_special:
  assumes "c \<in> {CHR '':'', CHR ''@'', CHR ''['', CHR '']'', CHR ''.''} \<or> ends_authority c"
  shows "to_ascii_lower d = c \<longleftrightarrow> d = c"
  using assms
  by (intro to_ascii_lower_other) (auto simp: is_ascii_letter_def ends_authority_def)

lemma set_lower_special:
  assumes "c \<in> {CHR '':'', CHR ''@'', CHR ''['', CHR '']'', CHR ''.''} \<or> ends_authority c"
  shows "c \<in> set (to_ascii_lowercase s) \<longleftrightarrow> c \<in> set s"
proof -
  have "c = to_ascii_lower d \<longleftrightarrow> c = d" for d using lower_special [OF assms, of d] by auto
  then show ?thesis by (induction s) (simp_all add: to_ascii_lowercase_def)
qed

lemma plain_host_iff:
  "plain_host h \<longleftrightarrow> h \<noteq> [] \<and> CHR '':'' \<notin> set h \<and> CHR ''@'' \<notin> set h \<and> CHR ''['' \<notin> set h
     \<and> (\<forall>c. ends_authority c \<longrightarrow> c \<notin> set h)"
  by (auto simp: plain_host_def list_all_iff)

lemma plain_host_lower: "plain_host h \<Longrightarrow> plain_host (to_ascii_lowercase h)"
  by (simp add: plain_host_iff set_lower_special) (simp add: to_ascii_lowercase_def)

lemma bracketed_host_lower: "bracketed_host h \<Longrightarrow> bracketed_host (to_ascii_lowercase h)"
proof -
  assume b: "bracketed_host h"
  then obtain inner where h: "h = CHR ''['' # inner @ '']''" "CHR '']'' \<notin> set inner"
    by (rule bracketed_hostE)
  have e: "to_ascii_lowercase h = CHR ''['' # to_ascii_lowercase inner @ '']''"
    by (simp add: h(1) to_ascii_lowercase_def to_ascii_lower_def less_eq_char_def)
  have "CHR '']'' \<notin> set (to_ascii_lowercase inner)" using h(2) set_lower_special by simp
  moreover have "list_all (\<lambda>c. c \<noteq> CHR ''@'' \<and> \<not> ends_authority c) (to_ascii_lowercase h)"
    using b set_lower_special [of _ h] by (auto simp: bracketed_host_def list_all_iff)
  ultimately show ?thesis by (simp add: bracketed_host_def e)
qed

lemma plain_host_normalized: "plain_host h \<Longrightarrow> plain_host (normalized_host h)"
  by (auto simp: plain_host_iff normalized_host_def dest: in_set_takeD)

lemma bracketed_host_normalized: "bracketed_host h \<Longrightarrow> normalized_host h = h"
  by (erule bracketed_hostE) (simp add: normalized_host_def suffix_def)

lemma host_normalized:
  "plain_host h \<or> bracketed_host h \<Longrightarrow>
   plain_host (to_ascii_lowercase (normalized_host h)) \<or> bracketed_host (to_ascii_lowercase (normalized_host h))"
  by (elim disjE)
    (simp_all add: plain_host_lower bracketed_host_lower plain_host_normalized bracketed_host_normalized)

lemma format_origin_inj:
  assumes "CHR '':'' \<notin> set s" "CHR '':'' \<notin> set s'"
    "plain_host h \<or> bracketed_host h" "plain_host h' \<or> bracketed_host h'"
    "case p of Some x \<Rightarrow> list_all is_ascii_digit x | None \<Rightarrow> True"
    "case p' of Some x \<Rightarrow> list_all is_ascii_digit x | None \<Rightarrow> True"
    "format_origin s h p = format_origin s' h' p'"
  shows "s = s' \<and> h = h' \<and> p = p'"
proof -
  let ?port = "\<lambda>p. case p of Some p \<Rightarrow> CHR '':'' # p | None \<Rightarrow> []"
  have "split_once (CHR '':'') (format_origin s h p) = Some (s, ''//'' @ h @ ?port p)"
    "split_once (CHR '':'') (format_origin s' h' p') = Some (s', ''//'' @ h' @ ?port p')"
    using assms(1,2) by (simp_all add: format_origin_def split_once_append)
  then have s: "s = s'" and hp: "h @ ?port p = h' @ ?port p'" using assms(7) by auto
  from hp have "split_host_port (h @ ?port p) = split_host_port (h' @ ?port p')" by simp
  then show ?thesis
    using s split_host_port_ok [OF assms(3,5)] split_host_port_ok [OF assms(4,6)] by simp
qed

lemma port_normalized:
  "(case p of Some x \<Rightarrow> list_all is_ascii_digit x | None \<Rightarrow> True) \<Longrightarrow>
   (case normalized_port s p of Some x \<Rightarrow> list_all is_ascii_digit x | None \<Rightarrow> True)"
  by (auto simp: normalized_port_def split: option.splits)

lemma same_origin_make_url:
  assumes "url_ok s u h p t" "url_ok s' u' h' p' t'"
  shows "same_origin (make_url s u h p t) (make_url s' u' h' p' t') \<longleftrightarrow>
    eq_ignore_ascii_case s s'
    \<and> eq_ignore_ascii_case (normalized_host h) (normalized_host h')
    \<and> normalized_port s p = normalized_port s' p'"
proof -
  have "CHR '':'' \<notin> set (to_ascii_lowercase s)" "CHR '':'' \<notin> set (to_ascii_lowercase s')"
    using assms set_lower_special by (auto simp: url_ok_def)
  note inj = format_origin_inj [OF this, of "to_ascii_lowercase (normalized_host h)" "to_ascii_lowercase (normalized_host h')"
      "normalized_port s p" "normalized_port s' p'"]
  show ?thesis
    using assms inj host_normalized [of h] host_normalized [of h'] port_normalized [of p s] port_normalized [of p' s']
    by (auto simp: same_origin_def origin_make_url eq_ignore_ascii_case_def url_ok_def)
qed

lemma normalized_idem:
  "normalized_host (to_ascii_lowercase (normalized_host h)) = to_ascii_lowercase (normalized_host h)"
proof -
  have c: "CHR ''.'' = to_ascii_lower d \<longleftrightarrow> CHR ''.'' = d" for d
    using lower_special [of "CHR ''.''" d] by auto
  have e: "suffix ''.'' (to_ascii_lowercase x) \<longleftrightarrow> suffix ''.'' x"
    "suffix ''..'' (to_ascii_lowercase x) \<longleftrightarrow> suffix ''..'' x" for x
    by (cases "rev x"; cases "tl (rev x)";
        simp add: suffix_to_prefix to_ascii_lowercase_def rev_map c)+
  have n: "\<not> (length (normalized_host h) > 1 \<and> suffix ''.'' (normalized_host h) \<and> \<not> suffix ''..'' (normalized_host h))"
  proof
    assume a: "length (normalized_host h) > 1 \<and> suffix ''.'' (normalized_host h) \<and> \<not> suffix ''..'' (normalized_host h)"
    then have cut: "normalized_host h = take (length h - 1) h" "suffix ''.'' h" "\<not> suffix ''..'' h"
      by (auto simp: normalized_host_def split: if_splits)
    from cut(2) obtain k where k: "h = k @ ''.''" by (auto simp: suffix_def)
    then have "suffix ''.'' k" using a cut(1) by simp
    then have "suffix ''..'' h" using k by (auto simp: suffix_def)
    with cut(3) show False ..
  qed
  then show ?thesis
    unfolding normalized_host_def [of "to_ascii_lowercase (normalized_host h)"]
    by (simp only: e length_to_ascii_lowercase if_False)
qed

lemma normalized_port_idem: "normalized_port (to_ascii_lowercase s) (normalized_port s p) = normalized_port s p"
proof -
  have "to_ascii_lower (to_ascii_lower c) = to_ascii_lower c" for c
    by (auto simp: to_ascii_lower_def less_eq_char_def)
  then have "default_port (to_ascii_lowercase s) = default_port s"
    by (simp add: default_port_def eq_ignore_ascii_case_def to_ascii_lowercase_def comp_def)
  then show ?thesis by (auto simp: normalized_port_def split: option.splits)
qed

lemma origin_idem:
  assumes "url_ok s u h p t" "t' = [] \<or> ends_authority (hd t')"
  shows "origin (origin (make_url s u h p t) @ t') = origin (make_url s u h p t)"
proof -
  let ?s = "to_ascii_lowercase s" and ?h = "to_ascii_lowercase (normalized_host h)"
    and ?p = "normalized_port s p"
  have ok: "url_ok ?s None ?h ?p t'"
    using assms host_normalized [of h] port_normalized [of p s] set_lower_special [of "CHR '':''" s]
    by (auto simp: url_ok_def)
  have "origin (make_url s u h p t) @ t' = make_url ?s None ?h ?p t'"
    unfolding origin_make_url [OF assms(1)] unfolding format_origin_def make_url_def by simp
  moreover have "to_ascii_lowercase (to_ascii_lowercase x) = to_ascii_lowercase x" for x
    by (auto simp: to_ascii_lowercase_def to_ascii_lower_def less_eq_char_def)
  ultimately show ?thesis
    using origin_make_url [OF ok] origin_make_url [OF assms(1)] normalized_idem normalized_port_idem by simp
qed

lemma on_tls_iff: "on_tls url \<longleftrightarrow> to_ascii_lowercase (take 8 url) = ''https://''"
  by (auto simp: on_tls_def split_http_scheme_def eq_ignore_ascii_case_def to_ascii_lowercase_def
      to_ascii_lower_def less_eq_char_def)

lemma lower_char_iff:
  assumes "c \<in> {CHR '':'', CHR ''/''}"
  shows "to_ascii_lower d = c \<longleftrightarrow> d = c"
  using assms lower_special [of c d] by (auto simp: ends_authority_def)

lemma on_tlsE:
  assumes "on_tls url"
  obtains a b c d e t where "url = [a, b, c, d, e] @ ''://'' @ t" "to_ascii_lowercase [a, b, c, d, e] = ''https''"
proof -
  define x where "x = take 8 url"
  have u: "url = x @ drop 8 url" by (simp add: x_def)
  have "to_ascii_lowercase x = ''https://''" using assms by (simp add: on_tls_iff x_def)
  then obtain a b c d e where "x = [a, b, c, d, e] @ ''://''" "to_ascii_lowercase [a, b, c, d, e] = ''https''"
    by (auto simp: to_ascii_lowercase_def Cons_eq_map_conv lower_char_iff)
  with u that show thesis by (metis append_assoc)
qed

lemma on_tls_find:
  assumes "on_tls url"
  shows "find_str ''://'' url = Some 5"
proof -
  obtain a b c d e t where u: "url = [a, b, c, d, e] @ ''://'' @ t"
    and l: "to_ascii_lowercase [a, b, c, d, e] = ''https''" using assms by (rule on_tlsE)
  have "CHR '':'' \<notin> set [a, b, c, d, e]"
    using l set_lower_special [of "CHR '':''" "[a, b, c, d, e]"] by simp
  from find_str_append [OF _ this, of "''://''"] u show ?thesis by simp
qed

lemma on_tls_append: "on_tls u \<Longrightarrow> on_tls (u @ t)"
  by (erule on_tlsE) (simp add: on_tls_iff to_ascii_lowercase_def lower_char_iff)

lemma on_tls_take: "on_tls (take k u) \<Longrightarrow> on_tls u"
  using on_tls_append [of "take k u" "drop k u"] by simp

lemma on_tls_lower: "on_tls (to_ascii_lowercase u) \<longleftrightarrow> on_tls u"
  by (simp add: on_tls_iff to_ascii_lowercase_def take_map comp_def)

lemma on_tls_prefix:
  assumes "find_str ''://'' u = Some n"
  shows "on_tls u \<longleftrightarrow> on_tls (take (n + 3) u)"
proof
  assume t: "on_tls u"
  then have "n = 5" using on_tls_find assms by simp
  with t show "on_tls (take (n + 3) u)" by (simp add: on_tls_iff)
qed (rule on_tls_take)

lemma on_tls_scheme:
  assumes "find_str ''://'' u = Some n"
  shows "on_tls (to_ascii_lowercase (take n u) @ ''://'' @ h) \<longleftrightarrow> on_tls u"
proof -
  have n: "n \<le> length u" "take (n + 3) u = take n u @ ''://''"
    unfolding take_add using find_str_SomeD [OF assms] by (simp_all add: numeral_3_eq_3)
  have "to_ascii_lowercase ''://'' = ''://''"
    by (simp add: to_ascii_lowercase_def to_ascii_lower_def less_eq_char_def)
  then have l: "to_ascii_lowercase (take n u) @ ''://'' = to_ascii_lowercase (take (n + 3) u)"
    by (simp add: n(2)) (simp add: to_ascii_lowercase_def)
  show ?thesis
  proof
    assume "on_tls (to_ascii_lowercase (take n u) @ ''://'' @ h)"
    then have p: "on_tls (to_ascii_lowercase (take (n + 3) u) @ h)" by (simp add: l [symmetric])
    then have f: "find_str ''://'' (to_ascii_lowercase (take (n + 3) u) @ h) = Some 5" by (rule on_tls_find)
    show "on_tls u"
    proof (cases "n \<ge> 5")
      case True
      then have "on_tls (to_ascii_lowercase (take (n + 3) u))" using p n(1) find_str_SomeD [OF assms]
        by (simp add: on_tls_iff)
      then show ?thesis using on_tls_lower on_tls_prefix [OF assms] by simp
    next
      case False
      have "prefix ''://'' (drop n (to_ascii_lowercase (take (n + 3) u) @ h))"
        unfolding l [symmetric] using n(1) by simp
      with find_str_first [OF f, of n] False show ?thesis by simp
    qed
  next
    assume "on_tls u"
    then have "on_tls (to_ascii_lowercase (take (n + 3) u))"
      using on_tls_lower on_tls_prefix [OF assms] by simp
    from on_tls_append [OF this, of h] show "on_tls (to_ascii_lowercase (take n u) @ ''://'' @ h)"
      by (simp add: l [symmetric])
  qed
qed

lemma on_tls_origin: "on_tls (origin u) \<longleftrightarrow> on_tls u"
proof (cases "find_str ''://'' u")
  case (Some n)
  have "on_tls (take k u) \<longleftrightarrow> on_tls u" if "n + 3 \<le> k" for k
    using that on_tls_take [of k u] on_tls_prefix [OF Some] on_tls_take [of "n + 3" "take k u"]
    by (auto simp: min_def)
  then show ?thesis
    using on_tls_scheme [OF Some] find_str_SomeD [OF Some]
    by (auto simp: origin_def Some Let_def format_origin_def split: option.splits)
qed (simp add: origin_def)

lemma same_origin_tls: "same_origin a b \<Longrightarrow> on_tls a \<longleftrightarrow> on_tls b"
  by (metis same_origin_def on_tls_origin)

lemma resolve_redirect_path:
  assumes "url_ok s u h p t" "\<not> prefix ''/'' location"
  shows "resolve_redirect (make_url s u h p t) (CHR ''/'' # location)
    = Ok (origin (make_url s u h p t) @ CHR ''/'' # location)"
proof -
  have s: "split_http_scheme (CHR ''/'' # location) = None"
    by (auto simp: split_http_scheme_def eq_ignore_ascii_case_def to_ascii_lowercase_def
        to_ascii_lower_def less_eq_char_def split: if_splits)
  have f: "find_str ''://'' (make_url s u h p t) = Some (length s)"
    unfolding make_url_def by (rule find_str_append [where c = "CHR '':''"]) (use assms(1) in \<open>simp_all add: url_ok_def\<close>)
  have n: "strip_prefix ''/'' location = None"
    using assms(2) by (cases location) auto
  show ?thesis
    by (simp add: resolve_redirect_def s has_uri_scheme_def f n origin_of_def)
qed

lemma rebase_origin_tail:
  assumes "url \<noteq> []"
  shows "\<exists>tail. rebase_origin url to = trim_end_chars (\<lambda>c. c = CHR ''/'') to @ tail
    \<and> (tail = [] \<or> hd tail = CHR ''/'') \<and> (prefix ''/'' url \<longrightarrow> contains_str ''://'' url \<or> tail = url)"
  using assms by (auto simp: rebase_origin_def Let_def contains_str_def prefix_def split: option.splits)

lemma trim_make_url:
  assumes "url_ok s u h p []"
  shows "trim_end_chars (\<lambda>c. c = CHR ''/'') (make_url s u h p []) = make_url s u h p []"
proof (rule trim_end_chars_id)
  have h: "h \<noteq> []" "last h \<noteq> CHR ''/''"
    using assms host_chars [of h] last_in_set [of h]
    by (auto simp: url_ok_def list_all_iff ends_authority_def)
  show "\<not> last (make_url s u h p []) = CHR ''/''"
  proof (cases p)
    case (Some q)
    then have "CHR ''/'' \<notin> set q"
      using assms digits_props(3) [of q] by (auto simp: url_ok_def list_all_iff ends_authority_def)
    then show ?thesis by (cases "q = []") (auto simp: make_url_def Some dest: last_in_set)
  qed (use h in \<open>simp add: make_url_def\<close>)
qed

lemma valid_srv_target_plain:
  assumes "valid_srv_target host port = Some (h, p)"
  shows "plain_host h \<and> p = port \<and> port \<noteq> 0"
  using assms
  by (auto simp: valid_srv_target_def Let_def plain_host_def list_all_iff ends_authority_def
      is_ascii_alphanumeric_def is_ascii_alphabetic_def is_ascii_digit_def less_eq_char_def
      split: if_splits option.splits)

text \<open>
  The documented behaviour of \<^verbatim>\<open>utf8_percent_encode\<close> with the set \<^verbatim>\<open>UNRESERVED\<close>: an unreserved octet stays,
  any other becomes \<^verbatim>\<open>%\<close> and two upper-case hexadecimal digits.
\<close>

definition is_unreserved :: "char \<Rightarrow> bool" where
  "is_unreserved c \<longleftrightarrow> is_ascii_alphanumeric c
     \<or> c = CHR ''-'' \<or> c = CHR ''.'' \<or> c = CHR ''_'' \<or> c = CHR ''~''"

definition hex_digit :: "nat \<Rightarrow> char" where
  "hex_digit n = (if n < 10 then char_of (48 + n) else char_of (55 + n))"

definition pct_octet :: "char \<Rightarrow> str" where
  "pct_octet c =
     (if is_unreserved c then [c]
      else [CHR ''%'', hex_digit (of_char c div 16), hex_digit (of_char c mod 16)])"

definition pct_encode :: "str \<Rightarrow> str" where
  "pct_encode s = concat (map pct_octet s)"

fun pct_decode :: "str \<Rightarrow> str option" where
  "pct_decode [] = Some []"
| "pct_decode (c # s) =
     (if c = CHR ''%''
      then (case s of
              a # b # s' \<Rightarrow>
                (case (hex_val a, hex_val b) of
                   (Some x, Some y) \<Rightarrow> map_option ((#) (char_of (16 * x + y))) (pct_decode s')
                 | _ \<Rightarrow> None)
            | _ \<Rightarrow> None)
      else map_option ((#) c) (pct_decode s))"

lemma hex_digit_props:
  assumes "n < 16"
  shows "hex_val (hex_digit n) = Some n" "is_unreserved (hex_digit n)"
proof -
  have "n \<in> {0,1,2,3,4,5,6,7,8,9,10,11,12,13,14,15}"
    using assms by (simp, presburger)
  then show "hex_val (hex_digit n) = Some n" "is_unreserved (hex_digit n)"
    by (auto simp: hex_digit_def hex_val_def is_ascii_digit_def digit_val_def less_eq_char_def
        is_unreserved_def is_ascii_alphanumeric_def is_ascii_alphabetic_def)
qed

lemma pct_decode_octet: "pct_decode (pct_octet c @ s) = map_option ((#) c) (pct_decode s)"
proof (cases "is_unreserved c")
  case True
  then have "c \<noteq> CHR ''%''"
    by (auto simp: is_unreserved_def is_ascii_alphanumeric_def is_ascii_alphabetic_def
        is_ascii_digit_def less_eq_char_def)
  then show ?thesis by (simp add: pct_octet_def True)
next
  case False
  have "of_char c < (256 :: nat)" by simp
  then have "of_char c div 16 < (16 :: nat)" by linarith
  then show ?thesis by (simp add: pct_octet_def False hex_digit_props)
qed

lemma pct_decode_encode: "pct_decode (pct_encode s) = Some s"
  by (induction s) (simp_all add: pct_encode_def pct_decode_octet)

lemma pct_encode_chars: "list_all (\<lambda>c. is_unreserved c \<or> c = CHR ''%'') (pct_encode s)"
proof (induction s)
  case (Cons c s)
  have "of_char c < (256 :: nat)" by simp
  then have "of_char c div 16 < (16 :: nat)" by linarith
  with Cons show ?case by (simp add: pct_encode_def pct_octet_def hex_digit_props)
qed (simp add: pct_encode_def)

lemma pct_encode_dots: "pct_encode s = ''.'' \<longleftrightarrow> s = ''.''" "pct_encode s = ''..'' \<longleftrightarrow> s = ''..''"
  using pct_decode_encode [of s] by (auto simp: pct_encode_def pct_octet_def is_unreserved_def)

interpretation template: codec "encode_template_value pct_encode" pct_decode "\<lambda>_. True"
  by unfold_locales (auto simp: encode_template_value_def pct_decode_encode hex_val_def is_ascii_digit_def
      digit_val_def less_eq_char_def char_of_def bit_0)

subsection \<open>Properties\<close>

text \<open>
  C11. Two URLs have the same origin exactly when their schemes and hosts agree up to ASCII case and one
  trailing dot and their ports agree up to the default port of the scheme. User part, path, query and
  fragment have no influence, and the borrowed result of the fast path is the normalized one.
\<close>
theorem same_origin_iff:
  assumes "url_ok s u h p t" "url_ok s' u' h' p' t'"
  shows "same_origin (make_url s u h p t) (make_url s' u' h' p' t') \<longleftrightarrow>
    eq_ignore_ascii_case s s'
    \<and> eq_ignore_ascii_case (normalized_host h) (normalized_host h')
    \<and> normalized_port s p = normalized_port s' p'"
  using assms by (rule same_origin_make_url)

theorem same_origin_iff_witness:
  "same_origin (make_url ''HTTPS'' (Some ''a:b'') ''Mail.Example.'' (Some ''443'') ''/jmap'')
     (make_url ''https'' None ''mail.example'' None ''?x'')"
  using same_origin_iff [of "''HTTPS''" "Some ''a:b''" "''Mail.Example.''" "Some ''443''" "''/jmap''"
      "''https''" None "''mail.example''" None "''?x''"]
  by (simp add: url_ok_def plain_host_def ends_authority_def is_ascii_digit_def less_eq_char_def
      eq_ignore_ascii_case_def to_ascii_lowercase_def to_ascii_lower_def normalized_host_def
      normalized_port_def default_port_def suffix_to_prefix char_of_def bit_0)

text \<open>
  C12. A redirect to an absolute path stays on the origin of the request, whatever the path holds.
\<close>
theorem redirect_path_same_origin:
  assumes "url_ok s u h p t" "\<not> prefix ''/'' location"
  shows "\<exists>next_url. resolve_redirect (make_url s u h p t) (CHR ''/'' # location) = Ok next_url
    \<and> same_origin (make_url s u h p t) next_url"
  using resolve_redirect_path [OF assms] origin_idem [OF assms(1), of "CHR ''/'' # location"]
  by (simp add: same_origin_def ends_authority_def)

theorem redirect_path_same_origin_witness:
  "\<exists>next_url. resolve_redirect (make_url ''https'' None ''a.'' None ''/s'') ''/@b/'' = Ok next_url
    \<and> same_origin (make_url ''https'' None ''a.'' None ''/s'') next_url"
  by (rule redirect_path_same_origin)
    (simp_all add: url_ok_def plain_host_def ends_authority_def)

text \<open>
  C13. Rebasing a session URL lands on the origin that the client connected to: the result is that
  origin, then nothing or a path, and so has the same origin.
\<close>
theorem rebase_lands_on_origin:
  assumes "url_ok s u h p []" "url \<noteq> []"
  shows "same_origin (rebase_origin url (make_url s u h p [])) (make_url s u h p [])"
proof -
  obtain tail where t: "rebase_origin url (make_url s u h p []) = make_url s u h p [] @ tail"
    "tail = [] \<or> hd tail = CHR ''/''"
    using rebase_origin_tail [OF assms(2)] trim_make_url [OF assms(1)] by metis
  have "url_ok s u h p tail" using assms(1) t(2) by (auto simp: url_ok_def ends_authority_def)
  then have "origin (make_url s u h p tail) = origin (make_url s u h p [])"
    using assms(1) by (simp add: origin_make_url)
  then show ?thesis using t(1) by (simp add: same_origin_def make_url_def)
qed

theorem rebase_lands_on_origin_witness:
  "same_origin (rebase_origin ''.evil.example/jmap'' (make_url ''https'' None ''a.b'' (Some ''8443'') []))
     (make_url ''https'' None ''a.b'' (Some ''8443'') [])"
  by (rule rebase_lands_on_origin)
    (simp_all add: url_ok_def plain_host_def ends_authority_def is_ascii_digit_def less_eq_char_def)





end
