(* ===== verification/Client_Transport.thy ===== *)
theory Client_Transport
  imports Client_Url
begin

text \<open>
  The HTTP transport of \<^verbatim>\<open>jmap-client/src/transport.rs\<close>: the request and response types, the
  \<^verbatim>\<open>Retry-After\<close> header, and \<^verbatim>\<open>UreqTransport::execute\<close> with its own redirect loop. The HTTP library under it
  is the argument \<open>send\<close>: one exchange with the network, which also changes the world. The world says
  whether the caller cancelled. The lemmas follow what is sent on a chain of redirects.
\<close>

subsection \<open>Definitions\<close>

datatype http_method = Get | Post

record http_request =
  hq_method :: http_method
  hq_url :: str
  hq_headers :: "(str \<times> str) list"
  hq_body :: "str option"
  hq_max_response_bytes :: nat

record http_response =
  hr_status :: nat
  hr_content_type :: "str option"
  hr_body :: str
  hr_final_url :: str

datatype transport_error = TCancelled | TFailed str | TResponseTooLarge nat

text \<open>
  The thread's view of the network: the world and the \<^verbatim>\<open>Retry-After\<close> observed last
  (\<^verbatim>\<open>OBSERVED_RETRY_AFTER\<close>).
\<close>

record 'w net =
  net_world :: 'w
  net_retry_after :: "duration option"

definition parse_retry_after :: "str \<Rightarrow> duration option" where
  "parse_retry_after header_value =
     map_option from_secs (parse_unsigned U64_MAX (trim header_value))"

text \<open>
  What the HTTP library gives back: the status, the headers that are read as text, and the reader of
  the body under a limit.
\<close>

datatype body_error = BodyExceedsLimit | OtherError str

record raw_response =
  raw_status :: nat
  raw_location :: "str option"
  raw_content_type :: "str option"
  raw_retry_after :: "str option"
  raw_read :: "nat \<Rightarrow> body_error + str"

type_synonym 'w send =
  "http_method \<Rightarrow> str \<Rightarrow> (str \<times> str) list \<Rightarrow> str option \<Rightarrow> 'w \<Rightarrow> (str + raw_response) \<times> 'w"

definition is_redirect :: "nat \<Rightarrow> bool" where
  "is_redirect status \<longleftrightarrow> 301 \<le> status \<and> status \<le> 303 \<or> status = 307 \<or> status = 308"

definition drop_headers :: "str list \<Rightarrow> (str \<times> str) list \<Rightarrow> (str \<times> str) list" where
  "drop_headers names = filter (\<lambda>(name, _). \<not> list_ex (eq_ignore_ascii_case name) names)"

text \<open>One redirect: the next URL, method and headers, or the reason why it is refused.\<close>

definition follow_redirect ::
  "str \<Rightarrow> http_method \<Rightarrow> (str \<times> str) list \<Rightarrow> nat \<Rightarrow> str
   \<Rightarrow> transport_error + str \<times> http_method \<times> (str \<times> str) list" where
  "follow_redirect current_url current_method current_headers status location =
     res_bind (map_err TFailed (resolve_redirect current_url location)) (\<lambda>next_url.
     if downgrades current_url next_url
     then Err (TFailed (''refused a redirect from TLS to '' @ origin_of next_url))
     else
       let same = same_origin current_url next_url
       in if \<not> same \<and> (status = 307 \<or> status = 308) \<and> current_method = Post
          then Err (TFailed (''refused a '' @ dec status @ '' redirect of a request body to ''
                 @ origin_of next_url))
          else
            let headers = (if same then current_headers
                           else drop_headers [''authorization''] current_headers)
            in if 301 \<le> status \<and> status \<le> 303 \<and> current_method = Post
               then Ok (next_url, Get, drop_headers [''content-type'', ''content-length''] headers)
               else Ok (next_url, current_method, headers))"

definition finish_response ::
  "http_request \<Rightarrow> str \<Rightarrow> raw_response \<Rightarrow> 'w net \<Rightarrow> (transport_error + http_response) \<times> 'w net" where
  "finish_response request current_url response net =
     (map_err (\<lambda>error. case error of
          BodyExceedsLimit \<Rightarrow> TResponseTooLarge (hq_max_response_bytes request)
        | OtherError message \<Rightarrow> TFailed message)
        (res_bind (raw_read response (min (hq_max_response_bytes request + 1) U64_MAX)) (\<lambda>body.
           Ok \<lparr>hr_status = raw_status response, hr_content_type = raw_content_type response,
               hr_body = body, hr_final_url = current_url\<rparr>)),
      net\<lparr>net_retry_after := Option.bind (raw_retry_after response) parse_retry_after\<rparr>)"

function ureq_loop ::
  "('w \<Rightarrow> bool) \<Rightarrow> 'w send \<Rightarrow> http_request \<Rightarrow> str \<Rightarrow> http_method \<Rightarrow> (str \<times> str) list \<Rightarrow> nat
   \<Rightarrow> 'w net \<Rightarrow> (transport_error + http_response) \<times> 'w net" where
  "ureq_loop cancelled send request current_url current_method current_headers redirect_count net =
     (if cancelled (net_world net) then (Err TCancelled, net)
      else case send current_method current_url current_headers
                  (case current_method of
                     Get \<Rightarrow> None
                   | Post \<Rightarrow> Some (case hq_body request of Some b \<Rightarrow> b | None \<Rightarrow> [])) (net_world net) of
        (Inl message, w) \<Rightarrow> (Err (TFailed message), net\<lparr>net_world := w\<rparr>)
      | (Inr response, w) \<Rightarrow>
          let net' = net\<lparr>net_world := w\<rparr>; status = raw_status response
          in if is_redirect status \<and> redirect_count < 10 \<and> raw_location response \<noteq> None
             then (case follow_redirect current_url current_method current_headers status
                          (the (raw_location response)) of
                     Inl e \<Rightarrow> (Err e, net')
                   | Inr (next_url, next_method, next_headers) \<Rightarrow>
                       ureq_loop cancelled send request next_url next_method next_headers
                         (redirect_count + 1) net')
             else if is_redirect status \<and> 10 \<le> redirect_count
             then (Err (TFailed ''too many redirects''), net')
             else finish_response request current_url response net')"
  by pat_completeness auto
termination
  by (relation "measure (\<lambda>(_, _, _, _, _, _, redirect_count, _). 10 - redirect_count)") auto

declare ureq_loop.simps [simp del]

definition ureq_execute ::
  "('w \<Rightarrow> bool) \<Rightarrow> 'w send \<Rightarrow> http_request \<Rightarrow> 'w net \<Rightarrow> (transport_error + http_response) \<times> 'w net" where
  "ureq_execute cancelled send request net =
     ureq_loop cancelled send request (hq_url request) (hq_method request) (hq_headers request) 0 net"

subsection \<open>What goes over the wire\<close>

text \<open>
  A recorder around the HTTP library: it behaves as the library does and keeps the list of the
  exchanges.
\<close>

record exchange =
  ex_method :: http_method
  ex_url :: str
  ex_headers :: "(str \<times> str) list"
  ex_body :: "str option"

definition recorded :: "'w send \<Rightarrow> ('w \<times> exchange list) send" where
  "recorded send meth url headers body world =
     (case send meth url headers body (fst world) of
        (r, w) \<Rightarrow> (r, (w, snd world @ [\<lparr>ex_method = meth, ex_url = url, ex_headers = headers, ex_body = body\<rparr>])))"

definition carries_authorization :: "(str \<times> str) list \<Rightarrow> bool" where
  "carries_authorization headers \<longleftrightarrow>
     list_ex (\<lambda>(name, _). eq_ignore_ascii_case name ''authorization'') headers"

text \<open>
  An exchange is safe for a request: the credentials, which are those of the request, and the body go
  to the origin of the request only, and a request on TLS stays on TLS.
\<close>

definition safe_exchange :: "http_request \<Rightarrow> exchange \<Rightarrow> bool" where
  "safe_exchange request e \<longleftrightarrow>
     (carries_authorization (ex_headers e) \<or> ex_body e \<noteq> None \<longrightarrow> same_origin (hq_url request) (ex_url e))
     \<and> (carries_authorization (ex_headers e) \<longrightarrow> carries_authorization (hq_headers request))
     \<and> (on_tls (hq_url request) \<longrightarrow> on_tls (ex_url e))"

definition on_track :: "http_request \<Rightarrow> str \<Rightarrow> http_method \<Rightarrow> (str \<times> str) list \<Rightarrow> bool" where
  "on_track request url meth headers \<longleftrightarrow>
     (carries_authorization headers \<or> meth = Post \<longrightarrow> same_origin (hq_url request) url)
     \<and> (carries_authorization headers \<longrightarrow> carries_authorization (hq_headers request))
     \<and> (on_tls (hq_url request) \<longrightarrow> on_tls url)"

lemma carries_drop_headers: "carries_authorization (drop_headers names headers) \<Longrightarrow> carries_authorization headers"
  by (auto simp: carries_authorization_def drop_headers_def list_ex_iff)

lemma drops_authorization [simp]: "\<not> carries_authorization (drop_headers [''authorization''] headers)"
  by (auto simp: carries_authorization_def drop_headers_def list_ex_iff)

lemma drops_authorization_twice [simp]:
  "\<not> carries_authorization (drop_headers names (drop_headers [''authorization''] headers))"
  using carries_drop_headers drops_authorization by blast

lemma follow_redirect_cases:
  assumes "follow_redirect url meth headers status location = Inr (url', meth', headers')"
    "is_redirect status"
  shows "carries_authorization headers' \<longrightarrow> carries_authorization headers \<and> same_origin url url'"
    "meth' = Post \<longrightarrow> meth = Post \<and> same_origin url url'"
    "\<not> downgrades url url'"
  using assms carries_drop_headers drops_authorization
  by (auto simp: follow_redirect_def res_bind_Inr_iff Let_def is_redirect_def split: if_splits)

lemma follow_redirect_on_track:
  assumes "on_track request url meth headers"
    "follow_redirect url meth headers status location = Inr (url', meth', headers')"
    "is_redirect status"
  shows "on_track request url' meth' headers'"
  using assms(1) follow_redirect_cases [OF assms(2,3)]
  by (auto simp: on_track_def downgrades_def same_origin_def)

lemma ureq_loop_end:
  assumes "\<not> cancelled (net_world net)"
    "send meth url headers (case meth of Get \<Rightarrow> None | Post \<Rightarrow> Some (case hq_body request of Some b \<Rightarrow> b | None \<Rightarrow> []))
       (net_world net) = (x, w)"
    "\<And>response url' meth' headers'. x = Inr response \<Longrightarrow> is_redirect (raw_status response) \<Longrightarrow>
       redirect_count < 10 \<Longrightarrow> raw_location response \<noteq> None \<Longrightarrow>
       follow_redirect url meth headers (raw_status response) (the (raw_location response))
         \<noteq> Inr (url', meth', headers')"
  shows "net_world (snd (ureq_loop cancelled send request url meth headers redirect_count net)) = w"
proof (cases x)
  case (Inl message)
  then show ?thesis using assms(1,2) by (subst ureq_loop.simps) simp
next
  case (Inr response)
  have "follow_redirect url meth headers (raw_status response) (the (raw_location response))
      = Inl (projl (follow_redirect url meth headers (raw_status response) (the (raw_location response))))"
    if "is_redirect (raw_status response)" "redirect_count < 10" "raw_location response \<noteq> None"
    using assms(3) [OF Inr that] by (metis sum.collapse(1) sum.collapse(2) surj_pair)
  then show ?thesis
    using assms(1,2) Inr
    by (subst ureq_loop.simps) (auto simp: finish_response_def Let_def split: sum.splits)
qed

lemma ureq_loop_again:
  assumes "\<not> cancelled (net_world net)"
    "send meth url headers (case meth of Get \<Rightarrow> None | Post \<Rightarrow> Some (case hq_body request of Some b \<Rightarrow> b | None \<Rightarrow> []))
       (net_world net) = (Inr response, w)"
    "is_redirect (raw_status response)" "redirect_count < 10" "raw_location response \<noteq> None"
    "follow_redirect url meth headers (raw_status response) (the (raw_location response))
       = Inr (url', meth', headers')"
  shows "ureq_loop cancelled send request url meth headers redirect_count net
    = ureq_loop cancelled send request url' meth' headers' (redirect_count + 1) (net\<lparr>net_world := w\<rparr>)"
  using assms by (subst ureq_loop.simps) (simp add: Let_def)

lemma ureq_loop_safe:
  assumes "on_track request url meth headers" "redirect_count \<le> 10"
  shows "\<exists>new. snd (net_world (snd (ureq_loop cancelled (recorded send) request url meth headers redirect_count net)))
    = snd (net_world net) @ new \<and> length new \<le> 11 - redirect_count \<and> list_all (safe_exchange request) new"
  using assms
proof (induction "11 - redirect_count" arbitrary: url meth headers redirect_count net)
  case (Suc n)
  let ?body = "case meth of Get \<Rightarrow> None | Post \<Rightarrow> Some (case hq_body request of Some b \<Rightarrow> b | None \<Rightarrow> [])"
  let ?e = "\<lparr>ex_method = meth, ex_url = url, ex_headers = headers, ex_body = ?body\<rparr>"
  let ?loop = "ureq_loop cancelled (recorded send) request"
  have e: "safe_exchange request ?e"
    using Suc.prems(1) by (cases meth) (auto simp: safe_exchange_def on_track_def)
  obtain x w where s: "recorded send meth url headers ?body (net_world net) = (x, w)"
    by (rule prod.exhaust)
  then have w: "snd w = snd (net_world net) @ [?e]"
    by (auto simp: recorded_def split: prod.splits)
  consider (stop) "cancelled (net_world net)"
    | (again) response url' meth' headers' where "\<not> cancelled (net_world net)" "x = Inr response"
      "is_redirect (raw_status response)" "redirect_count < 10" "raw_location response \<noteq> None"
      "follow_redirect url meth headers (raw_status response) (the (raw_location response))
        = Inr (url', meth', headers')"
    | (last) "\<not> cancelled (net_world net)"
      "\<And>response url' meth' headers'. x = Inr response \<Longrightarrow> is_redirect (raw_status response) \<Longrightarrow>
        redirect_count < 10 \<Longrightarrow> raw_location response \<noteq> None \<Longrightarrow>
        follow_redirect url meth headers (raw_status response) (the (raw_location response))
          \<noteq> Inr (url', meth', headers')" by blast
  then show ?case
  proof cases
    case stop
    then show ?thesis by (subst ureq_loop.simps) simp
  next
    case again
    note loop = ureq_loop_again [where cancelled = cancelled and send = "recorded send" and net = net,
        OF again(1) s [unfolded again(2)] again(3-6)]
    have "n = 11 - (redirect_count + 1)" using Suc.hyps(2) by simp
    from Suc.hyps(1) [OF this follow_redirect_on_track [OF Suc.prems(1) again(6,3)],
        of "net\<lparr>net_world := w\<rparr>"] again(4)
    obtain new where "snd (net_world (snd (?loop url meth headers redirect_count net)))
        = snd (net_world net) @ ?e # new" "length new \<le> 11 - (redirect_count + 1)"
        "list_all (safe_exchange request) new"
      unfolding loop using w by auto
    then show ?thesis using e again(4) by (intro exI [of _ "?e # new"]) auto
  next
    case last
    from ureq_loop_end [where cancelled = cancelled and send = "recorded send" and net = net,
        OF last(1) s last(2)] w show ?thesis
      using e Suc.prems(2) by (intro exI [of _ "[?e]"]) simp
  qed
qed simp

lemma ureq_execute_final_url:
  assumes "ureq_loop cancelled (recorded send) request url meth headers redirect_count net = (Inr response, net')"
  shows "\<exists>before e. snd (net_world net') = before @ [e] \<and> hr_final_url response = ex_url e"
  using assms
proof (induction cancelled "recorded send" request url meth headers redirect_count net
    rule: ureq_loop.induct)
  case (1 cancelled request url meth headers redirect_count net)
  let ?body = "case meth of Get \<Rightarrow> None | Post \<Rightarrow> Some (case hq_body request of Some b \<Rightarrow> b | None \<Rightarrow> [])"
  have nc: "\<not> cancelled (net_world net)" using "1.prems" by (subst (asm) ureq_loop.simps) auto
  obtain x w where s: "recorded send meth url headers ?body (net_world net) = (x, w)"
    by (rule prod.exhaust)
  obtain raw where x: "x = Inr raw"
    using "1.prems" nc s by (cases x) (subst (asm) ureq_loop.simps, auto)+
  show ?case
  proof (cases "is_redirect (raw_status raw) \<and> redirect_count < 10 \<and> raw_location raw \<noteq> None")
    case True
    then obtain url' meth' headers' where f: "follow_redirect url meth headers (raw_status raw)
        (the (raw_location raw)) = Inr (url', meth', headers')"
      using "1.prems" nc s x
      by (subst (asm) ureq_loop.simps) (auto simp: Let_def split: sum.splits)
    from True have g: "is_redirect (raw_status raw)" "redirect_count < 10" "raw_location raw \<noteq> None"
      by auto
    note loop = ureq_loop_again [where cancelled = cancelled and send = "recorded send" and net = net,
        OF nc s [unfolded x] g f]
    show ?thesis
      by (rule "1.hyps" [OF nc s [symmetric] x refl refl _ f refl refl]) (use g "1.prems" loop in simp_all)
  next
    case False
    have "snd w = snd (net_world net) @ [\<lparr>ex_method = meth, ex_url = url, ex_headers = headers, ex_body = ?body\<rparr>]"
      using s by (auto simp: recorded_def split: prod.splits)
    then show ?thesis
      using "1.prems" nc s x False
      by (subst (asm) ureq_loop.simps)
        (auto simp: Let_def finish_response_def map_err_def res_bind_def split: sum.splits if_splits)
  qed
qed

lemma redirects_safe:
  "\<exists>new. snd (net_world (snd (ureq_execute cancelled (recorded send) request net)))
      = snd (net_world net) @ new
    \<and> length new \<le> 11 \<and> list_all (safe_exchange request) new"
proof -
  have "on_track request (hq_url request) (hq_method request) (hq_headers request)"
    by (simp add: on_track_def same_origin_def)
  from ureq_loop_safe [OF this, of 0] show ?thesis by (simp add: ureq_execute_def)
qed

subsection \<open>Properties\<close>

text \<open>
  C2. On any chain of redirects the transport sends at most eleven requests; the \<^verbatim>\<open>Authorization\<close> header
  and the request body go to the origin of the first URL only, and a chain that starts on TLS never
  leaves it, whatever the servers answer.
\<close>
theorem redirects_are_safe:
  "\<exists>new. snd (net_world (snd (ureq_execute cancelled (recorded send) request net)))
      = snd (net_world net) @ new
    \<and> length new \<le> 11 \<and> list_all (safe_exchange request) new"
by (rule redirects_safe)

end
