(* ===== verification/Client_Http.thy ===== *)
theory Client_Http
  imports Client_Transport
begin

text \<open>
  The HTTP side of \<^verbatim>\<open>jmap-client/src/client.rs\<close>: the client's state, the credentials, one exchange with
  the server (\<open>execute_within\<close>), its retry under rate limits, and the session refresh.

  An operation of the client takes the connection, which is the client with the network, and returns
  a result and the new connection. Code outside the repository is the record \<open>env\<close>: the transport (the
  trait object of the source, of which \<open>ureq_execute\<close> is one), the JSON reader and writer, the
  cancellation flag, and the two waits, which only tell whether the caller cancelled meanwhile.
\<close>

subsection \<open>The state\<close>

datatype credentials = No_Credentials | Basic str str | Bearer str

definition authorization_header :: "(str \<Rightarrow> str) \<Rightarrow> credentials \<Rightarrow> str option" where
  "authorization_header base64 credentials =
     (case credentials of
        No_Credentials \<Rightarrow> None
      | Basic user password \<Rightarrow> Some (''Basic '' @ base64 (user @ '':'' @ password))
      | Bearer token \<Rightarrow> Some (''Bearer '' @ token))"

record id_budget =
  bu_ids :: nat
  bu_bytes :: nat

definition per_sync :: id_budget where
  "per_sync = \<lparr>bu_ids = 1000000, bu_bytes = 64 * 1024 * 1024\<rparr>"

definition charge :: "str \<Rightarrow> id_budget \<Rightarrow> bool \<times> id_budget" where
  "charge text budget =
     (if 1 \<le> bu_ids budget \<and> length text \<le> bu_bytes budget
      then (True, \<lparr>bu_ids = bu_ids budget - 1, bu_bytes = bu_bytes budget - length text\<rparr>)
      else (False, budget))"

record 'n client =
  cl_authorization :: "str option"
  cl_session_url :: str
  cl_session :: "'n session option"
  cl_next_call_id :: nat
  cl_last_session_state :: "jstate option"
  cl_rebase_origin :: "str option"
  cl_rebase_note :: "str option"
  cl_max_rate_limit_retries :: nat
  cl_max_retry_after :: duration
  cl_id_budget :: id_budget
  cl_request_limit :: nat
  cl_upload_limit :: nat

record ('n, 'w) conn =
  cn_client :: "'n client"
  cn_net :: "'w net"

record ('n, 'w) env =
  en_as_u64 :: "'n \<Rightarrow> nat option"
  en_transport :: "http_request \<Rightarrow> 'w net \<Rightarrow> (transport_error + http_response) \<times> 'w net"
  en_cancelled :: "'w \<Rightarrow> bool"
  en_acquire :: "nat \<Rightarrow> 'w \<Rightarrow> bool \<times> 'w"
  en_sleep :: "duration \<Rightarrow> 'w \<Rightarrow> bool \<times> 'w"
  en_to_vec :: "'n request \<Rightarrow> str + str"
  en_to_string :: "jid \<Rightarrow> str + str"
  en_session :: "str \<Rightarrow> str + 'n session"
  en_response :: "str \<Rightarrow> str + 'n response"
  en_problem :: "str \<Rightarrow> 'n request_error option"
  en_method_error :: "'n json \<Rightarrow> str + 'n method_error"

definition session_of :: "('n, 'w) conn \<Rightarrow> 'n session" where
  "session_of conn = the (cl_session (cn_client conn))"

definition MAX_API_RESPONSE_BYTES :: nat where
  "MAX_API_RESPONSE_BYTES = 64 * 1024 * 1024"

definition USIZE_MAX :: nat where
  "USIZE_MAX = 2 ^ 64 - 1"

definition parse_limit :: "nat option \<Rightarrow> nat" where
  "parse_limit limit =
     (case limit of
        Some n \<Rightarrow> if n = 0 then 1 else if n \<le> USIZE_MAX then n else USIZE_MAX
      | None \<Rightarrow> USIZE_MAX)"

subsection \<open>One exchange\<close>

definition transport_err :: "transport_error \<Rightarrow> 'n error" where
  "transport_err error =
     (case error of
        TCancelled \<Rightarrow> Cancelled
      | TFailed message \<Rightarrow> Transport message
      | TResponseTooLarge limit \<Rightarrow> ResponseTooLarge limit)"

definition request_headers :: "'n client \<Rightarrow> str \<Rightarrow> str option \<Rightarrow> str \<Rightarrow> (str \<times> str) list" where
  "request_headers client url content_type accept =
     [(''Accept'', accept)]
     @ (case content_type of Some c \<Rightarrow> [(''Content-Type'', c)] | None \<Rightarrow> [])
     @ (case cl_authorization client of
          Some authorization \<Rightarrow>
            if same_origin (cl_session_url client) url \<and> (on_tls url \<or> is_loopback url)
            then [(''Authorization'', authorization)] else []
        | None \<Rightarrow> [])"

definition check_response ::
  "('n, 'w) env \<Rightarrow> str \<Rightarrow> (str \<times> str) list \<Rightarrow> http_response \<Rightarrow> 'n error + http_response" where
  "check_response env url headers response =
     (if hr_status response = 401 \<and> carries_authorization headers
         \<and> \<not> same_origin url (hr_final_url response)
      then Err (RedirectCredentialsWithheld (origin_of url) (origin_of (hr_final_url response)))
      else if \<not> (200 \<le> hr_status response \<and> hr_status response < 300)
      then Err (Http (hr_status response) (en_problem env (hr_body response)))
      else Ok response)"

definition execute_within ::
  "('n, 'w) env \<Rightarrow> http_method \<Rightarrow> str \<Rightarrow> str option \<Rightarrow> str option \<Rightarrow> str \<Rightarrow> nat
   \<Rightarrow> (('n, 'w) conn, 'n error, http_response) io" where
  "execute_within env meth url body content_type accept max_response_bytes conn =
     (let client = cn_client conn; net = cn_net conn
      in if en_cancelled env (net_world net) then (Err Cancelled, conn)
         else case en_acquire env (cl_request_limit client) (net_world net) of
           (True, w) \<Rightarrow> (Err Cancelled, conn\<lparr>cn_net := net\<lparr>net_world := w\<rparr>\<rparr>)
         | (False, w) \<Rightarrow>
             let headers = request_headers client url content_type accept;
                 request = \<lparr>hq_method = meth, hq_url = url, hq_headers = headers, hq_body = body,
                            hq_max_response_bytes = max_response_bytes\<rparr>
             in (case en_transport env request (net\<lparr>net_world := w, net_retry_after := None\<rparr>) of
                   (result, net') \<Rightarrow>
                     (res_bind (map_err transport_err result) (check_response env url headers),
                      conn\<lparr>cn_net := net'\<rparr>)))"

definition execute ::
  "('n, 'w) env \<Rightarrow> http_method \<Rightarrow> str \<Rightarrow> str option \<Rightarrow> (('n, 'w) conn, 'n error, http_response) io" where
  "execute env meth url body =
     execute_within env meth url body (case body of Some _ \<Rightarrow> Some ''application/json'' | None \<Rightarrow> None)
       ''application/json'' MAX_API_RESPONSE_BYTES"

subsection \<open>Backoff and retry\<close>

text \<open>
  \<^verbatim>\<open>checked_shl\<close> shifts within 64 bits and fails from a shift of 64 on; the product wraps as in a
  release build.
\<close>

definition compute_backoff :: "duration \<Rightarrow> duration option \<Rightarrow> nat \<Rightarrow> duration" where
  "compute_backoff max_retry_after retry_after attempt =
     (case retry_after of
        Some d \<Rightarrow> min d max_retry_after
      | None \<Rightarrow>
          let factor = (if attempt - 1 < 64 then 2 ^ (attempt - 1) else 8);
              millis = (500 * factor) mod 2 ^ 64
          in min (from_millis millis) max_retry_after)"

definition sleep_with_cancel ::
  "('n, 'w) env \<Rightarrow> duration \<Rightarrow> (('n, 'w) conn, 'n error, unit) io" where
  "sleep_with_cancel env d conn =
     (let net = cn_net conn
      in if en_cancelled env (net_world net) then (Err Cancelled, conn)
         else if d = 0 then (Ok (), conn)
         else case en_sleep env d (net_world net) of
           (cancelled, w) \<Rightarrow>
             (if cancelled then Err Cancelled else Ok (), conn\<lparr>cn_net := net\<lparr>net_world := w\<rparr>\<rparr>))"

definition observed_or_hint ::
  "('n, 'w) conn \<Rightarrow> duration option \<Rightarrow> duration option" where
  "observed_or_hint conn hint =
     (case net_retry_after (cn_net conn) of Some d \<Rightarrow> Some d | None \<Rightarrow> hint)"

function execute_idempotent_loop ::
  "('n, 'w) env \<Rightarrow> http_method \<Rightarrow> str \<Rightarrow> str option \<Rightarrow> str option \<Rightarrow> str \<Rightarrow> nat \<Rightarrow> nat \<Rightarrow> nat
   \<Rightarrow> (('n, 'w) conn, 'n error, http_response) io" where
  "execute_idempotent_loop env meth url body content_type accept max_bytes max_attempts attempt conn =
     (case execute_within env meth url body content_type accept max_bytes conn of
        (Inr response, conn') \<Rightarrow> (Ok response, conn')
      | (Inl err, conn') \<Rightarrow>
          (case err of
             Http status problem \<Rightarrow>
               if status = 429
               then
                 let retry_after = observed_or_hint conn'
                       (Option.bind problem (extract_problem_retry_after (en_as_u64 env)))
                 in if attempt < max_attempts
                    then io_bind
                      (sleep_with_cancel env
                        (compute_backoff (cl_max_retry_after (cn_client conn')) retry_after attempt))
                      (\<lambda>_. execute_idempotent_loop env meth url body content_type accept max_bytes
                             max_attempts (attempt + 1)) conn'
                    else (Err (RateLimited retry_after None problem), conn')
               else (Err err, conn')
           | _ \<Rightarrow> (Err err, conn')))"
  by pat_completeness auto
termination
  by (relation "measure (\<lambda>(_, _, _, _, _, _, _, max_attempts, attempt, _). max_attempts - attempt)") auto

declare execute_idempotent_loop.simps [simp del]

definition execute_idempotent_within ::
  "('n, 'w) env \<Rightarrow> http_method \<Rightarrow> str \<Rightarrow> str option \<Rightarrow> str option \<Rightarrow> str \<Rightarrow> nat
   \<Rightarrow> (('n, 'w) conn, 'n error, http_response) io" where
  "execute_idempotent_within env meth url body content_type accept max_bytes conn =
     execute_idempotent_loop env meth url body content_type accept max_bytes
       (max (cl_max_rate_limit_retries (cn_client conn)) 1) 1 conn"

subsection \<open>The session\<close>

definition rebase_session :: "str \<Rightarrow> 'n session \<Rightarrow> 'n session" where
  "rebase_session to session =
     session\<lparr>se_api_url := rebase_origin (se_api_url session) to,
             se_download_url := rebase_origin (se_download_url session) to,
             se_upload_url := rebase_origin (se_upload_url session) to,
             se_event_source_url := rebase_origin (se_event_source_url session) to\<rparr>"

definition rebase_note_for :: "str \<Rightarrow> 'n session \<Rightarrow> str option" where
  "rebase_note_for to session =
     (let advertised = origin_of (se_download_url session)
      in if same_origin advertised to then None
         else Some (''note: JMAP_LIVE_SERVER_REBASE_URLS is active and rewrote '' @ advertised
                @ '' to '' @ to))"

definition session_endpoints :: "'n session \<Rightarrow> (str \<times> str) list" where
  "session_endpoints session =
     [(''apiUrl'', se_api_url session), (''downloadUrl'', se_download_url session),
      (''uploadUrl'', se_upload_url session), (''eventSourceUrl'', se_event_source_url session)]"

definition check_endpoints :: "str \<Rightarrow> 'n session \<Rightarrow> 'n error + unit" where
  "check_endpoints session_url session =
     (case find (\<lambda>(_, endpoint). \<not> may_carry_credentials session_url endpoint)
             (session_endpoints session) of
        Some (name, endpoint) \<Rightarrow>
          Err (Protocol (''the session names '' @ name @ '' '' @ endpoint
            @ '' without TLS; the client sends credentials only over TLS, to loopback, or to the configured origin''))
      | None \<Rightarrow> Ok ())"

definition refresh_session :: "('n, 'w) env \<Rightarrow> (('n, 'w) conn, 'n error, unit) io" where
  "refresh_session env conn0 =
     io_bind
       (execute_idempotent_within env Get (cl_session_url (cn_client conn0)) None None
          ''application/json'' MAX_API_RESPONSE_BYTES)
       (\<lambda>response conn.
          let client = cn_client conn; url = cl_session_url client
          in if \<not> same_origin url (hr_final_url response)
             then (Err (RedirectCredentialsWithheld (origin_of url)
                     (origin_of (hr_final_url response))), conn)
             else case en_session env (hr_body response) of
               Inl message \<Rightarrow> (Err (Json message), conn)
             | Inr parsed \<Rightarrow>
                 let session = (case cl_rebase_origin client of
                                  Some to \<Rightarrow> rebase_session to parsed
                                | None \<Rightarrow> parsed);
                     noted = (case cl_rebase_origin client of
                                Some to \<Rightarrow> client\<lparr>cl_rebase_note := rebase_note_for to parsed\<rparr>
                              | None \<Rightarrow> client)
                 in (case check_endpoints url session of
                       Inl e \<Rightarrow> (Err e, conn\<lparr>cn_client := noted\<rparr>)
                     | Inr _ \<Rightarrow>
                         (Ok (), conn\<lparr>cn_client := noted\<lparr>
                            cl_last_session_state := Some (se_state session),
                            cl_request_limit := parse_limit
                              (max_concurrent_requests (en_as_u64 env) session),
                            cl_upload_limit := parse_limit
                              (max_concurrent_upload (en_as_u64 env) session),
                            cl_session := Some session\<rparr>\<rparr>)))
       conn0"

definition is_session_stale :: "('n, 'w) conn \<Rightarrow> bool" where
  "is_session_stale conn \<longleftrightarrow>
     (case (cl_last_session_state (cn_client conn), cl_session (cn_client conn)) of
        (Some last_state, Some session) \<Rightarrow> last_state \<noteq> se_state session
      | _ \<Rightarrow> False)"

definition set_credentials ::
  "(str \<Rightarrow> str) \<Rightarrow> credentials \<Rightarrow> ('n, 'w) conn \<Rightarrow> ('n, 'w) conn" where
  "set_credentials base64 credentials conn =
     conn\<lparr>cn_client := (cn_client conn)\<lparr>cl_authorization := authorization_header base64 credentials\<rparr>\<rparr>"

definition is_anonymous :: "('n, 'w) conn \<Rightarrow> bool" where
  "is_anonymous conn \<longleftrightarrow> se_username (session_of conn) = [] \<and> se_accounts (session_of conn) = []"

definition primary_account :: "('n, 'w) conn \<Rightarrow> str \<Rightarrow> 'n error + jid" where
  "primary_account conn capability =
     ok_or (resolve_primary_account (session_of conn) capability)
       (Protocol (''no primary account for '' @ capability))"

subsection \<open>Connecting\<close>

record builder =
  bd_rebase_urls_to_origin :: bool
  bd_max_rate_limit_retries :: nat
  bd_max_retry_after :: duration
  bd_id_budget :: id_budget

definition connect ::
  "(str \<Rightarrow> str) \<Rightarrow> ('n, 'w) env \<Rightarrow> builder \<Rightarrow> str \<Rightarrow> credentials \<Rightarrow> 'w net
   \<Rightarrow> ('n error + unit) \<times> ('n, 'w) conn" where
  "connect base64 env builder origin0 credentials net =
     (let base = trim_end_chars (\<lambda>c. c = CHR ''/'') origin0
      in refresh_session env
        \<lparr>cn_client =
           \<lparr>cl_authorization = authorization_header base64 credentials,
            cl_session_url = base @ ''/.well-known/jmap'', cl_session = None,
            cl_next_call_id = 0, cl_last_session_state = None,
            cl_rebase_origin = (if bd_rebase_urls_to_origin builder then Some base else None),
            cl_rebase_note = None,
            cl_max_rate_limit_retries = bd_max_rate_limit_retries builder,
            cl_max_retry_after = bd_max_retry_after builder, cl_id_budget = bd_id_budget builder,
            cl_request_limit = parse_limit None, cl_upload_limit = parse_limit None\<rparr>,
         cn_net = net\<rparr>)"

definition domain_origin :: "(str \<times> nat) option \<Rightarrow> str \<Rightarrow> str" where
  "domain_origin srv domain =
     (case Option.bind srv (\<lambda>(host, port). valid_srv_target host port) of
        Some (host, port) \<Rightarrow>
          if port = 443 then ''https://'' @ host else ''https://'' @ host @ '':'' @ dec port
      | None \<Rightarrow> ''https://'' @ domain)"

definition connect_domain ::
  "(str \<Rightarrow> str) \<Rightarrow> ('n, 'w) env \<Rightarrow> builder \<Rightarrow> (str \<times> nat) option \<Rightarrow> str \<Rightarrow> credentials \<Rightarrow> 'w net
   \<Rightarrow> ('n error + unit) \<times> ('n, 'w) conn" where
  "connect_domain base64 env builder srv domain credentials net =
     connect base64 env builder (domain_origin srv domain) credentials net"

subsection \<open>Where the credentials go\<close>

text \<open>
  The environment of a client on top of \<open>ureq_execute\<close>: any environment, with the HTTP library recorded.
  \<open>credentials_stay\<close> says what an operation may do: the session URL stays, and every exchange with an
  \<^verbatim>\<open>Authorization\<close> header goes to the origin of the session URL, over TLS if that URL uses TLS.
\<close>

definition over_ureq :: "'w send \<Rightarrow> ('n, 'w) env \<Rightarrow> ('n, 'w \<times> exchange list) env" where
  "over_ureq send env =
     \<lparr>en_as_u64 = en_as_u64 env,
      en_transport = ureq_execute (\<lambda>w. en_cancelled env (fst w)) (recorded send),
      en_cancelled = (\<lambda>w. en_cancelled env (fst w)),
      en_acquire = (\<lambda>limit w. case en_acquire env limit (fst w) of (c, w') \<Rightarrow> (c, (w', snd w))),
      en_sleep = (\<lambda>d w. case en_sleep env d (fst w) of (c, w') \<Rightarrow> (c, (w', snd w))),
      en_to_vec = en_to_vec env, en_to_string = en_to_string env, en_session = en_session env,
      en_response = en_response env, en_problem = en_problem env,
      en_method_error = en_method_error env\<rparr>"

definition guarded_exchange :: "str \<Rightarrow> exchange \<Rightarrow> bool" where
  "guarded_exchange session_url e \<longleftrightarrow>
     (carries_authorization (ex_headers e) \<longrightarrow>
        same_origin session_url (ex_url e) \<and> (on_tls session_url \<longrightarrow> on_tls (ex_url e)))"

definition wire :: "('n, 'w \<times> exchange list) conn \<Rightarrow> exchange list" where
  "wire conn = snd (net_world (cn_net conn))"

definition credentials_stay ::
  "('n, 'w \<times> exchange list) conn \<Rightarrow> ('n, 'w \<times> exchange list) conn \<Rightarrow> bool" where
  "credentials_stay conn conn' \<longleftrightarrow>
     cl_session_url (cn_client conn') = cl_session_url (cn_client conn)
     \<and> (\<exists>new. wire conn' = wire conn @ new
          \<and> list_all (guarded_exchange (cl_session_url (cn_client conn))) new)"

interpretation cred: io_relation credentials_stay
proof unfold_locales
  show "credentials_stay s s" for s :: "('n, 'w \<times> exchange list) conn"
    by (simp add: credentials_stay_def)
  show "credentials_stay s u" if a: "credentials_stay s t" "credentials_stay t u"
    for s t u :: "('n, 'w \<times> exchange list) conn"
  proof -
    obtain new new' where "wire t = wire s @ new" "wire u = wire t @ new'"
      "list_all (guarded_exchange (cl_session_url (cn_client s))) new"
      "list_all (guarded_exchange (cl_session_url (cn_client s))) new'"
      using a by (auto simp: credentials_stay_def)
    then show ?thesis
      using a by (auto simp: credentials_stay_def intro!: exI [of _ "new @ new'"])
  qed
qed

lemma request_headers_authorization:
  "carries_authorization (request_headers client url content_type accept) \<Longrightarrow>
   same_origin (cl_session_url client) url \<and> (on_tls url \<or> is_loopback url)"
  by (auto simp: request_headers_def carries_authorization_def eq_ignore_ascii_case_def
      to_ascii_lowercase_def to_ascii_lower_def less_eq_char_def split: option.splits if_splits)

lemma safe_exchange_guarded:
  assumes "safe_exchange request e"
    "carries_authorization (hq_headers request) \<Longrightarrow> same_origin url (hq_url request)"
  shows "guarded_exchange url e"
  using assms same_origin_tls unfolding safe_exchange_def guarded_exchange_def same_origin_def by metis

lemma execute_within_credentials:
  fixes env :: "('n, 'w) env"
  shows "io_within credentials_stay
     (execute_within (over_ureq send env) meth url body content_type accept max_bytes)"
  unfolding io_within_def
proof
  fix conn :: "('n, 'w \<times> exchange list) conn"
  let ?env = "over_ureq send env" and ?client = "cn_client conn"
  obtain c w where a: "en_acquire env (cl_request_limit ?client) (fst (net_world (cn_net conn))) = (c, w)"
    by (rule prod.exhaust)
  define request where "request = \<lparr>hq_method = meth, hq_url = url,
    hq_headers = request_headers ?client url content_type accept, hq_body = body,
    hq_max_response_bytes = max_bytes\<rparr>"
  define net where "net = (cn_net conn)\<lparr>net_world := (w, wire conn), net_retry_after := None\<rparr>"
  have ex: "snd (execute_within ?env meth url body content_type accept max_bytes conn) =
     (if en_cancelled env (fst (net_world (cn_net conn))) then conn
      else if c then conn\<lparr>cn_net := (cn_net conn)\<lparr>net_world := (w, wire conn)\<rparr>\<rparr>
      else conn\<lparr>cn_net := snd (en_transport ?env request net)\<rparr>)"
    by (simp add: execute_within_def over_ureq_def a Let_def request_def net_def wire_def split: prod.splits)
  obtain new where n: "snd (net_world (snd (en_transport ?env request net))) = wire conn @ new"
    "list_all (safe_exchange request) new"
    using redirects_safe [of "\<lambda>w. en_cancelled env (fst w)" send request net]
    by (auto simp: over_ureq_def net_def)
  have "carries_authorization (hq_headers request) \<Longrightarrow> same_origin (cl_session_url ?client) (hq_url request)"
    using request_headers_authorization by (auto simp: request_def)
  with n(2) have "list_all (guarded_exchange (cl_session_url ?client)) new"
    using safe_exchange_guarded unfolding list_all_iff by blast
  then show "credentials_stay conn (snd (execute_within ?env meth url body content_type accept max_bytes conn))"
    unfolding ex using n(1) by (auto simp: credentials_stay_def wire_def)
qed

lemma credentials_step:
  "credentials_stay s t \<Longrightarrow> io_within credentials_stay m \<Longrightarrow> credentials_stay s (snd (m t))"
  using cred.R_trans by (auto simp: io_within_def)

lemma sleep_credentials: "io_within credentials_stay (sleep_with_cancel (over_ureq send env) d)"
  by (auto simp: io_within_def sleep_with_cancel_def over_ureq_def Let_def credentials_stay_def wire_def
      split: prod.splits)

subsection \<open>Lemmas on backoff\<close>

lemma compute_backoff_le: "compute_backoff m r a \<le> m"
  by (simp add: compute_backoff_def Let_def split: option.splits)

lemma compute_backoff_exact:
  assumes "1 \<le> a" "a \<le> 56"
  shows "compute_backoff m None a = min (from_millis (500 * 2 ^ (a - 1))) m"
proof -
  have "(2::nat) ^ (a - 1) \<le> 2 ^ 55" using assms by (intro power_increasing) auto
  then have "500 * (2::nat) ^ (a - 1) < 2 ^ 64" by simp
  then have "(500 * (2::nat) ^ (a - 1)) mod 2 ^ 64 = 500 * 2 ^ (a - 1)" by (rule mod_less)
  moreover have "a - 1 < 64" using assms by simp
  ultimately show ?thesis by (simp only: compute_backoff_def Let_def option.case if_True)
qed

lemma compute_backoff_63: "compute_backoff m None 63 = 0"
  by (simp add: compute_backoff_def Let_def from_millis_def)

subsection \<open>Lemmas on the session\<close>

lemma check_endpoints_Ok:
  "check_endpoints session_url session = Ok () \<longleftrightarrow>
   list_all (\<lambda>(_, endpoint). may_carry_credentials session_url endpoint) (session_endpoints session)"
  by (auto simp: check_endpoints_def session_endpoints_def split: option.splits)

lemma refresh_session_Ok:
  assumes "refresh_session env conn = (Inr (), conn')"
  shows "\<exists>session. cl_session (cn_client conn') = Some session
    \<and> cl_last_session_state (cn_client conn') = Some (se_state session)
    \<and> list_all (\<lambda>(_, endpoint). may_carry_credentials (cl_session_url (cn_client conn')) endpoint)
        (session_endpoints session)"
  using assms unfolding refresh_session_def io_bind_Inr_iff
  by (auto simp: Let_def check_endpoints_Ok [symmetric] split: if_splits sum.splits option.splits)

subsection \<open>A sample environment\<close>

text \<open>A server that answers every request with one session or one response; it serves the examples.\<close>

definition sample_session :: "nat session" where
  "sample_session =
     \<lparr>se_capabilities = [], se_accounts = [], se_primary_accounts = [], se_username = ''u'',
      se_api_url = ''https://a/api'', se_download_url = ''https://a/d'',
      se_upload_url = ''https://a/u'', se_event_source_url = [], se_state = ''5'', se_extra = []\<rparr>"

definition sample_response :: "jstate \<Rightarrow> nat response" where
  "sample_response new_state =
     \<lparr>rs_method_responses =
        [\<lparr>iv_name = ''Core/echo'', iv_arguments = Bool True, iv_call_id = ''c0''\<rparr>],
      rs_created_ids = None, rs_session_state = new_state\<rparr>"

definition sample_env :: "nat session \<Rightarrow> nat response \<Rightarrow> (nat, unit) env" where
  "sample_env session response =
     \<lparr>en_as_u64 = Some,
      en_transport = (\<lambda>request net.
        (Ok \<lparr>hr_status = 200, hr_content_type = None, hr_body = [],
            hr_final_url = hq_url request\<rparr>, net)),
      en_cancelled = (\<lambda>_. False), en_acquire = (\<lambda>_ w. (False, w)), en_sleep = (\<lambda>_ w. (False, w)),
      en_to_vec = (\<lambda>_. Ok []), en_to_string = (\<lambda>text. Ok (''q'' @ text)),
      en_session = (\<lambda>_. Ok session), en_response = (\<lambda>_. Ok response), en_problem = (\<lambda>_. None),
      en_method_error = (\<lambda>_. Err [])\<rparr>"

definition sample_conn :: "jstate option \<Rightarrow> (nat, unit) conn" where
  "sample_conn last_state =
     \<lparr>cn_client =
        \<lparr>cl_authorization = Some ''Bearer t'', cl_session_url = ''https://a/.well-known/jmap'',
         cl_session = Some sample_session, cl_next_call_id = 0, cl_last_session_state = last_state,
         cl_rebase_origin = None, cl_rebase_note = None, cl_max_rate_limit_retries = 3,
         cl_max_retry_after = 30000000000, cl_id_budget = per_sync, cl_request_limit = 4,
         cl_upload_limit = 4\<rparr>,
      cn_net = \<lparr>net_world = (), net_retry_after = None\<rparr>\<rparr>"

subsection \<open>Properties\<close>






end
