(* ===== verification/Client_Calls.thy ===== *)
theory Client_Calls
  imports Client_Http
begin

text \<open>
  The method calls of \<^verbatim>\<open>jmap-client/src/client.rs\<close>: the API request with its retries
  (\<open>api_call\<close>), the validation of the answer, a single method call (\<open>single_call\<close>), and the reading of
  objects in chunks that respect the limits of the server (\<open>chunked_get_custom\<close>).
\<close>

subsection \<open>Idempotent methods\<close>

definition is_method_idempotent :: "str \<Rightarrow> bool" where
  "is_method_idempotent meth =
     (let name = (case rsplit_once (CHR ''/'') meth of Some (_, m) \<Rightarrow> m | None \<Rightarrow> meth)
      in name \<in> set [''get'', ''query'', ''changes'', ''queryChanges'', ''echo'', ''getAvailability''])"

definition is_request_idempotent :: "'n request \<Rightarrow> bool" where
  "is_request_idempotent request \<longleftrightarrow>
     rq_method_calls request \<noteq> []
     \<and> list_all (\<lambda>call. is_method_idempotent (iv_name call)) (rq_method_calls request)"

definition next_call_id :: "'n client \<Rightarrow> str \<times> 'n client" where
  "next_call_id client =
     (''c'' @ dec (cl_next_call_id client),
      client\<lparr>cl_next_call_id := (cl_next_call_id client + 1) mod 2 ^ 64\<rparr>)"

subsection \<open>Validation of an answer\<close>

definition validate_session_state :: "jstate \<Rightarrow> 'n client \<Rightarrow> ('n error + unit) \<times> 'n client" where
  "validate_session_state response_state client =
     (case cl_last_session_state client of
        Some prev \<Rightarrow>
          (case (parse_unsigned U64_MAX response_state, parse_unsigned U64_MAX prev) of
             (Some curr_num, Some prev_num) \<Rightarrow>
               if curr_num < prev_num
               then (Err (Protocol (''session state regressed backwards: '' @ dec curr_num @ '' < ''
                       @ dec prev_num)), client)
               else (Ok (), client\<lparr>cl_last_session_state := Some response_state\<rparr>)
           | _ \<Rightarrow> (Ok (), client\<lparr>cl_last_session_state := Some response_state\<rparr>))
      | None \<Rightarrow> (Ok (), client\<lparr>cl_last_session_state := Some response_state\<rparr>))"

fun first_duplicate :: "str list \<Rightarrow> str list \<Rightarrow> str option" where
  "first_duplicate seen [] = None"
| "first_duplicate seen (x # xs) = (if x \<in> set seen then Some x else first_duplicate (x # seen) xs)"

definition validate_method_responses :: "'n request \<Rightarrow> 'n response \<Rightarrow> 'n error + unit" where
  "validate_method_responses request response =
     (let req_ids = map iv_call_id (rq_method_calls request);
          resp_ids = map iv_call_id (rs_method_responses response)
      in case find (\<lambda>x. x \<notin> set req_ids) resp_ids of
           Some x \<Rightarrow> Err (Protocol (''unexpected method response call id '' @ x @ '' not in request''))
         | None \<Rightarrow>
             (case first_duplicate [] resp_ids of
                Some x \<Rightarrow> Err (Protocol (''duplicate method response call id '' @ x))
              | None \<Rightarrow>
                  (case find (\<lambda>(req, resp). req \<noteq> resp) (zip req_ids resp_ids) of
                     Some (req, resp) \<Rightarrow>
                       Err (Protocol (''method responses out of order: expected '' @ req
                         @ '', got '' @ resp))
                   | None \<Rightarrow> Ok ())))"

definition validate_response ::
  "'n request \<Rightarrow> 'n response \<Rightarrow> (('n, 'w) conn, 'n error, unit) io" where
  "validate_response request response conn =
     (case validate_session_state (rs_session_state response) (cn_client conn) of
        (Inl e, _) \<Rightarrow> (Err e, conn)
      | (Inr _, client) \<Rightarrow> (validate_method_responses request response, conn\<lparr>cn_client := client\<rparr>))"

subsection \<open>The API request\<close>

function api_call_loop ::
  "('n, 'w) env \<Rightarrow> 'n request \<Rightarrow> str \<Rightarrow> str \<Rightarrow> nat \<Rightarrow> nat \<Rightarrow> (('n, 'w) conn, 'n error, 'n response) io" where
  "api_call_loop env request api_url body max_attempts attempt conn =
     (case execute env Post api_url (Some body) conn of
        (Inr response, conn') \<Rightarrow>
          (case en_response env (hr_body response) of
             Inl message \<Rightarrow> (Err (Json message), conn')
           | Inr parsed \<Rightarrow>
               io_bind (validate_response request parsed) (\<lambda>_. io_lift (Ok parsed)) conn')
      | (Inl err, conn') \<Rightarrow>
          (case err of
             Http status problem \<Rightarrow>
               if status = 429
               then
                 let retry_after = observed_or_hint conn'
                       (Option.bind problem (extract_problem_retry_after (en_as_u64 env)))
                 in if is_request_idempotent request \<and> attempt < max_attempts
                    then io_bind
                      (sleep_with_cancel env
                        (compute_backoff (cl_max_retry_after (cn_client conn')) retry_after attempt))
                      (\<lambda>_. api_call_loop env request api_url body max_attempts (attempt + 1)) conn'
                    else
                      (Err (RateLimited retry_after
                         (map_option iv_name
                           (find (\<lambda>c. \<not> is_method_idempotent (iv_name c)) (rq_method_calls request)))
                         problem), conn')
               else (Err err, conn')
           | _ \<Rightarrow> (Err err, conn')))"
  by pat_completeness auto
termination
  by (relation "measure (\<lambda>(_, _, _, _, max_attempts, attempt, _). max_attempts - attempt)") auto

declare api_call_loop.simps [simp del]

definition api_call :: "('n, 'w) env \<Rightarrow> 'n request \<Rightarrow> (('n, 'w) conn, 'n error, 'n response) io" where
  "api_call env request conn =
     (case en_to_vec env request of
        Inl message \<Rightarrow> (Err (Json message), conn)
      | Inr body \<Rightarrow>
          (case max_size_request (en_as_u64 env) (session_of conn) of
             Some limit \<Rightarrow>
               if length body > limit then (Err (RequestTooLarge (length body) limit), conn)
               else api_call_loop env request (se_api_url (session_of conn)) body
                      (if is_request_idempotent request
                       then max (cl_max_rate_limit_retries (cn_client conn)) 1 else 1) 1 conn
           | None \<Rightarrow>
               api_call_loop env request (se_api_url (session_of conn)) body
                 (if is_request_idempotent request
                  then max (cl_max_rate_limit_retries (cn_client conn)) 1 else 1) 1 conn))"

subsection \<open>A single method call\<close>

definition single_request ::
  "str list \<Rightarrow> str \<Rightarrow> 'n json \<Rightarrow> (jid \<times> jid) list \<Rightarrow> str \<Rightarrow> 'n request" where
  "single_request using_caps meth arguments created_ids call_id =
     (let request = request_call meth arguments call_id (request_new using_caps)
      in if created_ids = [] then request else with_created_ids created_ids request)"

function single_call_loop ::
  "('n, 'w) env \<Rightarrow> str list \<Rightarrow> str \<Rightarrow> 'n json \<Rightarrow> (jid \<times> jid) list \<Rightarrow> str \<Rightarrow> nat \<Rightarrow> nat
   \<Rightarrow> (('n, 'w) conn, 'n error, 'n json) io" where
  "single_call_loop env using_caps meth arguments created_ids call_id max_attempts attempt conn =
     io_bind (api_call env (single_request using_caps meth arguments created_ids call_id))
       (\<lambda>response conn'.
          case responses_for response call_id of
            [] \<Rightarrow> (Err (Protocol (''no response for call id '' @ call_id)), conn')
          | invocation # _ \<Rightarrow>
              if is_error invocation
              then (case en_method_error env (iv_arguments invocation) of
                      Inl message \<Rightarrow> (Err (Json message), conn')
                    | Inr method_error \<Rightarrow>
                        if mer_error_type method_error = ''limit''
                        then
                          let retry_after = observed_or_hint conn'
                                (extract_method_retry_after (en_as_u64 env) method_error)
                          in if is_method_idempotent meth \<and> attempt < max_attempts
                             then io_bind
                               (sleep_with_cancel env
                                 (compute_backoff (cl_max_retry_after (cn_client conn'))
                                   retry_after attempt))
                               (\<lambda>_. single_call_loop env using_caps meth arguments created_ids
                                      call_id max_attempts (attempt + 1)) conn'
                             else (Err (RateLimited retry_after (Some meth) None), conn')
                        else (Err (Method method_error), conn'))
              else if iv_name invocation \<noteq> meth
              then (Err (Protocol (''expected response to '' @ meth @ '', got ''
                      @ iv_name invocation)), conn')
              else (Ok (iv_arguments invocation), conn'))
       conn"
  by pat_completeness auto
termination
  by (relation "measure (\<lambda>(_, _, _, _, _, _, max_attempts, attempt, _). max_attempts - attempt)") auto

declare single_call_loop.simps [simp del]

definition single_call_inner ::
  "('n, 'w) env \<Rightarrow> str list \<Rightarrow> str \<Rightarrow> 'n json \<Rightarrow> (jid \<times> jid) list \<Rightarrow> str
   \<Rightarrow> (('n, 'w) conn, 'n error, 'n json) io" where
  "single_call_inner env using_caps meth arguments created_ids call_id conn =
     single_call_loop env using_caps meth arguments created_ids call_id
       (if is_method_idempotent meth then max (cl_max_rate_limit_retries (cn_client conn)) 1 else 1)
       1 conn"

definition single_call_with_created_ids ::
  "('n, 'w) env \<Rightarrow> str list \<Rightarrow> str \<Rightarrow> 'n json \<Rightarrow> (jid \<times> jid) list \<Rightarrow> (('n, 'w) conn, 'n error, 'n json) io" where
  "single_call_with_created_ids env using_caps meth arguments created_ids conn =
     (case next_call_id (cn_client conn) of
        (call_id, client) \<Rightarrow>
          single_call_inner env using_caps meth arguments created_ids call_id
            (conn\<lparr>cn_client := client\<rparr>))"

definition single_call ::
  "('n, 'w) env \<Rightarrow> str list \<Rightarrow> str \<Rightarrow> 'n json \<Rightarrow> (('n, 'w) conn, 'n error, 'n json) io" where
  "single_call env using_caps meth arguments =
     single_call_with_created_ids env using_caps meth arguments []"

definition unwrap_invocation ::
  "('n, 'w) env \<Rightarrow> 'n invocation \<Rightarrow> str \<Rightarrow> 'n error + 'n json" where
  "unwrap_invocation env invocation meth =
     (if is_error invocation
      then (case en_method_error env (iv_arguments invocation) of
              Inl message \<Rightarrow> Err (Json message)
            | Inr e \<Rightarrow> Err (Method e))
      else if iv_name invocation \<noteq> meth
      then Err (Protocol (''expected response to '' @ meth @ '', got '' @ iv_name invocation))
      else Ok (iv_arguments invocation))"

definition takes_calls_in_one_request :: "('n, 'w) env \<Rightarrow> ('n, 'w) conn \<Rightarrow> nat \<Rightarrow> bool" where
  "takes_calls_in_one_request env conn calls =
     (case max_calls_in_request (en_as_u64 env) (session_of conn) of
        None \<Rightarrow> True
      | Some limit \<Rightarrow> calls \<le> limit)"

subsection \<open>What every call does to the connection\<close>

text \<open>
  A relation on connections that one exchange, a wait and the bookkeeping of the client respect is
  respected by every call.
\<close>

locale client_relation = io_relation R
  for R :: "('n, 'w) conn \<Rightarrow> ('n, 'w) conn \<Rightarrow> bool" +
  fixes env :: "('n, 'w) env"
  assumes R_execute: "io_within R (execute_within env meth url body content_type accept max_bytes)"
    and R_sleep: "io_within R (sleep_with_cancel env d)"
    and R_bookkeeping: "R conn (conn\<lparr>cn_client := (cn_client conn)\<lparr>cl_next_call_id := k,
        cl_last_session_state := last_state\<rparr>\<rparr>)"
begin

lemma step: "R s t \<Longrightarrow> io_within R m \<Longrightarrow> R s (snd (m t))"
  using R_trans by (metis io_within_def)

lemma after: "io_within R m \<Longrightarrow> m s = (r, u) \<Longrightarrow> R s u"
  by (metis io_within_def snd_conv)

lemma retry:
  assumes "R s t" "\<And>u. R u (snd (again u))"
  shows "R s (snd (io_bind (sleep_with_cancel env d) (\<lambda>_. again) t))"
  using assms(2) by (intro step [OF assms(1)] within_bind R_sleep) (simp add: io_within_def)

lemma within_execute: "io_within R (execute env meth url body)"
  unfolding execute_def [abs_def] by (rule R_execute)

lemma within_idempotent_loop:
  "R conn (snd (execute_idempotent_loop env meth url body content_type accept max_bytes max_attempts
     attempt conn))"
proof (induction "max_attempts - attempt" arbitrary: attempt conn rule: less_induct)
  case less
  obtain x conn' where e: "execute_within env meth url body content_type accept max_bytes conn = (x, conn')"
    by (rule prod.exhaust)
  note r = after [OF R_execute e]
  have IH: "attempt < max_attempts \<Longrightarrow> R u (snd (execute_idempotent_loop env meth url body content_type
      accept max_bytes max_attempts (attempt + 1) u))" for u
    by (rule less) simp
  show ?case
    using r retry [OF r IH]
    by (subst execute_idempotent_loop.simps) (auto simp: e Let_def split: sum.splits error.splits)
qed

lemma within_execute_idempotent:
  "io_within R (execute_idempotent_within env meth url body content_type accept max_bytes)"
  by (simp add: io_within_def execute_idempotent_within_def within_idempotent_loop)

lemma within_validate: "io_within R (validate_response request response)"
proof -
  have "R conn (conn\<lparr>cn_client := (cn_client conn)\<lparr>cl_last_session_state := s\<rparr>\<rparr>)" for conn s
    using R_bookkeeping [where conn = conn and k = "cl_next_call_id (cn_client conn)" and last_state = s]
    by simp
  then show ?thesis
    using R_refl
    by (auto simp: io_within_def validate_response_def validate_session_state_def
        split: prod.splits option.splits sum.splits)
qed

lemma within_api_call_loop:
  "R conn (snd (api_call_loop env request api_url body max_attempts attempt conn))"
proof (induction "max_attempts - attempt" arbitrary: attempt conn rule: less_induct)
  case less
  obtain x conn' where e: "execute env Post api_url (Some body) conn = (x, conn')"
    by (rule prod.exhaust)
  note r = after [OF within_execute e]
  have IH: "attempt < max_attempts \<Longrightarrow> R u (snd (api_call_loop env request api_url body max_attempts
      (attempt + 1) u))" for u
    by (rule less) simp
  have v: "R conn (snd (io_bind (validate_response request parsed) (\<lambda>_. io_lift (Ok parsed)) conn'))" for parsed
    by (intro step [OF r] within_bind within_validate within_lift)
  show ?case
    using r v retry [OF r IH]
    by (subst api_call_loop.simps) (auto simp: e Let_def split: sum.splits error.splits)
qed

lemma within_api_call: "io_within R (api_call env request)"
  using within_api_call_loop R_refl
  by (auto simp: io_within_def api_call_def split: sum.splits option.splits)

lemma within_single_call_loop:
  "R conn (snd (single_call_loop env using_caps meth arguments created_ids call_id max_attempts attempt conn))"
proof (induction "max_attempts - attempt" arbitrary: attempt conn rule: less_induct)
  case less
  let ?call = "api_call env (single_request using_caps meth arguments created_ids call_id)"
  obtain x conn' where e: "?call conn = (x, conn')"
    by (rule prod.exhaust)
  note r = after [OF within_api_call e]
  have IH: "attempt < max_attempts \<Longrightarrow> R u (snd (single_call_loop env using_caps meth arguments
      created_ids call_id max_attempts (attempt + 1) u))" for u
    by (rule less) simp
  show ?case
    using r retry [OF r IH]
    by (subst single_call_loop.simps, subst io_bind_def)
      (auto simp: e Let_def split: sum.splits list.splits)
qed

lemma within_single_call_with_created_ids:
  "io_within R (single_call_with_created_ids env using_caps meth arguments created_ids)"
proof -
  have "R conn (conn\<lparr>cn_client := (cn_client conn)\<lparr>cl_next_call_id := k\<rparr>\<rparr>)" for conn k
    using R_bookkeeping [where conn = conn and k = k and last_state = "cl_last_session_state (cn_client conn)"]
    by simp
  then show ?thesis
    using within_single_call_loop R_trans
    by (auto simp: io_within_def single_call_with_created_ids_def next_call_id_def single_call_inner_def) blast+
qed

lemma within_single_call: "io_within R (single_call env using_caps meth arguments)"
  unfolding single_call_def [abs_def] by (rule within_single_call_with_created_ids)

end

interpretation cred: client_relation credentials_stay "over_ureq send env" for send env
  by unfold_locales
    (simp_all add: execute_within_credentials sleep_credentials credentials_stay_def wire_def)

definition settings_of :: "('n, 'w) conn \<Rightarrow> 'n client" where
  "settings_of conn = (cn_client conn)\<lparr>cl_next_call_id := 0, cl_last_session_state := None\<rparr>"

definition same_settings :: "('n, 'w) conn \<Rightarrow> ('n, 'w) conn \<Rightarrow> bool" where
  "same_settings conn conn' \<longleftrightarrow> settings_of conn' = settings_of conn"

lemma execute_within_client:
  "cn_client (snd (execute_within env meth url body content_type accept max_bytes conn)) = cn_client conn"
  by (simp add: execute_within_def Let_def split: prod.splits bool.splits)

lemma sleep_client: "cn_client (snd (sleep_with_cancel env d conn)) = cn_client conn"
  by (simp add: sleep_with_cancel_def Let_def split: prod.splits)

interpretation settings: client_relation same_settings env for env
  by unfold_locales
    (simp_all add: same_settings_def settings_of_def io_within_def execute_within_client sleep_client)

definition attempts :: "('n, 'w) conn \<Rightarrow> nat" where
  "attempts conn = max (cl_max_rate_limit_retries (cn_client conn)) 1"

lemma same_settings_attempts: "same_settings s t \<Longrightarrow> attempts t = attempts s"
  unfolding same_settings_def settings_of_def attempts_def
  by (drule arg_cong [where f = cl_max_rate_limit_retries]) simp

lemma same_settings_session: "same_settings s t \<Longrightarrow> session_of t = session_of s"
  unfolding same_settings_def settings_of_def session_of_def
  by (drule arg_cong [where f = cl_session]) simp

subsection \<open>How often a call is sent\<close>

definition counting :: "('n, 'w) env \<Rightarrow> ('n, 'w \<times> http_request list) env" where
  "counting env =
     \<lparr>en_as_u64 = en_as_u64 env,
      en_transport = (\<lambda>request net.
        case en_transport env request
               \<lparr>net_world = fst (net_world net), net_retry_after = net_retry_after net\<rparr> of
          (r, net') \<Rightarrow>
            (r, \<lparr>net_world = (net_world net', snd (net_world net) @ [request]),
                 net_retry_after = net_retry_after net'\<rparr>)),
      en_cancelled = (\<lambda>w. en_cancelled env (fst w)),
      en_acquire = (\<lambda>limit w. case en_acquire env limit (fst w) of (c, w') \<Rightarrow> (c, (w', snd w))),
      en_sleep = (\<lambda>d w. case en_sleep env d (fst w) of (c, w') \<Rightarrow> (c, (w', snd w))),
      en_to_vec = en_to_vec env, en_to_string = en_to_string env, en_session = en_session env,
      en_response = en_response env, en_problem = en_problem env,
      en_method_error = en_method_error env\<rparr>"

definition sent :: "('n, 'w \<times> http_request list) conn \<Rightarrow> nat" where
  "sent conn = length (snd (net_world (cn_net conn)))"

lemma execute_sent: "sent (snd (execute (counting env) meth url body conn)) \<le> sent conn + 1"
  by (auto simp: execute_def execute_within_def counting_def sent_def Let_def split: prod.splits bool.splits)

lemma sleep_sent: "sent (snd (sleep_with_cancel (counting env) d conn)) = sent conn"
  by (auto simp: sleep_with_cancel_def counting_def sent_def Let_def split: prod.splits)

lemma validate_sent: "sent (snd (validate_response request response conn)) = sent conn"
  by (auto simp: validate_response_def sent_def split: prod.splits sum.splits)

lemma bind_sent:
  assumes "sent (snd (m conn)) \<le> n" "\<And>x conn'. m conn = (Inr x, conn') \<Longrightarrow> sent (snd (f x conn')) \<le> n"
  shows "sent (snd (io_bind m f conn)) \<le> n"
  using assms by (auto simp: io_bind_def split: prod.splits sum.splits)

lemma retry_sent:
  assumes "\<And>u. sent u = sent conn \<Longrightarrow> same_settings conn u \<Longrightarrow> sent (snd (again u)) \<le> n" "sent conn \<le> n"
  shows "sent (snd (io_bind (sleep_with_cancel (counting env) d) (\<lambda>_. again) conn)) \<le> n"
proof (rule bind_sent)
  fix x conn' assume "sleep_with_cancel (counting env) d conn = (Inr x, conn')"
  then show "sent (snd (again conn')) \<le> n"
    using assms(1) sleep_sent [of env d conn] settings.after [OF settings.R_sleep] by fastforce
qed (simp add: sleep_sent assms(2))

lemma api_call_loop_sent:
  assumes "attempt \<le> max_attempts"
  shows "sent (snd (api_call_loop (counting env) request api_url body max_attempts attempt conn))
    \<le> sent conn + (if is_request_idempotent request then max_attempts + 1 - attempt else 1)"
  using assms
proof (induction "max_attempts - attempt" arbitrary: attempt conn rule: less_induct)
  case less
  obtain x conn' where e: "execute (counting env) Post api_url (Some body) conn = (x, conn')"
    by (rule prod.exhaust)
  let ?n = "sent conn + (if is_request_idempotent request then max_attempts + 1 - attempt else 1)"
  have c: "sent conn' \<le> sent conn + 1" using execute_sent [of env Post api_url "Some body" conn] e by simp
  then have n: "sent conn' \<le> ?n" using less.prems by (simp split: if_split) linarith
  have v: "sent (snd (io_bind (validate_response request parsed) (\<lambda>_. io_lift (Ok parsed)) conn')) \<le> ?n" for parsed
    using n by (intro bind_sent) (auto simp: validate_sent io_lift_def dest: arg_cong [where f = "sent \<circ> snd"])
  have r: "sent (snd (io_bind (sleep_with_cancel (counting env) d)
      (\<lambda>_. api_call_loop (counting env) request api_url body max_attempts (attempt + 1)) conn')) \<le> ?n"
    if "is_request_idempotent request" "attempt < max_attempts" for d
  proof (rule retry_sent [OF _ n])
    fix u :: "('a, 'b \<times> http_request list) conn" assume u: "sent u = sent conn'"
    from less.hyps [of "attempt + 1" u] that
    have "sent (snd (api_call_loop (counting env) request api_url body max_attempts (attempt + 1) u))
        \<le> sent u + (max_attempts - attempt)" by simp
    then show "sent (snd (api_call_loop (counting env) request api_url body max_attempts (attempt + 1) u)) \<le> ?n"
      using u c that by simp
  qed
  show ?case
    using n v r by (subst api_call_loop.simps) (auto simp: e Let_def split: sum.splits error.splits)
qed

lemma api_call_sent:
  "sent (snd (api_call (counting env) request conn))
   \<le> sent conn + (if is_request_idempotent request then attempts conn else 1)"
  using api_call_loop_sent [of 1 1 env request "se_api_url (session_of conn)" _ conn]
    api_call_loop_sent [of 1 "attempts conn" env request "se_api_url (session_of conn)" _ conn]
  by (auto simp: api_call_def attempts_def le_max_iff_disj split: sum.splits option.splits)

lemma single_request_idempotent:
  "is_request_idempotent (single_request using_caps meth arguments created_ids call_id)
   \<longleftrightarrow> is_method_idempotent meth"
  by (simp add: is_request_idempotent_def single_request_def request_call_def request_new_def
      with_created_ids_def Let_def)

lemma single_call_loop_sent:
  assumes "attempt \<le> max_attempts"
  shows "sent (snd (single_call_loop (counting env) using_caps meth arguments created_ids call_id
      max_attempts attempt conn))
    \<le> sent conn + (if is_method_idempotent meth then (max_attempts + 1 - attempt) * attempts conn else 1)"
  using assms
proof (induction "max_attempts - attempt" arbitrary: attempt conn rule: less_induct)
  case less
  let ?call = "api_call (counting env) (single_request using_caps meth arguments created_ids call_id)"
  let ?loop = "single_call_loop (counting env) using_caps meth arguments created_ids call_id max_attempts"
  let ?n = "sent conn + (if is_method_idempotent meth then (max_attempts + 1 - attempt) * attempts conn else 1)"
  obtain x conn' where e: "?call conn = (x, conn')" by (rule prod.exhaust)
  have c: "sent conn' \<le> sent conn + (if is_method_idempotent meth then attempts conn else 1)"
    using api_call_sent [of env "single_request using_caps meth arguments created_ids call_id" conn] e
    by (simp add: single_request_idempotent split: if_splits)
  have a: "attempts conn' = attempts conn"
    by (rule same_settings_attempts [OF settings.after [OF settings.within_api_call e]])
  have s: "(max_attempts + 1 - attempt) * attempts conn
      = attempts conn + (max_attempts - attempt) * attempts conn"
    using less.prems by (simp add: Suc_diff_le)
  then have n: "sent conn' \<le> ?n" using c by (simp split: if_splits)
  have r: "sent (snd (io_bind (sleep_with_cancel (counting env) d) (\<lambda>_. ?loop (attempt + 1)) conn')) \<le> ?n"
    if i: "is_method_idempotent meth" "attempt < max_attempts" for d
  proof (rule retry_sent [OF _ n])
    fix u :: "('a, 'b \<times> http_request list) conn"
    assume u: "sent u = sent conn'" "same_settings conn' u"
    from less.hyps [of "attempt + 1" u] i
    have "sent (snd (?loop (attempt + 1) u)) \<le> sent u + (max_attempts - attempt) * attempts u" by simp
    then show "sent (snd (?loop (attempt + 1) u)) \<le> ?n"
      using u c i s a same_settings_attempts [OF u(2)] by simp
  qed
  show ?case
    using n r by (subst single_call_loop.simps, subst io_bind_def)
      (auto simp: e Let_def split: sum.splits list.splits)
qed

lemma single_call_sent:
  "sent (snd (single_call_with_created_ids (counting env) using_caps meth arguments created_ids conn))
   \<le> sent conn + (if is_method_idempotent meth then attempts conn * attempts conn else 1)"
proof -
  let ?conn = "conn\<lparr>cn_client := snd (next_call_id (cn_client conn))\<rparr>"
  have "sent ?conn = sent conn" "attempts ?conn = attempts conn"
    by (simp_all add: sent_def attempts_def next_call_id_def)
  then show ?thesis
    using single_call_loop_sent [of 1 "attempts conn" env using_caps meth arguments created_ids _ ?conn]
      single_call_loop_sent [of 1 1 env using_caps meth arguments created_ids _ ?conn]
    by (auto simp: single_call_with_created_ids_def next_call_id_def single_call_inner_def attempts_def
        le_max_iff_disj)
qed

subsection \<open>Accepted answers\<close>

lemma first_duplicate_None: "first_duplicate seen xs = None \<longleftrightarrow> distinct xs \<and> set xs \<inter> set seen = {}"
  by (induction seen xs rule: first_duplicate.induct) auto

lemma zip_equal_prefix:
  "list_all (\<lambda>(a, b). a = b) (zip xs ys) \<longleftrightarrow> prefix xs ys \<or> prefix ys xs"
  by (induction xs ys rule: list_induct2') auto

lemma validate_ids:
  fixes req resp :: "str list"
  assumes "distinct req"
  shows "find (\<lambda>x. x \<notin> set req) resp = None \<and> first_duplicate [] resp = None
      \<and> find (\<lambda>(a, b). a \<noteq> b) (zip req resp) = None \<longleftrightarrow> prefix resp req"
proof -
  have sub: "find (\<lambda>x. x \<notin> set req) resp = None \<longleftrightarrow> set resp \<subseteq> set req"
    by (auto simp: find_None_iff)
  have zip: "find (\<lambda>(a, b). a \<noteq> b) (zip req resp) = None \<longleftrightarrow> prefix req resp \<or> prefix resp req"
    unfolding zip_equal_prefix [symmetric] by (auto simp: find_None_iff list_all_iff)
  have "resp = req" if p: "prefix req resp" "set resp \<subseteq> set req" "distinct resp"
  proof -
    obtain zs where z: "resp = req @ zs" using p(1) by (auto simp: prefix_def)
    then show ?thesis using p(2,3) by (cases zs) auto
  qed
  then show ?thesis
    using assms unfolding sub zip first_duplicate_None by (auto simp: prefix_def)
qed

lemma validate_method_responses_Ok:
  assumes "distinct (map iv_call_id (rq_method_calls request))"
  shows "validate_method_responses request response = Ok () \<longleftrightarrow>
    prefix (map iv_call_id (rs_method_responses response)) (map iv_call_id (rq_method_calls request))"
  unfolding validate_ids [OF assms, symmetric] validate_method_responses_def Let_def
  by (simp split: option.split prod.split)

lemma api_call_loop_Ok:
  assumes "api_call_loop env request api_url body max_attempts attempt conn = (Inr response, conn')"
  shows "\<exists>conn1. cn_client conn1 = cn_client conn \<and> validate_response request response conn1 = (Inr (), conn')"
  using assms
proof (induction "max_attempts - attempt" arbitrary: attempt conn rule: less_induct)
  case less
  obtain x conn1 where e: "execute env Post api_url (Some body) conn = (x, conn1)"
    by (rule prod.exhaust)
  have c: "cn_client conn1 = cn_client conn"
    using execute_within_client [of env Post api_url "Some body"] e
    unfolding execute_def by (metis snd_conv)
  have IH: ?case if "sleep_with_cancel env d conn1 = (Inr y, t)" "attempt < max_attempts"
    "api_call_loop env request api_url body max_attempts (attempt + 1) t = (Inr response, conn')" for d y t
    using less.hyps [of "attempt + 1" t] that sleep_client [of env d conn1] c by auto
  show ?case
    using less.prems c IH
    by (subst (asm) api_call_loop.simps)
      (auto simp: e Let_def io_bind_Inr_iff io_lift_def split: sum.splits error.splits if_splits)
qed

lemma api_call_Ok:
  assumes "api_call env request conn = (Inr response, conn')"
  shows "\<exists>conn1. cn_client conn1 = cn_client conn \<and> validate_response request response conn1 = (Inr (), conn')"
  using assms api_call_loop_Ok by (fastforce simp: api_call_def split: sum.splits option.splits if_splits)

definition state_regresses :: "jstate option \<Rightarrow> jstate \<Rightarrow> bool" where
  "state_regresses prev current \<longleftrightarrow>
     (case (Option.bind prev (parse_unsigned U64_MAX), parse_unsigned U64_MAX current) of
        (Some p, Some c) \<Rightarrow> c < p
      | _ \<Rightarrow> False)"

lemma validate_response_Ok:
  assumes "validate_response request response conn = (Inr (), conn')"
  shows "validate_method_responses request response = Ok ()"
    "cl_last_session_state (cn_client conn') = Some (rs_session_state response)"
    "\<not> state_regresses (cl_last_session_state (cn_client conn)) (rs_session_state response)"
  using assms
  by (auto simp: validate_response_def validate_session_state_def state_regresses_def
      split: option.splits prod.splits if_splits sum.splits)

lemma refresh_session_credentials:
  "credentials_stay conn (snd (refresh_session (over_ureq send env) conn))"
proof -
  obtain x conn1 where e: "execute_idempotent_within (over_ureq send env) Get (cl_session_url (cn_client conn))
      None None ''application/json'' MAX_API_RESPONSE_BYTES conn = (x, conn1)"
    by (rule prod.exhaust)
  have r: "credentials_stay conn conn1" by (rule cred.after [OF cred.within_execute_idempotent e])
  have "credentials_stay conn (conn1\<lparr>cn_client := client\<rparr>)"
    if "cl_session_url client = cl_session_url (cn_client conn1)" for client
    using r that by (simp add: credentials_stay_def wire_def)
  then show ?thesis
    using r by (auto simp: refresh_session_def io_bind_def e Let_def split: sum.splits option.splits)
qed

subsection \<open>Properties\<close>

text \<open>
  C1. Whatever the servers answer, a session refresh and a method call send the \<^verbatim>\<open>Authorization\<close> header
  only to the origin of the session URL, and only over TLS when that URL uses TLS; redirects and
  retries are included.
\<close>
theorem credentials_guarded:
  "credentials_stay conn (snd (refresh_session (over_ureq send env) conn))
   \<and> credentials_stay conn
       (snd (single_call_with_created_ids (over_ureq send env) using_caps meth arguments created_ids conn))"
  by (simp add: refresh_session_credentials
      cred.within_single_call_with_created_ids [unfolded io_within_def, rule_format])

text \<open>
  C28. A method call that is not idempotent reaches the transport at most once. An idempotent call is
  retried: each of the at most \<open>attempts\<close> calls may be retried \<open>attempts\<close> times under HTTP 429.
\<close>
theorem single_call_attempts:
  "sent (snd (single_call_with_created_ids (counting env) using_caps meth arguments created_ids conn))
   \<le> sent conn + (if is_method_idempotent meth then attempts conn * attempts conn else 1)"
  by (rule single_call_sent)

text \<open>
  C29. An answer is accepted only if its call ids are the first call ids of the request in their order,
  its session state is not numerically smaller than the last one, and the client then holds that
  state.
\<close>
theorem api_call_accepts:
  assumes "distinct (map iv_call_id (rq_method_calls request))"
    "api_call env request conn = (Inr response, conn')"
  shows "prefix (map iv_call_id (rs_method_responses response)) (map iv_call_id (rq_method_calls request))
    \<and> \<not> state_regresses (cl_last_session_state (cn_client conn)) (rs_session_state response)
    \<and> cl_last_session_state (cn_client conn') = Some (rs_session_state response)"
proof -
  obtain conn1 where "cn_client conn1 = cn_client conn" "validate_response request response conn1 = (Inr (), conn')"
    using api_call_Ok [OF assms(2)] by blast
  with validate_response_Ok [OF this(2)] validate_method_responses_Ok [OF assms(1)] show ?thesis by auto
qed

theorem api_call_accepts_witness:
  "prefix (map iv_call_id (rs_method_responses (sample_response ''7'')))
     (map iv_call_id (rq_method_calls (single_request [] ''Core/echo'' Null [] ''c0'')))
   \<and> \<not> state_regresses (Some ''5'') ''7''
   \<and> cl_last_session_state
       (cn_client (snd (api_call (sample_env sample_session (sample_response ''7''))
          (single_request [] ''Core/echo'' Null [] ''c0'') (sample_conn (Some ''5''))))) = Some ''7''"
proof -
  let ?request = "single_request [] ''Core/echo'' Null [] ''c0'' :: nat request"
  have "api_call (sample_env sample_session (sample_response ''7'')) ?request (sample_conn (Some ''5''))
      = (Inr (sample_response ''7''),
         snd (api_call (sample_env sample_session (sample_response ''7'')) ?request (sample_conn (Some ''5''))))"
    by (simp add: api_call_def sample_env_def sample_conn_def sample_session_def sample_response_def
        session_of_def max_size_request_def core_limit_def api_call_loop.simps execute_def
        execute_within_def check_response_def Let_def io_bind_def io_lift_def validate_response_def
        validate_session_state_def validate_method_responses_def single_request_def request_call_def
        request_new_def parse_eval U64_MAX_def)
  from api_call_accepts [OF _ this] show ?thesis
    by (simp add: single_request_def request_call_def request_new_def Let_def sample_response_def
        sample_conn_def)
qed

end
