(* ===== verification/Client_Get.thy ===== *)
theory Client_Get
  imports Client_Calls
begin

text \<open>
  Reading objects with \<^verbatim>\<open>Foo/get\<close> (\<^verbatim>\<open>jmap-client/src/client.rs\<close>): how many ids fit one request
  (\<open>ids_that_fit\<close>), the loop over chunks (\<open>chunked_get_custom\<close>), and the filter on the answer
  (\<open>keep_requested\<close>). The request builder \<open>make_req\<close> and the reader \<open>extract\<close> of the source are
  arguments, with the JSON conversion that goes with them.
\<close>

subsection \<open>Definitions\<close>

fun keep_from :: "bool \<Rightarrow> ('a \<Rightarrow> jid option) \<Rightarrow> jid list \<Rightarrow> 'a list \<Rightarrow> 'a list" where
  "keep_from kept_one_without_id id_of requested [] = []"
| "keep_from kept_one_without_id id_of requested (x # xs) =
     (case id_of x of
        Some i \<Rightarrow>
          if i \<in> set requested then x # keep_from kept_one_without_id id_of requested xs
          else keep_from kept_one_without_id id_of requested xs
      | None \<Rightarrow>
          if kept_one_without_id then keep_from True id_of requested xs
          else x # keep_from True id_of requested xs)"

definition keep_requested :: "('a \<Rightarrow> jid option) \<Rightarrow> jid list \<Rightarrow> 'a list \<Rightarrow> 'a list" where
  "keep_requested id_of requested xs = keep_from False id_of requested xs"

fun fit_from :: "('n, 'w) env \<Rightarrow> nat \<Rightarrow> nat \<Rightarrow> nat \<Rightarrow> jid list \<Rightarrow> 'n error + nat" where
  "fit_from env limit taken used [] = Ok taken"
| "fit_from env limit taken used (x # xs) =
     (case en_to_string env x of
        Inl message \<Rightarrow> Err (Json message)
      | Inr text \<Rightarrow>
          let cost = length text + (if taken > 0 then 1 else 0)
          in if used + cost > limit
             then (if taken = 0 then Err (RequestTooLarge (used + cost) limit) else Ok taken)
             else fit_from env limit (taken + 1) (used + cost) xs)"

definition ids_that_fit ::
  "('n, 'w) env \<Rightarrow> str list \<Rightarrow> str \<Rightarrow> 'n json \<Rightarrow> jid list \<Rightarrow> str \<Rightarrow> nat \<Rightarrow> 'n error + nat" where
  "ids_that_fit env using_caps meth empty_req ids call_id limit =
     (case en_to_vec env (request_call meth empty_req call_id (request_new using_caps)) of
        Inl message \<Rightarrow> Err (Json message)
      | Inr text \<Rightarrow>
          if length text > limit then Err (RequestTooLarge (length text) limit)
          else fit_from env limit 0 (length text) ids)"

definition usable_object_limit :: "nat option \<Rightarrow> nat option" where
  "usable_object_limit limit =
     (case limit of Some m \<Rightarrow> if m \<le> USIZE_MAX \<and> 0 < m then Some m else None | None \<Rightarrow> None)"

text \<open>
  The source computes the usable limit once, before its loop. It depends on the session only, so
  \<open>chunk_size\<close> takes the raw limit and applies the same filter.
\<close>

definition chunk_size ::
  "('n, 'w) env \<Rightarrow> str list \<Rightarrow> str \<Rightarrow> 'n json \<Rightarrow> nat option \<Rightarrow> nat option \<Rightarrow> jid list \<Rightarrow> str
   \<Rightarrow> 'n error + nat" where
  "chunk_size env using_caps meth empty_req limit max_objects rest call_id =
     res_bind
       (case limit of
          Some limit \<Rightarrow> ids_that_fit env using_caps meth empty_req rest call_id limit
        | None \<Rightarrow> Ok (length rest))
       (\<lambda>n. Ok (case usable_object_limit max_objects of Some m \<Rightarrow> min n m | None \<Rightarrow> n))"

type_synonym 'i answer = "'i list \<times> jid list \<times> jstate option \<times> jid"

definition merge_answer ::
  "('i \<Rightarrow> jid option) \<Rightarrow> jid list \<Rightarrow> 'i answer \<Rightarrow> 'i get_response option \<Rightarrow> 'i get_response" where
  "merge_answer id_of chunk answer combined =
     (case answer of
        (objects, not_found, new_state, account_id) \<Rightarrow>
          let objects = keep_requested id_of chunk objects;
              not_found = keep_requested Some chunk not_found
          in (case combined of
                None \<Rightarrow>
                  with_not_found not_found
                    (get_response_new account_id (case new_state of Some s \<Rightarrow> s | None \<Rightarrow> []) objects)
              | Some c \<Rightarrow>
                  c\<lparr>gr_list := gr_list c @ objects, gr_not_found := gr_not_found c @ not_found,
                    gr_state := (case new_state of Some s \<Rightarrow> s | None \<Rightarrow> gr_state c)\<rparr>))"

definition get_chunk ::
  "('n, 'w) env \<Rightarrow> str list \<Rightarrow> str \<Rightarrow> (jid list \<Rightarrow> 'n json) \<Rightarrow> ('n json \<Rightarrow> str + 'i answer)
   \<Rightarrow> ('i \<Rightarrow> jid option) \<Rightarrow> jid list \<Rightarrow> 'i get_response option
   \<Rightarrow> (('n, 'w) conn, 'n error, 'i get_response) io" where
  "get_chunk env using_caps meth make_req extract id_of chunk combined =
     io_bind (single_call env using_caps meth (make_req chunk)) (\<lambda>arguments.
     io_bind (io_lift (map_err Json (extract arguments))) (\<lambda>answer.
     io_lift (Ok (merge_answer id_of chunk answer combined))))"

lemma fit_from_taken: "fit_from env limit taken used xs = Inr n \<Longrightarrow> taken \<le> n"
  by (induction xs arbitrary: taken used)
    (fastforce simp: Let_def split: sum.splits if_splits dest: Suc_leD)+

lemma fit_from_pos: "fit_from env limit 0 used xs = Inr n \<Longrightarrow> xs \<noteq> [] \<Longrightarrow> 0 < n"
  by (cases xs) (auto simp: Let_def split: sum.splits if_splits dest!: fit_from_taken)

lemma chunk_size_pos:
  assumes "chunk_size env using_caps meth empty_req limit max_objects rest call_id = Inr n"
    "rest \<noteq> []"
  shows "0 < n"
  using assms
  by (auto simp: chunk_size_def res_bind_Inr_iff ids_that_fit_def usable_object_limit_def dest: fit_from_pos
      split: option.splits sum.splits if_splits)

function chunked_get_loop ::
  "('n, 'w) env \<Rightarrow> str list \<Rightarrow> str \<Rightarrow> (jid list \<Rightarrow> 'n json) \<Rightarrow> ('n json \<Rightarrow> str + 'i answer)
   \<Rightarrow> ('i \<Rightarrow> jid option) \<Rightarrow> nat option \<Rightarrow> nat option \<Rightarrow> jid list \<Rightarrow> 'i get_response option
   \<Rightarrow> (('n, 'w) conn, 'n error, 'i get_response) io" where
  "chunked_get_loop env using_caps meth make_req extract id_of limit max_objects rest combined conn =
     (case chunk_size env using_caps meth (make_req []) limit max_objects rest
             (''c'' @ dec (cl_next_call_id (cn_client conn))) of
        Inl e \<Rightarrow> (Err e, conn)
      | Inr n \<Rightarrow>
          io_bind (get_chunk env using_caps meth make_req extract id_of (take n rest) combined)
            (\<lambda>combined'.
               if drop n rest = [] then io_lift (Ok combined')
               else chunked_get_loop env using_caps meth make_req extract id_of limit max_objects
                      (drop n rest) (Some combined')) conn)"
  by pat_completeness auto
termination
  by (relation "measure (\<lambda>(_, _, _, _, _, _, _, _, rest, _). length rest)")
    (auto dest!: chunk_size_pos)

declare chunked_get_loop.simps [simp del]

definition chunked_get_custom ::
  "('n, 'w) env \<Rightarrow> str list \<Rightarrow> str \<Rightarrow> jid list \<Rightarrow> (jid list \<Rightarrow> 'n json) \<Rightarrow> ('n json \<Rightarrow> str + 'i answer)
   \<Rightarrow> ('i \<Rightarrow> jid option) \<Rightarrow> (('n, 'w) conn, 'n error, 'i get_response) io" where
  "chunked_get_custom env using_caps meth ids make_req extract id_of conn =
     (let limit = max_size_request (en_as_u64 env) (session_of conn);
          max_objects = max_objects_in_get (en_as_u64 env) (session_of conn)
      in chunked_get_loop env using_caps meth make_req extract id_of limit max_objects ids None conn)"

definition get_request_for :: "jid \<Rightarrow> jid list \<Rightarrow> str list option \<Rightarrow> get_request" where
  "get_request_for account_id ids properties =
     (get_request_ids account_id ids)\<lparr>gq_properties := properties\<rparr>"

definition get_chunked ::
  "('n, 'w) env \<Rightarrow> (get_request \<Rightarrow> 'n json) \<Rightarrow> ('n json \<Rightarrow> str + 'i get_response) \<Rightarrow> str list \<Rightarrow> str \<Rightarrow> jid
   \<Rightarrow> jid list \<Rightarrow> str list option \<Rightarrow> ('i \<Rightarrow> jid option) \<Rightarrow> (('n, 'w) conn, 'n error, 'i get_response) io" where
  "get_chunked env to_value from_value using_caps meth account_id ids properties id_of =
     chunked_get_custom env using_caps meth ids
       (\<lambda>chunk. to_value (get_request_for account_id chunk properties))
       (\<lambda>arguments. res_bind (from_value arguments) (\<lambda>resp.
          Ok (gr_list resp, gr_not_found resp, Some (gr_state resp), gr_account_id resp)))
       id_of"

subsection \<open>The plan of a chunked get\<close>

text \<open>
  \<open>run_chunks\<close> is the specification of the loop: it sends given chunks one after the other.
  \<open>ids_size\<close> is the size of a compact JSON list of ids without its brackets.
\<close>

fun run_chunks ::
  "('n, 'w) env \<Rightarrow> str list \<Rightarrow> str \<Rightarrow> (jid list \<Rightarrow> 'n json) \<Rightarrow> ('n json \<Rightarrow> str + 'i answer)
   \<Rightarrow> ('i \<Rightarrow> jid option) \<Rightarrow> 'i get_response option \<Rightarrow> jid list \<Rightarrow> jid list list
   \<Rightarrow> (('n, 'w) conn, 'n error, 'i get_response) io" where
  "run_chunks env using_caps meth make_req extract id_of combined c [] =
     get_chunk env using_caps meth make_req extract id_of c combined"
| "run_chunks env using_caps meth make_req extract id_of combined c (d # ds) =
     io_bind (get_chunk env using_caps meth make_req extract id_of c combined)
       (\<lambda>r. run_chunks env using_caps meth make_req extract id_of (Some r) d ds)"

fun ids_size :: "('n, 'w) env \<Rightarrow> bool \<Rightarrow> jid list \<Rightarrow> nat" where
  "ids_size env first [] = 0"
| "ids_size env first (x # xs) =
     (case en_to_string env x of Inl _ \<Rightarrow> 0 | Inr text \<Rightarrow> length text)
     + (if first then 0 else 1) + ids_size env False xs"

lemma keep_from_requested:
  "x \<in> set (keep_from k id_of requested xs) \<Longrightarrow> id_of x = Some i \<Longrightarrow> i \<in> set requested"
  by (induction xs arbitrary: k) (auto split: option.splits if_splits)

lemma keep_from_one_without_id:
  "length (filter (\<lambda>x. id_of x = None) (keep_from k id_of requested xs)) \<le> (if k then 0 else 1)"
proof (induction xs arbitrary: k)
  case (Cons x xs)
  from Cons.IH [of True] Cons.IH [of False] show ?case by (auto split: option.splits)
qed simp

lemma keep_from_complete:
  "filter (\<lambda>x. id_of x \<noteq> None) (keep_from k id_of requested xs)
   = filter (\<lambda>x. \<exists>i \<in> set requested. id_of x = Some i) xs"
  by (induction xs arbitrary: k) (auto split: option.splits if_splits)

lemma ids_size_take_mono: "m \<le> n \<Longrightarrow> ids_size env first (take m xs) \<le> ids_size env first (take n xs)"
proof (induction xs arbitrary: m n first)
  case (Cons x xs)
  then show ?case by (cases m; cases n) auto
qed simp

lemma fit_from_size:
  "fit_from env limit taken used xs = Inr n \<Longrightarrow> used \<le> limit
   \<Longrightarrow> used + ids_size env (taken = 0) (take (n - taken) xs) \<le> limit"
proof (induction xs arbitrary: taken used)
  case (Cons x xs)
  show ?case
  proof (cases "n = taken")
    case False
    with Cons.prems obtain t where t: "en_to_string env x = Inr t"
      and rec: "fit_from env limit (taken + 1) (used + (length t + (if taken > 0 then 1 else 0))) xs = Inr n"
      and room: "used + (length t + (if taken > 0 then 1 else 0)) \<le> limit"
      by (auto simp: Let_def split: sum.splits if_splits)
    from fit_from_taken [OF rec] have "n - taken = Suc (n - (taken + 1))" by simp
    with Cons.IH [OF rec room] t show ?thesis by (auto split: if_splits)
  qed (use Cons.prems in simp)
qed simp

lemma chunk_size_max:
  "chunk_size env using_caps meth empty_req limit max_objects rest call_id = Inr n
   \<Longrightarrow> usable_object_limit max_objects = Some m \<Longrightarrow> n \<le> m"
  by (auto simp: chunk_size_def res_bind_Inr_iff)

lemma chunked_get_loop_plan:
  "chunked_get_loop env using_caps meth make_req extract id_of limit max_objects rest combined conn = (Inr r, conn')
   \<Longrightarrow> \<exists>c cs. concat (c # cs) = rest \<and> (rest = [] \<or> [] \<notin> set (c # cs))
     \<and> (\<forall>m. usable_object_limit max_objects = Some m \<longrightarrow> (\<forall>d \<in> set (c # cs). length d \<le> m))
     \<and> run_chunks env using_caps meth make_req extract id_of combined c cs conn = (Inr r, conn')"
proof (induction "length rest" arbitrary: rest combined conn rule: less_induct)
  case less
  let ?get = "get_chunk env using_caps meth make_req extract id_of"
  obtain n where n: "chunk_size env using_caps meth (make_req []) limit max_objects rest
      (''c'' @ dec (cl_next_call_id (cn_client conn))) = Inr n"
    using less.prems by (subst (asm) chunked_get_loop.simps) (auto split: sum.splits)
  obtain r1 conn1 where first: "?get (take n rest) combined conn = (Inr r1, conn1)"
    and next_step: "(if drop n rest = [] then io_lift (Ok r1)
      else chunked_get_loop env using_caps meth make_req extract id_of limit max_objects (drop n rest) (Some r1)) conn1
      = (Inr r, conn')"
    using less.prems n by (subst (asm) chunked_get_loop.simps) (auto simp: io_bind_Inr_iff)
  have small: "\<forall>m. usable_object_limit max_objects = Some m \<longrightarrow> length (take n rest) \<le> m"
    using chunk_size_max [OF n] by (auto simp: min_le_iff_disj)
  show ?case
  proof (cases "drop n rest = []")
    case True
    with first next_step small show ?thesis
      by (intro exI [of _ "take n rest"] exI [of _ "[]"]) (auto simp: io_lift_def)
  next
    case False
    then have rest: "rest \<noteq> []" by auto
    with chunk_size_pos [OF n] have pos: "0 < n" by blast
    with rest have "length (drop n rest) < length rest" by simp
    note shorter = this
    from next_step False have "chunked_get_loop env using_caps meth make_req extract id_of limit max_objects
        (drop n rest) (Some r1) conn1 = (Inr r, conn')" by simp
    from less.hyps [OF shorter this] False obtain c cs where plan: "concat (c # cs) = drop n rest"
      "[] \<notin> set (c # cs)" "\<forall>m. usable_object_limit max_objects = Some m \<longrightarrow> (\<forall>d \<in> set (c # cs). length d \<le> m)"
      "run_chunks env using_caps meth make_req extract id_of (Some r1) c cs conn1 = (Inr r, conn')" by blast
    have "concat (take n rest # c # cs) = rest" using plan(1) by (metis append_take_drop_id concat.simps(2))
    with plan small rest pos first show ?thesis
      by (intro exI [of _ "take n rest"] exI [of _ "c # cs"]) (auto simp: io_bind_Inr_iff)
  qed
qed

lemma get_chunk_Ok:
  "get_chunk env using_caps meth make_req extract id_of chunk combined conn = (Inr r, conn')
   \<Longrightarrow> \<exists>answer. r = merge_answer id_of chunk answer combined"
  by (auto simp: get_chunk_def io_bind_Inr_iff io_lift_def)

definition holds_only :: "('i \<Rightarrow> jid option) \<Rightarrow> jid list \<Rightarrow> 'i get_response \<Rightarrow> bool" where
  "holds_only id_of ids r \<longleftrightarrow>
     list_all (\<lambda>x. case id_of x of Some i \<Rightarrow> i \<in> set ids | None \<Rightarrow> True) (gr_list r)
     \<and> set (gr_not_found r) \<subseteq> set ids"

lemma holds_only_merge:
  assumes "case combined of Some c \<Rightarrow> holds_only id_of ids c | None \<Rightarrow> True"
  shows "holds_only id_of (ids @ chunk) (merge_answer id_of chunk answer combined)"
  using assms
  by (auto simp: holds_only_def merge_answer_def keep_requested_def Let_def list_all_iff
      get_response_new_def with_not_found_def dest: keep_from_requested
      split: option.splits prod.splits)

lemma run_chunks_holds_only:
  "run_chunks env using_caps meth make_req extract id_of combined c cs conn = (Inr r, conn')
   \<Longrightarrow> case combined of Some d \<Rightarrow> holds_only id_of ids d | None \<Rightarrow> True
   \<Longrightarrow> holds_only id_of (ids @ concat (c # cs)) r"
proof (induction cs arbitrary: ids combined c conn)
  case Nil
  then show ?case by (auto dest!: get_chunk_Ok intro: holds_only_merge)
next
  case (Cons d ds)
  from Cons.prems(1) obtain r1 conn1 where
    "get_chunk env using_caps meth make_req extract id_of c combined conn = (Inr r1, conn1)"
    and rest: "run_chunks env using_caps meth make_req extract id_of (Some r1) d ds conn1 = (Inr r, conn')"
    by (auto simp: io_bind_Inr_iff)
  with Cons.prems(2) have "holds_only id_of (ids @ c) r1" by (auto dest!: get_chunk_Ok intro: holds_only_merge)
  with Cons.IH [OF rest, of "ids @ c"] show ?case by simp
qed

lemma chunk_size_fits:
  assumes "en_to_vec env (request_call meth empty_req call_id (request_new using_caps)) = Inr body"
    "chunk_size env using_caps meth empty_req (Some limit) max_objects rest call_id = Inr n"
  shows "length body + ids_size env True (take n rest) \<le> limit"
proof -
  from assms obtain k where "fit_from env limit 0 (length body) rest = Inr k" "length body \<le> limit" "n \<le> k"
    by (auto simp: chunk_size_def res_bind_Inr_iff ids_that_fit_def split: if_splits option.splits)
  with fit_from_size [of env limit 0 "length body" rest k] ids_size_take_mono [of n k env True rest]
  show ?thesis by simp
qed

subsection \<open>A sample server\<close>

text \<open>
  A server with \<^verbatim>\<open>maxObjectsInGet\<close> 2 that answers each call by its call id, and a writer that lists the
  ids of the arguments with commas; they serve the examples.
\<close>

definition echo_session :: "nat session" where
  "echo_session = sample_session\<lparr>se_capabilities :=
     [(CAPABILITY_CORE, Object [(''maxObjectsInGet'', Number 2)])]\<rparr>"

definition echo_conn :: "(nat, unit) conn" where
  "echo_conn = (sample_conn None)\<lparr>cn_client := (cn_client (sample_conn None))\<lparr>cl_session := Some echo_session\<rparr>\<rparr>"

definition echo_env :: "str \<Rightarrow> nat json \<Rightarrow> (nat, unit) env" where
  "echo_env meth arguments = (sample_env echo_session (sample_response ''5''))\<lparr>
     en_to_vec := (\<lambda>request. Ok (concat (map iv_call_id (rq_method_calls request)))),
     en_transport := (\<lambda>request net.
        (Ok \<lparr>hr_status = 200, hr_content_type = None,
            hr_body = (case hq_body request of Some body \<Rightarrow> body | None \<Rightarrow> []),
            hr_final_url = hq_url request\<rparr>, net)),
     en_response := (\<lambda>body. Ok \<lparr>rs_method_responses =
        [\<lparr>iv_name = meth, iv_arguments = arguments, iv_call_id = body\<rparr>],
        rs_created_ids = None, rs_session_state = ''5''\<rparr>)\<rparr>"

definition echo_at :: "nat \<Rightarrow> jstate option \<Rightarrow> (nat, unit) conn" where
  "echo_at k last_state = echo_conn\<lparr>cn_client := (cn_client echo_conn)\<lparr>cl_next_call_id := k,
     cl_last_session_state := last_state\<rparr>\<rparr>"

definition echo_response :: "str \<Rightarrow> nat json \<Rightarrow> str \<Rightarrow> nat response" where
  "echo_response meth arguments call_id =
     \<lparr>rs_method_responses = [\<lparr>iv_name = meth, iv_arguments = arguments, iv_call_id = call_id\<rparr>],
      rs_created_ids = None, rs_session_state = ''5''\<rparr>"

lemma echo_execute: "execute (echo_env meth arguments) m url (Some body) (echo_at k last_state) =
    (Inr \<lparr>hr_status = 200, hr_content_type = None, hr_body = body, hr_final_url = url\<rparr>, echo_at k last_state)"
  by (simp add: execute_def execute_within_def check_response_def Let_def map_err_def echo_env_def
      sample_env_def echo_at_def echo_conn_def sample_conn_def)

lemma echo_parse: "en_response (echo_env meth arguments) body = Inr (echo_response meth arguments body)"
  by (simp add: echo_env_def echo_response_def)

lemma echo_validate:
  assumes "last_state = None \<or> last_state = Some ''5''"
  shows "validate_response (single_request using_caps meth req [] call_id) (echo_response meth arguments call_id)
    (echo_at k last_state) = (Inr (), echo_at k (Some ''5''))"
  using assms
  by (auto simp: validate_response_def validate_session_state_def validate_method_responses_def
      echo_response_def single_request_def request_call_def request_new_def Let_def io_bind_def io_lift_def
      echo_at_def echo_conn_def sample_conn_def parse_eval U64_MAX_def)

lemma echo_api_call:
  assumes "last_state = None \<or> last_state = Some ''5''"
  shows "api_call (echo_env meth arguments) (single_request using_caps meth req [] call_id) (echo_at k last_state)
    = (Inr (echo_response meth arguments call_id), echo_at k (Some ''5''))"
proof -
  have "api_call_loop (echo_env meth arguments) (single_request using_caps meth req [] call_id) url call_id n a
      (echo_at k last_state) = (Inr (echo_response meth arguments call_id), echo_at k (Some ''5''))" for url n a
    by (subst api_call_loop.simps)
      (simp add: echo_execute echo_parse echo_validate [OF assms] io_bind_def io_lift_def)
  moreover have "en_to_vec (echo_env meth arguments) (single_request using_caps meth req [] call_id) = Inr call_id"
    by (simp add: echo_env_def single_request_def request_call_def request_new_def)
  moreover have "max_size_request (en_as_u64 (echo_env meth arguments)) (session_of (echo_at k last_state)) = None"
    by (simp add: max_size_request_def core_limit_def session_of_def echo_at_def echo_conn_def echo_session_def)
  ultimately show ?thesis by (simp add: api_call_def)
qed

lemma echo_single_call:
  assumes "last_state = None \<or> last_state = Some ''5''" "meth \<noteq> ''error''" "k < 9"
  shows "single_call (echo_env meth arguments) using_caps meth req (echo_at k last_state)
    = (Inr arguments, echo_at (k + 1) (Some ''5''))"
proof -
  have "next_call_id (cn_client (echo_at k last_state)) = (''c'' @ dec k, cn_client (echo_at (k + 1) last_state))"
    using assms(3) by (simp add: next_call_id_def echo_at_def)
  moreover have "(echo_at k last_state)\<lparr>cn_client := cn_client (echo_at (k + 1) last_state)\<rparr> = echo_at (k + 1) last_state"
    by (simp add: echo_at_def)
  moreover have "single_call_loop (echo_env meth arguments) using_caps meth req [] call_id n a (echo_at (k + 1) last_state)
      = (Inr arguments, echo_at (k + 1) (Some ''5''))" for call_id n a
    using assms(2) by (subst single_call_loop.simps)
      (simp add: io_bind_def echo_api_call [OF assms(1)] responses_for_def is_error_def echo_response_def)
  ultimately show ?thesis by (simp add: single_call_def single_call_with_created_ids_def single_call_inner_def)
qed

fun sample_ids :: "bool \<Rightarrow> nat json list \<Rightarrow> str" where
  "sample_ids first (String x # xs) = (if first then [] else '','') @ ''q'' @ x @ sample_ids False xs"
| "sample_ids first xs = []"

definition listing_env :: "(nat, unit) env" where
  "listing_env = (sample_env echo_session (sample_response ''5''))\<lparr>
     en_to_vec := (\<lambda>request. Ok (''{}'' @ concat (map (\<lambda>call.
        case iv_arguments call of Array xs \<Rightarrow> sample_ids True xs | _ \<Rightarrow> []) (rq_method_calls request))))\<rparr>"

lemma sample_ids_size: "length (sample_ids first (map String ids)) = ids_size listing_env first ids"
  by (induction ids arbitrary: first) (simp_all add: listing_env_def sample_env_def)

subsection \<open>Properties\<close>

text \<open>
  C7. A chunked get that succeeds has run a plan: the chunks are the requested ids in their order, cut
  so that no chunk is empty (one empty chunk asks for the state when there are no ids) and none is
  larger than \<^verbatim>\<open>maxObjectsInGet\<close>, and the result is that of sending these chunks one after the other.
\<close>
theorem chunked_get_plan:
  assumes "chunked_get_custom env using_caps meth ids make_req extract id_of conn = (Inr r, conn')"
  shows "\<exists>c cs. concat (c # cs) = ids \<and> (ids = [] \<or> [] \<notin> set (c # cs))
    \<and> (case usable_object_limit (max_objects_in_get (en_as_u64 env) (session_of conn)) of
         Some m \<Rightarrow> list_all (\<lambda>d. length d \<le> m) (c # cs) | None \<Rightarrow> True)
    \<and> run_chunks env using_caps meth make_req extract id_of None c cs conn = (Inr r, conn')"
proof -
  let ?m = "max_objects_in_get (en_as_u64 env) (session_of conn)"
  from chunked_get_loop_plan [OF assms [unfolded chunked_get_custom_def Let_def]] obtain c cs where
    plan: "concat (c # cs) = ids" "ids = [] \<or> [] \<notin> set (c # cs)"
      "run_chunks env using_caps meth make_req extract id_of None c cs conn = (Inr r, conn')"
    and small: "\<forall>m. usable_object_limit ?m = Some m \<longrightarrow> (\<forall>d \<in> set (c # cs). length d \<le> m)"
    by blast
  from small have "case usable_object_limit ?m of Some m \<Rightarrow> list_all (\<lambda>d. length d \<le> m) (c # cs) | None \<Rightarrow> True"
    by (cases "usable_object_limit ?m") (simp_all add: list_all_iff)
  with plan show ?thesis by blast
qed

definition echo_get :: "(nat, unit) conn \<Rightarrow> (nat error + jid get_response) \<times> (nat, unit) conn" where
  "echo_get = chunked_get_custom (echo_env ''F/get'' Null) [] ''F/get'' [''a'', ''b'', ''z'']
     (\<lambda>chunk. Array (map String chunk)) (\<lambda>_. Ok ([''a'', ''x'', ''z''], [''b'', ''y''], Some ''s'', ''A'')) Some"

lemma echo_get_chunk:
  assumes "last_state = None \<or> last_state = Some ''5''" "meth \<noteq> ''error''" "k < 9" "extract arguments = Inr answer"
  shows "get_chunk (echo_env meth arguments) using_caps meth make_req extract id_of chunk combined (echo_at k last_state)
    = (Inr (merge_answer id_of chunk answer combined), echo_at (k + 1) (Some ''5''))"
  using assms(4) by (simp add: get_chunk_def io_bind_def io_lift_def map_err_def echo_single_call [OF assms(1-3)])

lemma echo_limits:
  "max_size_request (en_as_u64 (echo_env meth arguments)) (session_of (echo_at k last_state)) = None"
  "max_objects_in_get (en_as_u64 (echo_env meth arguments)) (session_of (echo_at k last_state)) = Some 2"
  by (simp_all add: max_size_request_def max_objects_in_get_def core_limit_def session_of_def echo_at_def
      echo_conn_def echo_session_def echo_env_def sample_env_def)

lemma echo_get_Ok: "echo_get (echo_at 0 None) =
  (Inr \<lparr>gr_account_id = ''A'', gr_state = ''s'', gr_list = [''a'', ''z''], gr_not_found = [''b'']\<rparr>,
   echo_at 2 (Some ''5''))"
  unfolding echo_get_def chunked_get_custom_def Let_def echo_limits
  apply (subst chunked_get_loop.simps)
  apply (simp add: chunk_size_def usable_object_limit_def USIZE_MAX_def io_bind_def echo_get_chunk)
  apply (subst chunked_get_loop.simps)
  apply (simp add: chunk_size_def usable_object_limit_def USIZE_MAX_def io_bind_def io_lift_def echo_get_chunk
      merge_answer_def keep_requested_def get_response_new_def with_not_found_def numeral_2_eq_2)
  done

theorem chunked_get_plan_witness:
  "\<exists>c cs. concat (c # cs) = [''a'', ''b'', ''z''] \<and> [] \<notin> set (c # cs)
    \<and> list_all (\<lambda>d. length d \<le> 2) (c # cs)"
  using chunked_get_plan [OF echo_get_Ok [unfolded echo_get_def]]
  by (auto simp: echo_limits usable_object_limit_def USIZE_MAX_def)

text \<open>
  C26. A chunked get returns only what was asked for: every object with an id has a requested id, and
  the ids reported as not found are requested ids, whatever the server adds to its answers.
\<close>
theorem chunked_get_only_requested:
  assumes "chunked_get_custom env using_caps meth ids make_req extract id_of conn = (Inr r, conn')"
  shows "list_all (\<lambda>x. case id_of x of Some i \<Rightarrow> i \<in> set ids | None \<Rightarrow> True) (gr_list r)
    \<and> set (gr_not_found r) \<subseteq> set ids"
proof -
  from chunked_get_loop_plan [OF assms [unfolded chunked_get_custom_def Let_def]] obtain c cs where
    ids: "concat (c # cs) = ids"
    and run: "run_chunks env using_caps meth make_req extract id_of None c cs conn = (Inr r, conn')"
    by blast
  from run_chunks_holds_only [where ids = "[]", OF run] show ?thesis
    by (simp only: ids append_Nil option.case holds_only_def simp_thms)
qed

theorem chunked_get_only_requested_witness:
  "set [''a'', ''z''] \<subseteq> set [''a'', ''b'', ''z''] \<and> gr_list (projr (fst (echo_get (echo_at 0 None)))) = [''a'', ''z'']"
  using chunked_get_only_requested [OF echo_get_Ok [unfolded echo_get_def]] by (simp add: echo_get_Ok)

text \<open>
  C27. A chunk always fits: when the writer puts the ids into the request as a compact list, each with
  the size of its own JSON text and one octet per comma, the request for the chosen chunk is not
  larger than \<^verbatim>\<open>maxSizeRequest\<close>.
\<close>
theorem chunk_fits_request:
  assumes compact_ids: "\<And>ids. \<exists>body empty.
      en_to_vec env (single_request using_caps meth (make_req ids) [] call_id) = Inr body
      \<and> en_to_vec env (single_request using_caps meth (make_req []) [] call_id) = Inr empty
      \<and> length body = length empty + ids_size env True ids"
    and "chunk_size env using_caps meth (make_req []) (Some limit) max_objects rest call_id = Inr n"
  shows "\<exists>body. en_to_vec env (single_request using_caps meth (make_req (take n rest)) [] call_id) = Inr body
    \<and> length body \<le> limit"
proof -
  from compact_ids [of "take n rest"] obtain body empty where
    e: "en_to_vec env (single_request using_caps meth (make_req []) [] call_id) = Inr empty"
    and b: "en_to_vec env (single_request using_caps meth (make_req (take n rest)) [] call_id) = Inr body"
      "length body = length empty + ids_size env True (take n rest)" by blast
  from e have "en_to_vec env (request_call meth (make_req []) call_id (request_new using_caps)) = Inr empty"
    by (simp add: single_request_def)
  from chunk_size_fits [OF this assms(2)] b show ?thesis by simp
qed

theorem chunk_fits_request_witness:
  "\<exists>body. en_to_vec listing_env (single_request [] ''F/get'' (Array (map String [''aa'', ''b''])) [] ''c0'') = Inr body
    \<and> length body \<le> 9"
proof -
  have "chunk_size listing_env [] ''F/get'' (Array (map String [])) (Some 9) None [''aa'', ''b'', ''ccc''] ''c0'' = Inr 2"
    by (simp add: chunk_size_def usable_object_limit_def ids_that_fit_def numeral_2_eq_2 listing_env_def sample_env_def request_call_def request_new_def)
  from chunk_fits_request [where make_req = "\<lambda>ids. Array (map String ids)", OF _ this] show ?thesis
    by (simp add: sample_ids_size [symmetric])
      (simp add: listing_env_def single_request_def request_call_def request_new_def)
qed

end
