(* ===== verification/Client_Changes.thy ===== *)
theory Client_Changes
  imports Client_Get
begin

text \<open>
  Incremental synchronisation: \<^verbatim>\<open>Foo/changes\<close> over all pages (\<^verbatim>\<open>jmap-client/src/changes.rs\<close>) and
  \<^verbatim>\<open>Foo/query\<close> over all pages (\<^verbatim>\<open>jmap-client/src/query.rs\<close>), both under the id budget of one sync.
  The conversions between requests, responses and JSON are arguments. The page limits of the source
  are the structural recursion of the loops.
\<close>

subsection \<open>One page of changes\<close>

definition capability_of :: "str \<Rightarrow> str option" where
  "capability_of type_name =
     (if type_name \<in> {''Mailbox'', ''Email'', ''Thread''} then Some CAPABILITY_MAIL
      else if type_name \<in> {''AddressBook'', ''ContactCard''} then Some CAPABILITY_CONTACTS
      else if type_name \<in> {''Calendar'', ''CalendarEvent'', ''ParticipantIdentity'',
                           ''CalendarEventNotification''} then Some CAPABILITY_CALENDARS
      else if type_name \<in> {''EmailSubmission'', ''Identity''} then Some CAPABILITY_SUBMISSION
      else if type_name \<in> {''Principal'', ''ShareNotification''} then Some CAPABILITY_PRINCIPALS
      else if type_name = ''SieveScript'' then Some CAPABILITY_SIEVE
      else None)"

definition changes ::
  "('n, 'w) env \<Rightarrow> (changes_request \<Rightarrow> 'n json) \<Rightarrow> ('n json \<Rightarrow> str + changes_response) \<Rightarrow> jid \<Rightarrow> str
   \<Rightarrow> jstate \<Rightarrow> (('n, 'w) conn, 'n error, changes_response) io" where
  "changes env to_value from_value account_id type_name since_state =
     (case capability_of type_name of
        None \<Rightarrow> io_lift (Err (Protocol (''no known capability for data type '' @ type_name)))
      | Some capability \<Rightarrow>
          io_bind (single_call env [CAPABILITY_CORE, capability] (type_name @ ''/changes'')
                     (to_value (changes_request_new account_id since_state)))
            (\<lambda>arguments. io_lift (map_err Json (from_value arguments))))"

subsection \<open>The fold over the pages\<close>

record change_set =
  cs_new_state :: jstate
  cs_created :: "jid list"
  cs_updated :: "jid list"
  cs_destroyed :: "jid list"

definition nothing :: "jstate \<Rightarrow> change_set" where
  "nothing new_state = \<lparr>cs_new_state = new_state, cs_created = [], cs_updated = [], cs_destroyed = []\<rparr>"

definition is_empty :: "change_set \<Rightarrow> bool" where
  "is_empty cs \<longleftrightarrow> cs_created cs = [] \<and> cs_updated cs = [] \<and> cs_destroyed cs = []"

record disposition =
  di_created :: bool
  di_updated :: bool
  di_destroyed :: bool

definition no_disposition :: disposition where
  "no_disposition = \<lparr>di_created = False, di_updated = False, di_destroyed = False\<rparr>"

type_synonym dispositions = "(jid \<times> disposition) list"

text \<open>\<^verbatim>\<open>keep\<close> gives a mutable reference to the entry; here the update of that entry is an argument.\<close>

definition keep ::
  "str \<Rightarrow> (disposition \<Rightarrow> disposition) \<Rightarrow> jid \<Rightarrow> dispositions \<times> id_budget \<Rightarrow> 'n error + dispositions \<times> id_budget" where
  "keep type_name mark x st =
     (case st of (by_id, budget) \<Rightarrow>
        if bt_contains by_id x
        then Ok (bt_insert x (mark (the (map_of by_id x))) by_id, budget)
        else case charge x budget of
          (False, _) \<Rightarrow> Err (Protocol (type_name @ ''/changes reports more ids than the budget for one sync''))
        | (True, budget') \<Rightarrow> Ok (bt_insert x (mark no_disposition) by_id, budget'))"

fun keep_all ::
  "str \<Rightarrow> (disposition \<Rightarrow> disposition) \<Rightarrow> jid list \<Rightarrow> dispositions \<times> id_budget \<Rightarrow> 'n error + dispositions \<times> id_budget" where
  "keep_all type_name mark [] st = Ok st"
| "keep_all type_name mark (x # xs) st = res_bind (keep type_name mark x st) (keep_all type_name mark xs)"

definition keep_page :: "str \<Rightarrow> changes_response \<Rightarrow> dispositions \<times> id_budget \<Rightarrow> 'n error + dispositions \<times> id_budget" where
  "keep_page type_name response st =
     res_bind (keep_all type_name (di_created_update (\<lambda>_. True)) (cr_created response) st) (\<lambda>st.
     res_bind (keep_all type_name (di_updated_update (\<lambda>_. True)) (cr_updated response) st)
       (keep_all type_name (di_destroyed_update (\<lambda>_. True)) (cr_destroyed response)))"

definition classify_one :: "jid \<times> disposition \<Rightarrow> change_set \<Rightarrow> change_set" where
  "classify_one entry cs =
     (case entry of (x, d) \<Rightarrow>
        (case (di_created d, di_destroyed d) of
           (True, True) \<Rightarrow> cs
         | (True, False) \<Rightarrow> cs\<lparr>cs_created := insort_insert x (cs_created cs)\<rparr>
         | (False, True) \<Rightarrow> cs\<lparr>cs_destroyed := insort_insert x (cs_destroyed cs)\<rparr>
         | (False, False) \<Rightarrow>
             if di_updated d then cs\<lparr>cs_updated := insort_insert x (cs_updated cs)\<rparr> else cs))"

definition classify :: "jstate \<Rightarrow> dispositions \<Rightarrow> change_set" where
  "classify new_state by_id = fold classify_one by_id (nothing new_state)"

definition MAX_CHANGES_PAGES :: nat where
  "MAX_CHANGES_PAGES = 1024"

fun all_changes_loop ::
  "('n, 'w) env \<Rightarrow> (changes_request \<Rightarrow> 'n json) \<Rightarrow> ('n json \<Rightarrow> str + changes_response) \<Rightarrow> jid \<Rightarrow> str
   \<Rightarrow> nat \<Rightarrow> jstate \<Rightarrow> dispositions \<times> id_budget \<Rightarrow> (('n, 'w) conn, 'n error, change_set) io" where
  "all_changes_loop env to_value from_value account_id type_name 0 state st =
     io_lift (Err (Protocol (type_name @ ''/changes never stopped reporting more changes'')))"
| "all_changes_loop env to_value from_value account_id type_name (Suc n) state st =
     io_bind (changes env to_value from_value account_id type_name state) (\<lambda>response.
     io_bind (io_lift (keep_page type_name response st)) (\<lambda>st'.
       if \<not> cr_has_more_changes response then io_lift (Ok (classify (cr_new_state response) (fst st')))
       else if cr_new_state response = state
       then io_lift (Err (Protocol (type_name @ ''/changes reports more changes without advancing the state'')))
       else all_changes_loop env to_value from_value account_id type_name n (cr_new_state response) st'))"

definition all_changes ::
  "('n, 'w) env \<Rightarrow> (changes_request \<Rightarrow> 'n json) \<Rightarrow> ('n json \<Rightarrow> str + changes_response) \<Rightarrow> jid \<Rightarrow> str
   \<Rightarrow> jstate \<Rightarrow> (('n, 'w) conn, 'n error, change_set) io" where
  "all_changes env to_value from_value account_id type_name since_state conn =
     all_changes_loop env to_value from_value account_id type_name MAX_CHANGES_PAGES since_state
       ([], cl_id_budget (cn_client conn)) conn"

subsection \<open>Every id of a query\<close>

fun charge_all :: "jid list \<Rightarrow> id_budget \<Rightarrow> bool \<times> id_budget" where
  "charge_all [] budget = (True, budget)"
| "charge_all (x # xs) budget =
     (case charge x budget of (True, budget') \<Rightarrow> charge_all xs budget' | (False, budget') \<Rightarrow> (False, budget'))"

definition MAX_QUERY_PAGES :: nat where
  "MAX_QUERY_PAGES = 1024"

definition query_page_request :: "jid \<Rightarrow> 'f \<Rightarrow> comparator list option \<Rightarrow> nat \<Rightarrow> 'f query_request" where
  "query_page_request account_id query_filter sorting position =
     (query_request_new account_id)\<lparr>qq_filter := Some query_filter, qq_sort := sorting,
        qq_position := int position, qq_calculate_total := True\<rparr>"

definition query_page ::
  "('n, 'w) env \<Rightarrow> ('f query_request \<Rightarrow> 'n json) \<Rightarrow> ('n json \<Rightarrow> str + query_response) \<Rightarrow> str list \<Rightarrow> str
   \<Rightarrow> jid \<Rightarrow> 'f \<Rightarrow> comparator list option \<Rightarrow> nat \<Rightarrow> (('n, 'w) conn, 'n error, query_response) io" where
  "query_page env to_value from_value using_caps meth account_id query_filter sorting position =
     io_bind (single_call env using_caps meth
                (to_value (query_page_request account_id query_filter sorting position)))
       (\<lambda>arguments. io_lift (map_err Json (from_value arguments)))"

fun query_loop ::
  "('n, 'w) env \<Rightarrow> ('f query_request \<Rightarrow> 'n json) \<Rightarrow> ('n json \<Rightarrow> str + query_response) \<Rightarrow> str list \<Rightarrow> str
   \<Rightarrow> jid \<Rightarrow> 'f \<Rightarrow> comparator list option \<Rightarrow> nat \<Rightarrow> jid list \<Rightarrow> id_budget
   \<Rightarrow> (('n, 'w) conn, 'n error, jid list) io" where
  "query_loop env to_value from_value using_caps meth account_id query_filter sorting 0 ids budget =
     io_lift (Err (Protocol (meth @ '' never stopped reporting a limited answer'')))"
| "query_loop env to_value from_value using_caps meth account_id query_filter sorting (Suc n) ids budget =
     io_bind (query_page env to_value from_value using_caps meth account_id query_filter sorting
                (length ids)) (\<lambda>response.
       case charge_all (qr_ids response) budget of
         (False, _) \<Rightarrow> io_lift (Err (Protocol (meth @ '' reports more ids than the budget for one sync'')))
       | (True, budget') \<Rightarrow>
           let ids' = ids @ qr_ids response
           in if qr_limit response = None \<or> qr_ids response = []
              then io_lift
                (case qr_total response of
                   Some count \<Rightarrow>
                     if count \<noteq> length ids'
                     then Err (Protocol (meth @ '' gave '' @ dec (length ids')
                            @ '' ids, but reports a total of '' @ dec count))
                     else Ok ids'
                 | None \<Rightarrow> Ok ids')
              else query_loop env to_value from_value using_caps meth account_id query_filter sorting n
                     ids' budget')"

definition query_every_id ::
  "('n, 'w) env \<Rightarrow> ('f query_request \<Rightarrow> 'n json) \<Rightarrow> ('n json \<Rightarrow> str + query_response) \<Rightarrow> str list \<Rightarrow> str
   \<Rightarrow> jid \<Rightarrow> 'f \<Rightarrow> comparator list option \<Rightarrow> (('n, 'w) conn, 'n error, jid list) io" where
  "query_every_id env to_value from_value using_caps meth account_id query_filter sorting conn =
     query_loop env to_value from_value using_caps meth account_id query_filter sorting MAX_QUERY_PAGES
       [] (cl_id_budget (cn_client conn)) conn"

subsection \<open>The pages of a run\<close>

text \<open>
  A run of pages: each page is the answer to \<^verbatim>\<open>Foo/changes\<close> from the state of the page before; all but
  the last report more changes and advance the state.
\<close>

inductive page_run :: "(jstate \<Rightarrow> 's \<Rightarrow> (('e + changes_response) \<times> 's)) \<Rightarrow> jstate \<Rightarrow> changes_response list \<Rightarrow> 's \<Rightarrow> 's \<Rightarrow> bool"
  for ask where
  last_page: "ask state s = (Inr p, s') \<Longrightarrow> \<not> cr_has_more_changes p \<Longrightarrow> page_run ask state [p] s s'"
| more_pages: "ask state s = (Inr p, s1) \<Longrightarrow> cr_has_more_changes p \<Longrightarrow> cr_new_state p \<noteq> state
    \<Longrightarrow> page_run ask (cr_new_state p) ps s1 s' \<Longrightarrow> page_run ask state (p # ps) s s'"

definition disp :: "dispositions \<Rightarrow> jid \<Rightarrow> disposition" where
  "disp by_id x = (case map_of by_id x of Some d \<Rightarrow> d | None \<Rightarrow> no_disposition)"

definition spent :: "dispositions \<times> id_budget \<Rightarrow> nat \<times> nat" where
  "spent st = (length (fst st) + bu_ids (snd st), sum_list (map length (bt_keys (fst st))) + bu_bytes (snd st))"

lemma keep_Ok:
  assumes "keep type_name mark x (m, b) = Inr (m', b')" "bt_wf m"
  shows "m' = bt_insert x (mark (disp m x)) m \<and> spent (m', b') = spent (m, b)"
proof (cases "bt_contains m x")
  case True
  with assms bt_keys_insert_present [OF assms(2) True] show ?thesis
    by (auto simp: keep_def spent_def disp_def bt_contains_map_of length_bt_keys [symmetric])
next
  case False
  with assms(1) bt_insert_absent [OF False] show ?thesis
    by (auto simp: keep_def spent_def disp_def bt_contains_map_of charge_def split: if_splits)
qed

lemma disp_bt_insert: "bt_wf m \<Longrightarrow> disp (bt_insert x d m) y = (if y = x then d else disp m y)"
  by (simp add: disp_def map_of_bt_insert)

lemma keep_all_Ok:
  assumes "\<And>d. mark (mark d) = mark d"
  shows "keep_all type_name mark xs (m, b) = (Inr (m', b') :: 'n error + _) \<Longrightarrow> bt_wf m
    \<Longrightarrow> bt_wf m' \<and> spent (m', b') = spent (m, b) \<and> set (bt_keys m') = set (bt_keys m) \<union> set xs
      \<and> disp m' = (\<lambda>y. if y \<in> set xs then mark (disp m y) else disp m y)"
proof (induction xs arbitrary: m b)
  case (Cons x xs)
  from Cons.prems(1) obtain m1 b1 where k: "keep type_name mark x (m, b) = (Inr (m1, b1) :: 'n error + _)"
    and rest: "keep_all type_name mark xs (m1, b1) = (Inr (m', b') :: 'n error + _)"
    by (auto simp: res_bind_Inr_iff)
  from keep_Ok [OF k Cons.prems(2)] have m1: "m1 = bt_insert x (mark (disp m x)) m" "spent (m1, b1) = spent (m, b)"
    by auto
  with Cons.prems(2) have "bt_wf m1" by simp
  from Cons.IH [OF rest this] m1 Cons.prems(2) show ?case
    by (auto simp: fun_eq_iff disp_bt_insert bt_keys_insert assms)
qed auto


lemma keep_page_Ok:
  assumes "keep_page type_name p (m, b) = (Inr (m', b') :: 'n error + _)" "bt_wf m"
  shows "bt_wf m' \<and> spent (m', b') = spent (m, b)
    \<and> set (bt_keys m') = set (bt_keys m) \<union> set (cr_created p) \<union> set (cr_updated p) \<union> set (cr_destroyed p)
    \<and> (\<forall>x. disp m' x = \<lparr>di_created = di_created (disp m x) \<or> x \<in> set (cr_created p),
         di_updated = di_updated (disp m x) \<or> x \<in> set (cr_updated p),
         di_destroyed = di_destroyed (disp m x) \<or> x \<in> set (cr_destroyed p)\<rparr>)"
proof -
  let ?keep = "\<lambda>mark xs st. keep_all type_name mark xs st :: 'n error + _"
  from assms(1) obtain m1 b1 m2 b2 where
    k: "?keep (di_created_update (\<lambda>_. True)) (cr_created p) (m, b) = Inr (m1, b1)"
      "?keep (di_updated_update (\<lambda>_. True)) (cr_updated p) (m1, b1) = Inr (m2, b2)"
      "?keep (di_destroyed_update (\<lambda>_. True)) (cr_destroyed p) (m2, b2) = Inr (m', b')"
    by (auto simp: keep_page_def res_bind_Inr_iff)
  note c = keep_all_Ok [OF _ k(1) assms(2), simplified]
  note u = keep_all_Ok [OF _ k(2) conjunct1 [OF c], simplified]
  note d = keep_all_Ok [OF _ k(3) conjunct1 [OF u], simplified]
  from c u d show ?thesis by auto
qed


lemma classify_one_sets:
  "set (cs_created (classify_one (x, d) cs)) = set (cs_created cs) \<union> (if di_created d \<and> \<not> di_destroyed d then {x} else {})"
  "set (cs_destroyed (classify_one (x, d) cs)) = set (cs_destroyed cs) \<union> (if di_destroyed d \<and> \<not> di_created d then {x} else {})"
  "set (cs_updated (classify_one (x, d) cs)) = set (cs_updated cs)
     \<union> (if di_updated d \<and> \<not> di_created d \<and> \<not> di_destroyed d then {x} else {})"
  "cs_new_state (classify_one (x, d) cs) = cs_new_state cs"
  by (auto simp: classify_one_def set_insort_insert split: bool.splits)

definition ordered_sets :: "change_set \<Rightarrow> bool" where
  "ordered_sets cs \<longleftrightarrow> list_all (\<lambda>xs. sorted xs \<and> distinct xs) [cs_created cs, cs_updated cs, cs_destroyed cs]"

lemma ordered_sets_classify_one: "ordered_sets cs \<Longrightarrow> ordered_sets (classify_one e cs)"
  by (cases e) (auto simp: ordered_sets_def classify_one_def sorted_insort_insert distinct_insort_insert
      split: bool.splits)

lemma fold_classify_one:
  "set (cs_created (fold classify_one m cs)) = set (cs_created cs) \<union> {x. \<exists>d. (x, d) \<in> set m \<and> di_created d \<and> \<not> di_destroyed d}"
  "set (cs_destroyed (fold classify_one m cs)) = set (cs_destroyed cs) \<union> {x. \<exists>d. (x, d) \<in> set m \<and> di_destroyed d \<and> \<not> di_created d}"
  "set (cs_updated (fold classify_one m cs)) = set (cs_updated cs)
     \<union> {x. \<exists>d. (x, d) \<in> set m \<and> di_updated d \<and> \<not> di_created d \<and> \<not> di_destroyed d}"
  "cs_new_state (fold classify_one m cs) = cs_new_state cs"
  by (induction m arbitrary: cs) (auto simp: classify_one_sets split: if_splits)

lemma ordered_sets_classify: "ordered_sets (classify state m)"
proof -
  have "ordered_sets cs \<Longrightarrow> ordered_sets (fold classify_one m cs)" for cs
    by (induction m arbitrary: cs) (simp_all add: ordered_sets_classify_one)
  then show ?thesis by (simp add: classify_def ordered_sets_def nothing_def)
qed

lemma entry_disp:
  assumes "bt_wf m"
  shows "(\<exists>d. (x, d) \<in> set m \<and> P d) \<longleftrightarrow> x \<in> set (bt_keys m) \<and> P (disp m x)"
proof -
  from bt_wf_distinct [OF assms] have "(x, d) \<in> set m \<longleftrightarrow> map_of m x = Some d" for d
    by (simp add: bt_keys_def)
  then show ?thesis by (force simp: disp_def bt_keys_def)
qed

lemma disp_absent: "x \<notin> set (bt_keys m) \<Longrightarrow> disp m x = no_disposition"
  using map_of_eq_None_iff [of m x] by (simp add: disp_def bt_keys_def)

lemma disp_recorded:
  "di_created (disp m x) \<Longrightarrow> x \<in> set (bt_keys m)" "di_updated (disp m x) \<Longrightarrow> x \<in> set (bt_keys m)"
  "di_destroyed (disp m x) \<Longrightarrow> x \<in> set (bt_keys m)"
  by (rule ccontr, simp add: disp_absent no_disposition_def)+

lemma classify_sets:
  assumes "bt_wf m"
  shows "set (cs_created (classify state m)) = {x. di_created (disp m x) \<and> \<not> di_destroyed (disp m x)}"
    "set (cs_destroyed (classify state m)) = {x. di_destroyed (disp m x) \<and> \<not> di_created (disp m x)}"
    "set (cs_updated (classify state m)) =
       {x. di_updated (disp m x) \<and> \<not> di_created (disp m x) \<and> \<not> di_destroyed (disp m x)}"
    "cs_new_state (classify state m) = state"
  by (auto simp: classify_def fold_classify_one nothing_def entry_disp [OF assms] dest: disp_recorded)

definition reported :: "(changes_response \<Rightarrow> jid list) \<Rightarrow> changes_response list \<Rightarrow> jid set" where
  "reported part ps = (\<Union>p \<in> set ps. set (part p))"

lemma reported_Cons [simp]: "reported part (p # ps) = set (part p) \<union> reported part ps"
  "reported part [] = {}"
  by (simp_all add: reported_def)

lemma all_changes_loop_run:
  fixes env :: "('n, 'w) env"
  shows "all_changes_loop env to_value from_value account_id type_name n state (m, b) conn = (Inr cs, conn') \<Longrightarrow> bt_wf m
   \<Longrightarrow> \<exists>ps m' b'. page_run (changes env to_value from_value account_id type_name) state ps conn conn'
     \<and> length ps \<le> n \<and> ps \<noteq> [] \<and> cs = classify (cr_new_state (last ps)) m' \<and> bt_wf m' \<and> spent (m', b') = spent (m, b)
     \<and> set (bt_keys m') = set (bt_keys m) \<union> reported cr_created ps \<union> reported cr_updated ps \<union> reported cr_destroyed ps
     \<and> (\<forall>x. disp m' x = \<lparr>di_created = di_created (disp m x) \<or> x \<in> reported cr_created ps,
          di_updated = di_updated (disp m x) \<or> x \<in> reported cr_updated ps,
          di_destroyed = di_destroyed (disp m x) \<or> x \<in> reported cr_destroyed ps\<rparr>)"
proof (induction n arbitrary: state m b conn)
  case (Suc n)
  let ?ask = "changes env to_value from_value account_id type_name"
  from Suc.prems(1) obtain p conn1 st where ask: "?ask state conn = (Inr p, conn1)"
    and kept: "keep_page type_name p (m, b) = (Inr st :: 'n error + _)"
    and step: "(if \<not> cr_has_more_changes p then io_lift (Ok (classify (cr_new_state p) (fst st)))
      else if cr_new_state p = state
      then io_lift (Err (Protocol (type_name @ ''/changes reports more changes without advancing the state'')))
      else all_changes_loop env to_value from_value account_id type_name n (cr_new_state p) st) conn1 = (Inr cs, conn')"
    unfolding all_changes_loop.simps io_bind_Inr_iff io_lift_Inr_iff by blast
  obtain m1 b1 where st: "st = (m1, b1)" by (rule prod.exhaust)
  note page = keep_page_Ok [OF kept [unfolded st] Suc.prems(2)]
  show ?case
  proof (cases "cr_has_more_changes p")
    case False
    with ask step st page show ?thesis
      by (intro exI [of _ "[p]"] exI [of _ m1] exI [of _ b1]) (auto simp: io_lift_def intro: last_page)
  next
    case True
    with step st have adv: "cr_new_state p \<noteq> state"
      and rest: "all_changes_loop env to_value from_value account_id type_name n (cr_new_state p) (m1, b1) conn1 = (Inr cs, conn')"
      by (auto simp: io_lift_def split: if_splits)
    from Suc.IH [OF rest] page obtain ps m' b' where run: "page_run ?ask (cr_new_state p) ps conn1 conn'"
      and ps: "length ps \<le> n" "ps \<noteq> []" "cs = classify (cr_new_state (last ps)) m'" "bt_wf m'" "spent (m', b') = spent (m1, b1)"
        "set (bt_keys m') = set (bt_keys m1) \<union> reported cr_created ps \<union> reported cr_updated ps \<union> reported cr_destroyed ps"
        "\<forall>x. disp m' x = \<lparr>di_created = di_created (disp m1 x) \<or> x \<in> reported cr_created ps,
          di_updated = di_updated (disp m1 x) \<or> x \<in> reported cr_updated ps,
          di_destroyed = di_destroyed (disp m1 x) \<or> x \<in> reported cr_destroyed ps\<rparr>" by blast
    from more_pages [of ?ask, OF ask True adv run] ps page show ?thesis
      by (intro exI [of _ "p # ps"] exI [of _ m'] exI [of _ b']) auto
  qed
qed (simp add: io_lift_def)

subsection \<open>The pages of a query\<close>

text \<open>
  A run of query pages from a position: every page but the last is limited and has ids, and each is
  asked for at the number of ids before it.
\<close>

inductive query_run :: "(nat \<Rightarrow> 's \<Rightarrow> (('e + query_response) \<times> 's)) \<Rightarrow> nat \<Rightarrow> query_response list \<Rightarrow> 's \<Rightarrow> 's \<Rightarrow> bool"
  for ask where
  final_page: "ask k s = (Inr p, s') \<Longrightarrow> qr_limit p = None \<or> qr_ids p = [] \<Longrightarrow> query_run ask k [p] s s'"
| limited_page: "ask k s = (Inr p, s1) \<Longrightarrow> qr_limit p \<noteq> None \<Longrightarrow> qr_ids p \<noteq> []
    \<Longrightarrow> query_run ask (k + length (qr_ids p)) ps s1 s' \<Longrightarrow> query_run ask k (p # ps) s s'"

lemma charge_all_True:
  "charge_all xs b = (True, b') \<Longrightarrow> bu_ids b = length xs + bu_ids b' \<and> bu_bytes b = sum_list (map length xs) + bu_bytes b'"
proof (induction xs arbitrary: b)
  case (Cons x xs)
  from Cons.prems have room: "1 \<le> bu_ids b" "length x \<le> bu_bytes b"
    and rest: "charge_all xs \<lparr>bu_ids = bu_ids b - 1, bu_bytes = bu_bytes b - length x\<rparr> = (True, b')"
    by (auto simp: charge_def split: if_splits)
  from Cons.IH [OF rest] room show ?case by auto
qed simp

lemma query_loop_run:
  fixes env :: "('n, 'w) env"
  shows "query_loop env to_value from_value using_caps meth account_id query_filter sorting n ids b conn = (Inr r, conn')
   \<Longrightarrow> \<exists>ps. query_run (query_page env to_value from_value using_caps meth account_id query_filter sorting)
       (length ids) ps conn conn'
     \<and> ps \<noteq> [] \<and> length ps \<le> n \<and> r = ids @ concat (map qr_ids ps)
     \<and> (qr_total (last ps) = None \<or> qr_total (last ps) = Some (length r))
     \<and> length (concat (map qr_ids ps)) \<le> bu_ids b
     \<and> sum_list (map length (concat (map qr_ids ps))) \<le> bu_bytes b"
proof (induction n arbitrary: ids b conn)
  case (Suc n)
  let ?ask = "query_page env to_value from_value using_caps meth account_id query_filter sorting"
  let ?rest = "query_loop env to_value from_value using_caps meth account_id query_filter sorting n"
  from Suc.prems obtain p conn1 where ask: "?ask (length ids) conn = (Inr p, conn1)"
    and step: "(case charge_all (qr_ids p) b of
         (False, _) \<Rightarrow> io_lift (Err (Protocol (meth @ '' reports more ids than the budget for one sync'')))
       | (True, b') \<Rightarrow>
           let ids' = ids @ qr_ids p
           in if qr_limit p = None \<or> qr_ids p = []
              then io_lift
                (case qr_total p of
                   Some count \<Rightarrow>
                     if count \<noteq> length ids'
                     then Err (Protocol (meth @ '' gave '' @ dec (length ids')
                            @ '' ids, but reports a total of '' @ dec count))
                     else Ok ids'
                 | None \<Rightarrow> Ok ids')
              else ?rest ids' b') conn1 = (Inr r, conn')"
    unfolding query_loop.simps io_bind_Inr_iff by blast
  from step obtain b' where charged: "charge_all (qr_ids p) b = (True, b')"
    by (auto simp: io_lift_Inr_iff split: prod.splits bool.splits)
  note paid = charge_all_True [OF charged]
  show ?case
  proof (cases "qr_limit p = None \<or> qr_ids p = []")
    case True
    with step charged have "r = ids @ qr_ids p" "conn' = conn1" "qr_total p = None \<or> qr_total p = Some (length r)"
      by (auto simp: Let_def io_lift_Inr_iff split: option.splits if_splits)
    with ask True paid show ?thesis
      by (intro exI [of _ "[p]"]) (auto intro: final_page)
  next
    case False
    with step charged have "?rest (ids @ qr_ids p) b' conn1 = (Inr r, conn')" by (simp add: Let_def)
    from Suc.IH [OF this] obtain ps where run: "query_run ?ask (length ids + length (qr_ids p)) ps conn1 conn'"
      and ps: "ps \<noteq> []" "length ps \<le> n" "r = (ids @ qr_ids p) @ concat (map qr_ids ps)"
        "qr_total (last ps) = None \<or> qr_total (last ps) = Some (length r)"
        "length (concat (map qr_ids ps)) \<le> bu_ids b'" "sum_list (map length (concat (map qr_ids ps))) \<le> bu_bytes b'"
      by auto
    from False have "qr_limit p \<noteq> None" "qr_ids p \<noteq> []" by auto
    from limited_page [of ?ask, OF ask this run] ps paid show ?thesis
      by (intro exI [of _ "p # ps"]) simp
  qed
qed (simp add: io_lift_def)

subsection \<open>A sample run\<close>

definition sample_page :: changes_response where
  "sample_page = \<lparr>cr_account_id = ''A'', cr_old_state = ''1'', cr_new_state = ''2'', cr_has_more_changes = False,
     cr_created = [''b'', ''a'', ''c''], cr_updated = [''a'', ''u''], cr_destroyed = [''d'', ''c'']\<rparr>"

lemma echo_budget: "cl_id_budget (cn_client (echo_at k last_state)) = per_sync"
  by (simp add: echo_at_def echo_conn_def sample_conn_def)

lemma sample_changes_Ok:
  "all_changes (echo_env ''Email/changes'' Null) (\<lambda>_. Null) (\<lambda>_. Ok sample_page) ''A'' ''Email'' ''1'' (echo_at 0 None)
   = (Inr \<lparr>cs_new_state = ''2'', cs_created = [''a'', ''b''], cs_updated = [''u''], cs_destroyed = [''d'']\<rparr>,
      echo_at 1 (Some ''5''))"
proof -
  have ask: "changes (echo_env ''Email/changes'' Null) (\<lambda>_. Null) (\<lambda>_. Ok sample_page) ''A'' ''Email'' ''1'' (echo_at 0 None)
      = (Inr sample_page, echo_at 1 (Some ''5''))"
    by (simp add: changes_def capability_of_def io_bind_def io_lift_def map_err_def echo_single_call)
  have pages: "MAX_CHANGES_PAGES = Suc 1023" by (simp add: MAX_CHANGES_PAGES_def)
  have kept: "keep_page ''Email'' sample_page ([], per_sync) = (Inr
      ([(''a'', \<lparr>di_created = True, di_updated = True, di_destroyed = False\<rparr>),
        (''b'', \<lparr>di_created = True, di_updated = False, di_destroyed = False\<rparr>),
        (''c'', \<lparr>di_created = True, di_updated = False, di_destroyed = True\<rparr>),
        (''d'', \<lparr>di_created = False, di_updated = False, di_destroyed = True\<rparr>),
        (''u'', \<lparr>di_created = False, di_updated = True, di_destroyed = False\<rparr>)],
       \<lparr>bu_ids = 999995, bu_bytes = 67108859\<rparr>) :: nat error + _)"
    by (simp add: keep_page_def keep_def sample_page_def per_sync_def charge_def no_disposition_def
        less_eq_char_def less_char_def)
  show ?thesis
    unfolding all_changes_def pages echo_budget all_changes_loop.simps io_bind_def ask
    by (simp add: io_lift_def kept)
      (simp add: sample_page_def classify_def classify_one_def nothing_def insort_insert_key_def
        less_eq_char_def less_char_def)
qed

definition sample_query_page :: query_response where
  "sample_query_page = \<lparr>qr_account_id = ''A'', qr_query_state = ''1'', qr_can_calculate_changes = False,
     qr_position = 0, qr_ids = [''a'', ''b''], qr_total = Some 2, qr_limit = None\<rparr>"

lemma sample_query_Ok:
  "query_every_id (echo_env ''F/query'' Null) (\<lambda>_. Null) (\<lambda>_. Ok sample_query_page) [] ''F/query'' ''A'' () None (echo_at 0 None)
   = (Inr [''a'', ''b''], echo_at 1 (Some ''5''))"
proof -
  have pages: "MAX_QUERY_PAGES = Suc 1023" by (simp add: MAX_QUERY_PAGES_def)
  show ?thesis
    unfolding query_every_id_def pages echo_budget query_loop.simps
    by (simp add: query_page_def io_bind_def io_lift_def map_err_def echo_single_call
        sample_query_page_def per_sync_def charge_def)
qed

subsection \<open>Properties\<close>

text \<open>
  C6. A synchronisation that succeeds has read a run of at most 1024 pages, each asked for from the
  state of the one before, and gives their net effect: created are the ids that some page creates and
  none destroys, destroyed those that some page destroys and none creates, updated those that are
  only updated. The new state is that of the last page.
\<close>
theorem all_changes_net_effect:
  assumes "all_changes env to_value from_value account_id type_name since_state conn = (Inr cs, conn')"
  shows "\<exists>ps. page_run (changes env to_value from_value account_id type_name) since_state ps conn conn'
    \<and> 1 \<le> length ps \<and> length ps \<le> 1024 \<and> cs_new_state cs = cr_new_state (last ps)
    \<and> set (cs_created cs) = reported cr_created ps - reported cr_destroyed ps
    \<and> set (cs_destroyed cs) = reported cr_destroyed ps - reported cr_created ps
    \<and> set (cs_updated cs) = reported cr_updated ps - reported cr_created ps - reported cr_destroyed ps
    \<and> ordered_sets cs"
proof -
  from all_changes_loop_run [OF assms [unfolded all_changes_def]] obtain ps m' where
    run: "page_run (changes env to_value from_value account_id type_name) since_state ps conn conn'"
    and ps: "length ps \<le> MAX_CHANGES_PAGES" "ps \<noteq> []" and cs: "cs = classify (cr_new_state (last ps)) m'" and wf: "bt_wf m'"
    and d: "\<forall>x. disp m' x = \<lparr>di_created = di_created (disp [] x) \<or> x \<in> reported cr_created ps,
          di_updated = di_updated (disp [] x) \<or> x \<in> reported cr_updated ps,
          di_destroyed = di_destroyed (disp [] x) \<or> x \<in> reported cr_destroyed ps\<rparr>" by auto
  have "1 \<le> length ps" "length ps \<le> 1024" using ps by (simp_all add: MAX_CHANGES_PAGES_def Suc_le_eq)
  moreover have "disp [] x = no_disposition" for x by (simp add: disp_def)
  ultimately show ?thesis using run d classify_sets [OF wf, of "cr_new_state (last ps)"] ordered_sets_classify
    unfolding cs by (intro exI [of _ ps]) (auto simp: no_disposition_def)
qed

theorem all_changes_net_effect_witness:
  "\<exists>ps :: changes_response list. 1 \<le> length ps \<and> reported cr_created ps - reported cr_destroyed ps = {''a'', ''b''}
    \<and> reported cr_destroyed ps - reported cr_created ps = {''d''}"
proof -
  from all_changes_net_effect [OF sample_changes_Ok] obtain ps where "1 \<le> length ps"
    "set [''a'', ''b''] = reported cr_created ps - reported cr_destroyed ps"
    "set [''d''] = reported cr_destroyed ps - reported cr_created ps" by (simp only: change_set.simps) blast
  then show ?thesis by (intro exI [of _ ps]) simp
qed

text \<open>
  C25. A synchronisation that succeeds stays within the id budget of the client: the distinct ids of its
  pages are no more than the budget has ids, and their text is no longer than the budget has bytes.
\<close>
theorem all_changes_budget:
  assumes "all_changes env to_value from_value account_id type_name since_state conn = (Inr cs, conn')"
  shows "\<exists>ps. page_run (changes env to_value from_value account_id type_name) since_state ps conn conn'
    \<and> card (reported cr_created ps \<union> reported cr_updated ps \<union> reported cr_destroyed ps) \<le> bu_ids (cl_id_budget (cn_client conn))
    \<and> (\<Sum>x \<in> reported cr_created ps \<union> reported cr_updated ps \<union> reported cr_destroyed ps. length x)
        \<le> bu_bytes (cl_id_budget (cn_client conn))"
proof -
  from all_changes_loop_run [OF assms [unfolded all_changes_def]] obtain ps m' b' where
    run: "page_run (changes env to_value from_value account_id type_name) since_state ps conn conn'"
    and wf: "bt_wf m'" and cost: "spent (m', b') = spent ([], cl_id_budget (cn_client conn))"
    and keys: "set (bt_keys m') = reported cr_created ps \<union> reported cr_updated ps \<union> reported cr_destroyed ps"
    by auto
  from bt_wf_distinct [OF wf] have "card (set (bt_keys m')) = length m'"
    "(\<Sum>x \<in> set (bt_keys m'). length x) = sum_list (map length (bt_keys m'))"
    by (simp_all add: distinct_card length_bt_keys sum_list_distinct_conv_sum_set)
  with cost run show ?thesis by (intro exI [of _ ps]) (auto simp: spent_def keys)
qed

theorem all_changes_budget_witness:
  "\<exists>ps :: changes_response list. page_run (changes (echo_env ''Email/changes'' Null) (\<lambda>_. Null) (\<lambda>_. Ok sample_page) ''A'' ''Email'')
      ''1'' ps (echo_at 0 None) (echo_at 1 (Some ''5''))
    \<and> card (reported cr_created ps \<union> reported cr_updated ps \<union> reported cr_destroyed ps) \<le> 1000000"
proof -
  from all_changes_budget [OF sample_changes_Ok] obtain ps where
    run: "page_run (changes (echo_env ''Email/changes'' Null) (\<lambda>_. Null) (\<lambda>_. Ok sample_page) ''A'' ''Email'')
      ''1'' ps (echo_at 0 None) (echo_at 1 (Some ''5''))"
    and few: "card (reported cr_created ps \<union> reported cr_updated ps \<union> reported cr_destroyed ps) \<le> bu_ids per_sync"
    unfolding echo_budget by blast
  from few have "card (reported cr_created ps \<union> reported cr_updated ps \<union> reported cr_destroyed ps) \<le> 1000000"
    by (simp add: per_sync_def)
  with run show ?thesis by blast
qed

text \<open>
  C8. A list of every id is the concatenation of at most 1024 pages, each asked for at the position
  where the one before ended; the last is not limited or empty, the total it reports, if any, is the
  number of ids, and all ids are within the id budget. A partial list is never returned as the whole.
\<close>
theorem query_every_id_complete:
  assumes "query_every_id env to_value from_value using_caps meth account_id query_filter sorting conn = (Inr ids, conn')"
  shows "\<exists>ps. query_run (query_page env to_value from_value using_caps meth account_id query_filter sorting) 0 ps conn conn'
    \<and> ps \<noteq> [] \<and> length ps \<le> 1024 \<and> ids = concat (map qr_ids ps)
    \<and> qr_total (last ps) \<in> {None, Some (length ids)}
    \<and> length ids \<le> bu_ids (cl_id_budget (cn_client conn))
    \<and> sum_list (map length ids) \<le> bu_bytes (cl_id_budget (cn_client conn))"
  using query_loop_run [OF assms [unfolded query_every_id_def]] by (fastforce simp: MAX_QUERY_PAGES_def)

theorem query_every_id_complete_witness:
  "\<exists>ps :: query_response list. [''a'', ''b''] = concat (map qr_ids ps) \<and> qr_total (last ps) \<in> {None, Some 2}"
proof -
  have two: "length [''a'', ''b''] = 2" by simp
  show ?thesis
    using query_every_id_complete [OF sample_query_Ok] unfolding two by (elim exE conjE) (intro exI conjI)
qed

end
