(* ===== verification/Client_Limiter.thy ===== *)
theory Client_Limiter
  imports Client_Http
begin

text \<open>
  The bound on concurrent requests and uploads (\<^verbatim>\<open>jmap-client/src/concurrency.rs\<close>). The state behind
  the mutex is \<open>limiter\<close>. Each critical section of the source is one function: a pass of the loop of
  \<^verbatim>\<open>acquire\<close> up to its wait or return, \<^verbatim>\<open>release\<close>, and \<^verbatim>\<open>set_limit\<close>. Threads interleave these sections
  in any order (\<open>limiter_step\<close>); a wait that times out or is notified is another pass of the loop.
\<close>

subsection \<open>The critical sections\<close>

record limiter =
  li_limit :: nat
  li_in_flight :: nat

datatype attempt = Acquired | Acquire_Cancelled | Blocked

definition limiter_new :: "nat option \<Rightarrow> limiter" where
  "limiter_new limit = \<lparr>li_limit = parse_limit limit, li_in_flight = 0\<rparr>"

definition set_limit :: "nat option \<Rightarrow> limiter \<Rightarrow> limiter" where
  "set_limit limit l = l\<lparr>li_limit := parse_limit limit\<rparr>"

definition acquire :: "bool \<Rightarrow> limiter \<Rightarrow> attempt \<times> limiter" where
  "acquire cancelled l =
     (if li_in_flight l \<ge> li_limit l
      then (if cancelled then Acquire_Cancelled else Blocked, l)
      else if cancelled then (Acquire_Cancelled, l)
      else (Acquired, l\<lparr>li_in_flight := li_in_flight l + 1\<rparr>))"

definition release :: "limiter \<Rightarrow> limiter" where
  "release l = l\<lparr>li_in_flight := li_in_flight l - 1\<rparr>"

subsection \<open>Interleaved threads\<close>

datatype phase = Idle | Waiting | Holding

datatype 't action = Acquire 't bool | Drop 't | Set_Limit "nat option"

definition phase_after :: "attempt \<Rightarrow> phase" where
  "phase_after a = (case a of Acquired \<Rightarrow> Holding | Acquire_Cancelled \<Rightarrow> Idle | Blocked \<Rightarrow> Waiting)"

inductive limiter_step ::
  "'t action \<Rightarrow> limiter \<times> ('t \<Rightarrow> phase) \<Rightarrow> limiter \<times> ('t \<Rightarrow> phase) \<Rightarrow> bool" where
  step_acquire: "ph t \<noteq> Holding \<Longrightarrow> acquire cancelled l = (a, l')
    \<Longrightarrow> limiter_step (Acquire t cancelled) (l, ph) (l', ph(t := phase_after a))"
| step_drop: "ph t = Holding \<Longrightarrow> limiter_step (Drop t) (l, ph) (release l, ph(t := Idle))"
| step_limit: "limiter_step (Set_Limit limit) (l, ph) (set_limit limit l, ph)"

inductive limiter_run ::
  "'t action list \<Rightarrow> limiter \<times> ('t \<Rightarrow> phase) \<Rightarrow> limiter \<times> ('t \<Rightarrow> phase) \<Rightarrow> bool" where
  run_none: "limiter_run [] s s"
| run_step: "limiter_run as s s1 \<Longrightarrow> limiter_step a s1 s' \<Longrightarrow> limiter_run (as @ [a]) s s'"

definition holders :: "('t \<Rightarrow> phase) \<Rightarrow> 't set" where
  "holders ph = {t. ph t = Holding}"

definition start :: "nat option \<Rightarrow> limiter \<times> ('t \<Rightarrow> phase)" where
  "start limit = (limiter_new limit, \<lambda>_. Idle)"

definition limits :: "'t action list \<Rightarrow> nat set" where
  "limits as = {parse_limit limit | limit. Set_Limit limit \<in> set as}"

definition limiter_inv :: "limiter \<times> ('t \<Rightarrow> phase) \<Rightarrow> bool" where
  "limiter_inv s \<longleftrightarrow> finite (holders (snd s)) \<and> li_in_flight (fst s) = card (holders (snd s))
     \<and> 1 \<le> li_limit (fst s) \<and> li_limit (fst s) \<le> USIZE_MAX \<and> li_in_flight (fst s) \<le> USIZE_MAX"

lemma parse_limit_range: "1 \<le> parse_limit limit \<and> parse_limit limit \<le> USIZE_MAX"
  by (auto simp: parse_limit_def USIZE_MAX_def split: option.splits)

lemma holders_update:
  "holders (ph(t := p)) = (if p = Holding then insert t (holders ph) else holders ph - {t})"
  by (auto simp: holders_def)

lemma not_holder: "ph t \<noteq> Holding \<Longrightarrow> t \<notin> holders ph"
  by (simp add: holders_def)

lemma limiter_inv_start: "limiter_inv (start limit)"
  using parse_limit_range [of limit]
  by (simp add: limiter_inv_def start_def limiter_new_def holders_def)

lemma limiter_inv_step: "limiter_step a s s' \<Longrightarrow> limiter_inv s \<Longrightarrow> limiter_inv s'"
proof (induction rule: limiter_step.induct)
  case (step_acquire ph t cancelled l a l')
  then show ?case
    by (auto simp: limiter_inv_def acquire_def phase_after_def holders_update not_holder split: if_splits)
next
  case (step_drop ph t l)
  then have "t \<in> holders ph" by (simp add: holders_def)
  with step_drop show ?case by (auto simp: limiter_inv_def release_def holders_update)
next
  case (step_limit limit l ph)
  with parse_limit_range [of limit] show ?case by (simp add: limiter_inv_def set_limit_def)
qed

lemma limiter_inv_run: "limiter_run as s s' \<Longrightarrow> limiter_inv s \<Longrightarrow> limiter_inv s'"
  by (induction rule: limiter_run.induct) (auto intro: limiter_inv_step)

lemma limiter_step_bound:
  assumes "limiter_step a s s'" "limiter_inv s" "li_limit (fst s) \<le> m" "card (holders (snd s)) \<le> m"
  shows "card (holders (snd s')) \<le> m"
proof -
  from assms(1,3) have "li_in_flight (fst s') \<le> max (li_in_flight (fst s)) m"
    by (cases rule: limiter_step.cases) (auto simp: acquire_def release_def set_limit_def split: if_splits)
  with assms(2,4) limiter_inv_step [OF assms(1,2)] show ?thesis by (simp add: limiter_inv_def)
qed

lemma limiter_step_limit:
  "limiter_step a s s' \<Longrightarrow> li_limit (fst s') = (case a of Set_Limit limit \<Rightarrow> parse_limit limit | _ \<Rightarrow> li_limit (fst s))"
  by (cases rule: limiter_step.cases) (auto simp: acquire_def release_def set_limit_def split: if_splits)

lemma limits_snoc: "limits (as @ [a]) = limits as \<union> (case a of Set_Limit limit \<Rightarrow> {parse_limit limit} | _ \<Rightarrow> {})"
  by (auto simp: limits_def split: action.splits)

lemma limiter_run_bound:
  "limiter_run as s s' \<Longrightarrow> limiter_inv s \<Longrightarrow> \<forall>k \<in> limits as. k \<le> m \<Longrightarrow> li_limit (fst s) \<le> m
   \<Longrightarrow> card (holders (snd s)) \<le> m \<Longrightarrow> li_limit (fst s') \<le> m \<and> card (holders (snd s')) \<le> m"
proof (induction rule: limiter_run.induct)
  case (run_step as s s1 a s')
  then have "li_limit (fst s1) \<le> m" "card (holders (snd s1)) \<le> m" "limiter_inv s1"
    by (auto simp: limits_snoc intro: limiter_inv_run)
  with run_step limiter_step_bound [OF run_step.hyps(2)] limiter_step_limit [OF run_step.hyps(2)] show ?case
    by (auto simp: limits_snoc split: action.splits)
qed simp

lemma release_all:
  "finite ts \<Longrightarrow> ts \<subseteq> holders ph \<Longrightarrow> \<exists>as. set as \<subseteq> Drop ` ts \<and> length as = card ts
     \<and> limiter_run as (l, ph) (l\<lparr>li_in_flight := li_in_flight l - card ts\<rparr>, \<lambda>t. if t \<in> ts then Idle else ph t)"
proof (induction ts rule: finite_induct)
  case empty
  have "limiter_run [] (l, ph) (l, ph)" by (rule run_none)
  then show ?case by (intro exI [of _ "[]"]) simp
next
  case (insert t ts)
  then obtain as where as: "set as \<subseteq> Drop ` ts" "length as = card ts"
    and run: "limiter_run as (l, ph) (l\<lparr>li_in_flight := li_in_flight l - card ts\<rparr>, \<lambda>t. if t \<in> ts then Idle else ph t)"
    by auto
  let ?ph = "\<lambda>t. if t \<in> ts then Idle else ph t"
  from insert have "?ph t = Holding" by (auto simp: holders_def)
  from step_drop [of ?ph, OF this] have "limiter_step (Drop t) (l\<lparr>li_in_flight := li_in_flight l - card ts\<rparr>, ?ph)
      (release (l\<lparr>li_in_flight := li_in_flight l - card ts\<rparr>), ?ph(t := Idle))" .
  moreover have "?ph(t := Idle) = (\<lambda>u. if u \<in> insert t ts then Idle else ph u)" by auto
  moreover have "release (l\<lparr>li_in_flight := li_in_flight l - card ts\<rparr>)
      = l\<lparr>li_in_flight := li_in_flight l - card (insert t ts)\<rparr>"
    using insert.hyps by (simp add: release_def)
  ultimately have "limiter_run (as @ [Drop t]) (l, ph)
      (l\<lparr>li_in_flight := li_in_flight l - card (insert t ts)\<rparr>, \<lambda>u. if u \<in> insert t ts then Idle else ph u)"
    using run_step [OF run] by simp
  with as insert.hyps show ?case by (intro exI [of _ "as @ [Drop t]"]) auto
qed

lemma finite_limits: "finite (limits as)"
proof -
  have "limits as \<subseteq> (\<lambda>a. case a of Set_Limit limit \<Rightarrow> parse_limit limit | _ \<Rightarrow> 0) ` set as"
    by (force simp: limits_def)
  then show ?thesis by (rule finite_subset) simp
qed

lemma sample_run:
  "limiter_run [Acquire 0 False, Acquire 1 False] (start (Some 1))
     (\<lparr>li_limit = 1, li_in_flight = 1\<rparr>, (\<lambda>_ :: nat. Idle)(0 := Holding, 1 := Waiting))"
proof -
  let ?l = "\<lparr>li_limit = 1, li_in_flight = 1\<rparr>"
  have "acquire False (limiter_new (Some 1)) = (Acquired, ?l)"
    by (simp add: acquire_def limiter_new_def parse_limit_def USIZE_MAX_def)
  from run_step [OF run_none step_acquire [OF _ this, of "\<lambda>_. Idle" "0 :: nat"]]
  have first: "limiter_run [Acquire 0 False] (start (Some 1)) (?l, (\<lambda>_ :: nat. Idle)(0 := Holding))"
    by (simp add: start_def phase_after_def)
  have "acquire False ?l = (Blocked, ?l)" by (simp add: acquire_def)
  from run_step [OF first step_acquire [OF _ this, of "(\<lambda>_ :: nat. Idle)(0 := Holding)" 1]] show ?thesis
    by (simp add: phase_after_def)
qed

subsection \<open>Properties\<close>

text \<open>
  C9. In every interleaving the counter is the number of permits held, it never overflows, and no more
  permits are held at once than the largest limit that was in force.
\<close>
theorem limiter_bounded:
  assumes "limiter_run as (start limit) (l, ph)"
  shows "li_in_flight l = card (holders ph) \<and> li_in_flight l \<le> USIZE_MAX
    \<and> card (holders ph) \<le> Max (insert (parse_limit limit) (limits as))"
proof -
  let ?m = "Max (insert (parse_limit limit) (limits as))"
  have top: "k \<le> ?m" if "k \<in> insert (parse_limit limit) (limits as)" for k
    using that by (intro Max_ge) (simp_all add: finite_limits)
  then have "card (holders ph) \<le> ?m"
    using limiter_run_bound [OF assms limiter_inv_start, of ?m]
    by (simp add: start_def limiter_new_def holders_def)
  with limiter_inv_run [OF assms limiter_inv_start] show ?thesis by (simp add: limiter_inv_def)
qed

theorem limiter_bounded_witness:
  "card (holders ((\<lambda>_ :: nat. Idle)(0 := Holding, 1 := Waiting))) = 1"
  using limiter_bounded [OF sample_run] by simp

text \<open>
  C10. A waiting thread is never stuck: from every reachable state, once the present holders have dropped
  their permits (one step each), its next attempt takes a permit, even after the limit was lowered.
\<close>
theorem limiter_progress:
  assumes "limiter_run as (start limit) (l, ph)" "ph t = Waiting"
  shows "\<exists>drops l' ph'. length drops = card (holders ph) \<and> set drops \<subseteq> Drop ` holders ph
    \<and> limiter_run drops (l, ph) (l', ph') \<and> ph' t = Waiting \<and> fst (acquire False l') = Acquired"
proof -
  from limiter_inv_run [OF assms(1) limiter_inv_start] have inv: "finite (holders ph)"
    "li_in_flight l = card (holders ph)" "1 \<le> li_limit l" by (simp_all add: limiter_inv_def)
  from release_all [OF inv(1) subset_refl, of l] obtain drops where
    drops: "set drops \<subseteq> Drop ` holders ph" "length drops = card (holders ph)"
    and run: "limiter_run drops (l, ph) (l\<lparr>li_in_flight := li_in_flight l - card (holders ph)\<rparr>,
      \<lambda>t. if t \<in> holders ph then Idle else ph t)" by blast
  have "fst (acquire False (l\<lparr>li_in_flight := li_in_flight l - card (holders ph)\<rparr>)) = Acquired"
    using inv by (simp add: acquire_def)
  moreover have "(if t \<in> holders ph then Idle else ph t) = Waiting" using assms(2) by (simp add: holders_def)
  ultimately show ?thesis using drops run by blast
qed

theorem limiter_progress_witness:
  "\<exists>drops :: nat action list. length drops = card (holders ((\<lambda>_ :: nat. Idle)(0 := Holding, 1 := Waiting)))
    \<and> (\<exists>l' ph'. limiter_run drops (\<lparr>li_limit = 1, li_in_flight = 1\<rparr>, (\<lambda>_. Idle)(0 := Holding, 1 := Waiting)) (l', ph')
         \<and> fst (acquire False l') = Acquired)"
  using limiter_progress [OF sample_run, of 1] by (simp only: fun_upd_apply simp_thms if_True) blast

end
