(* ===== verification/Set_Graph.thy ===== *)
theory Set_Graph
  imports Client_Calls
begin

text \<open>
  The graph of creation references of a \<^verbatim>\<open>Foo/set\<close> request (\<^verbatim>\<open>jmap-client/src/set.rs\<close>): the references
  in a JSON value and Tarjan's algorithm, which orders the creates so that each comes with or after
  the creates it refers to. A \<^verbatim>\<open>HashSet\<close> is a list; the order in which it is iterated is the argument
  \<open>iter\<close>, of which only \<open>any_order\<close> is known. \<open>strongconnect\<close> has fuel for its recursion; the result
  None stands for a missing map entry (a panic in the source) or for spent fuel, and neither happens
  with fuel for each node.
\<close>

subsection \<open>References\<close>

definition any_order :: "(str list \<Rightarrow> str list) \<Rightarrow> bool" where
  "any_order iter \<longleftrightarrow> (\<forall>xs. set (iter xs) = set xs \<and> (distinct xs \<longrightarrow> distinct (iter xs)))"

definition reference_target :: "str list \<Rightarrow> str \<Rightarrow> str list" where
  "reference_target candidates s =
     (case strip_prefix ''#'' s of
        Some target \<Rightarrow> if target \<in> set candidates then [target] else []
      | None \<Rightarrow> [])"

fun collect_creation_references :: "str list \<Rightarrow> 'n json \<Rightarrow> str list \<Rightarrow> str list"
  and collect_members :: "str list \<Rightarrow> (str \<times> 'n json) list \<Rightarrow> str list \<Rightarrow> str list"
  and collect_items :: "str list \<Rightarrow> 'n json list \<Rightarrow> str list \<Rightarrow> str list" where
  "collect_creation_references candidates (String s) refs =
     fold List.insert (reference_target candidates s) refs"
| "collect_creation_references candidates (Object members) refs = collect_members candidates members refs"
| "collect_creation_references candidates (Array items) refs = collect_items candidates items refs"
| "collect_creation_references candidates _ refs = refs"
| "collect_members candidates [] refs = refs"
| "collect_members candidates ((key, v) # members) refs =
     collect_members candidates members
       (collect_creation_references candidates v
         (fold List.insert (concat (map (reference_target candidates) (split_on CHR ''/'' key))) refs))"
| "collect_items candidates [] refs = refs"
| "collect_items candidates (item # items) refs =
     collect_items candidates items (collect_creation_references candidates item refs)"

definition find_creation_references :: "str list \<Rightarrow> 'n json \<Rightarrow> str list" where
  "find_creation_references candidates v = collect_creation_references candidates v []"

subsection \<open>Strongly connected components\<close>

text \<open>The top of the stack is the head of \<open>ta_stack\<close>; components are emitted at the end of \<open>ta_sccs\<close>.\<close>

record tarjan =
  ta_index :: nat
  ta_indices :: "str \<rightharpoonup> nat"
  ta_lowlink :: "str \<rightharpoonup> nat"
  ta_on_stack :: "str set"
  ta_stack :: "str list"
  ta_sccs :: "str list list"

definition tarjan_new :: tarjan where
  "tarjan_new = \<lparr>ta_index = 0, ta_indices = Map.empty, ta_lowlink = Map.empty, ta_on_stack = {},
     ta_stack = [], ta_sccs = []\<rparr>"

definition push_node :: "str \<Rightarrow> tarjan \<Rightarrow> tarjan" where
  "push_node node t = t\<lparr>ta_indices := (ta_indices t)(node \<mapsto> ta_index t),
     ta_lowlink := (ta_lowlink t)(node \<mapsto> ta_index t), ta_index := ta_index t + 1,
     ta_stack := node # ta_stack t, ta_on_stack := insert node (ta_on_stack t)\<rparr>"

definition lower :: "str \<Rightarrow> nat \<Rightarrow> tarjan \<Rightarrow> tarjan option" where
  "lower node k t = map_option
     (\<lambda>low. t\<lparr>ta_lowlink := (ta_lowlink t)(node \<mapsto> min low k)\<rparr>) (ta_lowlink t node)"

fun visit_deps :: "(str \<Rightarrow> tarjan \<Rightarrow> tarjan option) \<Rightarrow> str \<Rightarrow> str list \<Rightarrow> tarjan \<Rightarrow> tarjan option" where
  "visit_deps recur node [] t = Some t"
| "visit_deps recur node (dep # deps) t =
     (if ta_indices t dep = None
      then Option.bind (recur dep t) (\<lambda>t1. Option.bind (ta_lowlink t1 dep) (\<lambda>dep_low.
           Option.bind (lower node dep_low t1) (visit_deps recur node deps)))
      else if dep \<in> ta_on_stack t
      then Option.bind (ta_indices t dep) (\<lambda>dep_index.
           Option.bind (lower node dep_index t) (visit_deps recur node deps))
      else visit_deps recur node deps t)"

fun pop_component :: "str \<Rightarrow> str list \<Rightarrow> str set \<Rightarrow> str list \<times> str list \<times> str set" where
  "pop_component node [] on_stack = ([], [], on_stack)"
| "pop_component node (w # ws) on_stack =
     (if w = node then ([w], ws, on_stack - {w})
      else case pop_component node ws (on_stack - {w}) of
        (scc, rest, on_stack') \<Rightarrow> (w # scc, rest, on_stack'))"

definition finish_node :: "str \<Rightarrow> tarjan \<Rightarrow> tarjan option" where
  "finish_node node t =
     Option.bind (ta_lowlink t node) (\<lambda>low. Option.bind (ta_indices t node) (\<lambda>k.
       Some (if low = k
             then (case pop_component node (ta_stack t) (ta_on_stack t) of
                     (scc, rest, on_stack) \<Rightarrow>
                       t\<lparr>ta_stack := rest, ta_on_stack := on_stack, ta_sccs := ta_sccs t @ [scc]\<rparr>)
             else t)))"

primrec strongconnect ::
  "(str list \<Rightarrow> str list) \<Rightarrow> (str \<rightharpoonup> str list) \<Rightarrow> nat \<Rightarrow> str \<Rightarrow> tarjan \<Rightarrow> tarjan option" where
  "strongconnect iter dependencies 0 node t = None"
| "strongconnect iter dependencies (Suc fuel) node t =
     Option.bind
       (case dependencies node of
          Some deps \<Rightarrow> visit_deps (strongconnect iter dependencies fuel) node (iter deps) (push_node node t)
        | None \<Rightarrow> Some (push_node node t))
       (finish_node node)"

fun connect_all ::
  "(str list \<Rightarrow> str list) \<Rightarrow> (str \<rightharpoonup> str list) \<Rightarrow> nat \<Rightarrow> str list \<Rightarrow> tarjan \<Rightarrow> tarjan option" where
  "connect_all iter dependencies fuel [] t = Some t"
| "connect_all iter dependencies fuel (node # nodes) t =
     (if ta_indices t node = None
      then Option.bind (strongconnect iter dependencies fuel node t) (connect_all iter dependencies fuel nodes)
      else connect_all iter dependencies fuel nodes t)"

definition check_components :: "nat \<Rightarrow> str list list \<Rightarrow> 'n error + str list list" where
  "check_components limit sccs =
     (case find (\<lambda>scc. length scc > limit) sccs of
        Some scc \<Rightarrow> Err (ChunkBoundaryReferenceBroken (hd scc)
          (''dependency cycle of size '' @ dec (length scc) @ '' exceeds maxObjectsInSet limit '' @ dec limit))
      | None \<Rightarrow> Ok sccs)"

text \<open>The outer option is None where the source would panic.\<close>

definition sort_creation_components ::
  "(str list \<Rightarrow> str list) \<Rightarrow> str list \<Rightarrow> (str \<rightharpoonup> str list) \<Rightarrow> nat \<Rightarrow> ('n error + str list list) option" where
  "sort_creation_components iter nodes dependencies limit =
     map_option (\<lambda>t. check_components limit (ta_sccs t))
       (connect_all iter dependencies (length nodes) nodes tarjan_new)"

subsection \<open>The invariant\<close>

definition edges :: "(str \<rightharpoonup> str list) \<Rightarrow> str \<Rightarrow> str set" where
  "edges dependencies x = (case dependencies x of Some deps \<Rightarrow> set deps | None \<Rightarrow> {})"

text \<open>Each component refers to itself and to earlier ones only.\<close>

fun topological :: "('a \<Rightarrow> 'a set) \<Rightarrow> 'a set \<Rightarrow> 'a list list \<Rightarrow> bool" where
  "topological E seen [] \<longleftrightarrow> True"
| "topological E seen (c # cs) \<longleftrightarrow>
     list_all (\<lambda>x. E x \<subseteq> seen \<union> set c) c \<and> topological E (seen \<union> set c) cs"

definition tarjan_wf :: "(str \<Rightarrow> str set) \<Rightarrow> str set \<Rightarrow> tarjan \<Rightarrow> bool" where
  "tarjan_wf E N t \<longleftrightarrow>
     distinct (ta_stack t @ concat (ta_sccs t)) \<and> ta_on_stack t = set (ta_stack t)
     \<and> dom (ta_indices t) = set (ta_stack t) \<union> set (concat (ta_sccs t))
     \<and> dom (ta_indices t) \<subseteq> N \<and> (\<forall>k \<in> ran (ta_indices t). k < ta_index t)
     \<and> sorted_wrt (\<lambda>x y. the (ta_indices t y) < the (ta_indices t x)) (ta_stack t)
     \<and> topological E {} (ta_sccs t)"

text \<open>All references of \<open>xs\<close> are visited, and those into \<open>base\<close> have at least the index \<open>low\<close>.\<close>

definition covered :: "(str \<Rightarrow> str set) \<Rightarrow> tarjan \<Rightarrow> str list \<Rightarrow> nat \<Rightarrow> str set \<Rightarrow> bool" where
  "covered E t base low ws \<longleftrightarrow>
     ws \<subseteq> dom (ta_indices t) \<and> (\<forall>w \<in> ws \<inter> set base. low \<le> the (ta_indices t w))"

definition extends :: "tarjan \<Rightarrow> tarjan \<Rightarrow> bool" where
  "extends t t' \<longleftrightarrow> ta_indices t \<subseteq>\<^sub>m ta_indices t'
     \<and> (\<forall>x \<in> dom (ta_indices t). ta_lowlink t' x = ta_lowlink t x)
     \<and> ta_index t \<le> ta_index t'
     \<and> (\<forall>x \<in> dom (ta_indices t') - dom (ta_indices t). ta_index t \<le> the (ta_indices t' x))"

definition connected :: "(str \<Rightarrow> str set) \<Rightarrow> str set \<Rightarrow> str \<Rightarrow> tarjan \<Rightarrow> tarjan option \<Rightarrow> bool" where
  "connected E N u t r \<longleftrightarrow> (\<exists>t' S low. r = Some t' \<and> tarjan_wf E N t' \<and> extends t t'
     \<and> ta_stack t' = S @ ta_stack t \<and> u \<in> dom (ta_indices t') \<and> ta_lowlink t' u = Some low
     \<and> covered E t' (ta_stack t) low (\<Union>(E ` set S))
     \<and> (if S = [] then ta_indices t' u = Some low
        else \<exists>w \<in> set (ta_stack t). ta_indices t w = Some low))"

definition visiting ::
  "(str \<Rightarrow> str set) \<Rightarrow> str set \<Rightarrow> str \<Rightarrow> tarjan \<Rightarrow> str set \<Rightarrow> tarjan \<Rightarrow> str list \<Rightarrow> nat \<Rightarrow> bool" where
  "visiting E N v t0 D t S low \<longleftrightarrow> tarjan_wf E N t \<and> extends t0 t \<and> ta_indices t0 v = None
     \<and> ta_stack t = S @ v # ta_stack t0 \<and> ta_lowlink t v = Some low
     \<and> covered E t (ta_stack t0) low (\<Union>(E ` set S) \<union> D)
     \<and> (ta_indices t v = Some low \<or> (\<exists>w \<in> set (ta_stack t0). ta_indices t w = Some low))"

subsection \<open>Correctness of the search\<close>

lemma topological_snoc: "topological E seen (cs @ [c]) \<longleftrightarrow>
    topological E seen cs \<and> list_all (\<lambda>x. E x \<subseteq> seen \<union> set (concat cs) \<union> set c) c"
  by (induction cs arbitrary: seen) (auto simp: Un_assoc)

lemma pop_component_stack:
  "node \<notin> set S \<Longrightarrow> pop_component node (S @ node # base) on_stack = (S @ [node], base, on_stack - insert node (set S))"
  by (induction S arbitrary: on_stack) (auto simp: insert_commute)

lemma map_le_dom: "m \<subseteq>\<^sub>m m' \<Longrightarrow> dom m \<subseteq> dom m'"
  by (rule map_le_implies_dom_le)

lemma map_le_value: "m \<subseteq>\<^sub>m m' \<Longrightarrow> x \<in> dom m \<Longrightarrow> m' x = m x"
  by (simp add: map_le_def)

lemma extends_refl: "extends t t"
  by (simp add: extends_def)

lemma tarjan_wf_facts:
  assumes "tarjan_wf E N t"
  shows "distinct (ta_stack t @ concat (ta_sccs t))" "ta_on_stack t = set (ta_stack t)"
    "dom (ta_indices t) = set (ta_stack t) \<union> set (concat (ta_sccs t))" "dom (ta_indices t) \<subseteq> N"
    "\<forall>k \<in> ran (ta_indices t). k < ta_index t"
    "sorted_wrt (\<lambda>x y. the (ta_indices t y) < the (ta_indices t x)) (ta_stack t)"
    "topological E {} (ta_sccs t)"
  using assms unfolding tarjan_wf_def by blast+

lemma tarjan_wfI:
  assumes "distinct (ta_stack t @ concat (ta_sccs t))" "ta_on_stack t = set (ta_stack t)"
    "dom (ta_indices t) = set (ta_stack t) \<union> set (concat (ta_sccs t))" "dom (ta_indices t) \<subseteq> N"
    "\<forall>k \<in> ran (ta_indices t). k < ta_index t"
    "sorted_wrt (\<lambda>x y. the (ta_indices t y) < the (ta_indices t x)) (ta_stack t)"
    "topological E {} (ta_sccs t)"
  shows "tarjan_wf E N t"
  using assms unfolding tarjan_wf_def by (intro conjI)

lemma tarjan_index_bound: "tarjan_wf E N t \<Longrightarrow> x \<in> dom (ta_indices t) \<Longrightarrow> the (ta_indices t x) < ta_index t"
  using tarjan_wf_facts(5) by (metis domD option.sel ranI)

lemma tarjan_wf_push:
  assumes "tarjan_wf E N t" "v \<in> N" "ta_indices t v = None"
  shows "tarjan_wf E N (push_node v t)"
proof (rule tarjan_wfI)
  note wf = tarjan_wf_facts [OF assms(1)]
  have new: "v \<notin> set (ta_stack t)" "v \<notin> set (concat (ta_sccs t))"
    using wf(3) assms(3) by (metis UnCI domIff)+
  have old: "the (ta_indices t y) < ta_index t" if "y \<in> set (ta_stack t)" for y
    using tarjan_index_bound [OF assms(1)] that wf(3) by blast
  show "distinct (ta_stack (push_node v t) @ concat (ta_sccs (push_node v t)))"
    using wf(1) new by (simp add: push_node_def)
  show "ta_on_stack (push_node v t) = set (ta_stack (push_node v t))" using wf(2) by (simp add: push_node_def)
  show "dom (ta_indices (push_node v t)) = set (ta_stack (push_node v t)) \<union> set (concat (ta_sccs (push_node v t)))"
    using wf(3) by (simp add: push_node_def)
  show "dom (ta_indices (push_node v t)) \<subseteq> N" using wf(4) assms(2) by (simp add: push_node_def)
  show "\<forall>k \<in> ran (ta_indices (push_node v t)). k < ta_index (push_node v t)"
    using wf(5) assms(3) by (auto simp: push_node_def less_Suc_eq)
  have "sorted_wrt (\<lambda>x y. the (((ta_indices t)(v \<mapsto> ta_index t)) y) < the (((ta_indices t)(v \<mapsto> ta_index t)) x)) (ta_stack t)"
    by (rule sorted_wrt_mono_rel [OF _ wf(6)]) (use new in auto)
  then show "sorted_wrt (\<lambda>x y. the (ta_indices (push_node v t) y) < the (ta_indices (push_node v t) x)) (ta_stack (push_node v t))"
    using old new by (auto simp: push_node_def)
  show "topological E {} (ta_sccs (push_node v t))" using wf(7) by (simp add: push_node_def)
qed

lemma tarjan_wf_lowlink [simp]: "tarjan_wf E N (t\<lparr>ta_lowlink := f\<rparr>) = tarjan_wf E N t"
  by (simp add: tarjan_wf_def)

lemma covered_lowlink [simp]: "covered E (t\<lparr>ta_lowlink := f\<rparr>) base low ws = covered E t base low ws"
  by (simp add: covered_def)

lemma covered_Un: "covered E t base low (A \<union> B) \<longleftrightarrow> covered E t base low A \<and> covered E t base low B"
  by (auto simp: covered_def)

lemma covered_mono:
  assumes "covered E t base low ws" "ta_indices t \<subseteq>\<^sub>m ta_indices t'" "low' \<le> low" "set base' \<subseteq> set base"
  shows "covered E t' base' low' ws"
proof -
  from assms(1) have "ws \<subseteq> dom (ta_indices t)" by (simp add: covered_def)
  also note map_le_implies_dom_le [OF assms(2)]
  finally have "ws \<subseteq> dom (ta_indices t')" .
  moreover have "low' \<le> the (ta_indices t' w)" if "w \<in> ws" "w \<in> set base'" for w
  proof -
    from that assms(1,4) have "w \<in> dom (ta_indices t)" "low \<le> the (ta_indices t w)" by (auto simp: covered_def)
    with map_le_value [OF assms(2)] assms(3) show ?thesis by simp
  qed
  ultimately show ?thesis by (simp add: covered_def)
qed

lemma extends_trans:
  assumes "extends t0 t" "extends t t'"
  shows "extends t0 t'"
proof -
  note sub = map_le_trans [of "ta_indices t0" "ta_indices t" "ta_indices t'"]
  have dom: "dom (ta_indices t0) \<subseteq> dom (ta_indices t)"
    using assms(1) by (simp add: extends_def map_le_implies_dom_le)
  have "ta_index t0 \<le> the (ta_indices t' x)" if "x \<in> dom (ta_indices t') - dom (ta_indices t0)" for x
  proof (cases "x \<in> dom (ta_indices t)")
    case True
    with that assms map_le_value [of "ta_indices t" "ta_indices t'" x] show ?thesis by (auto simp: extends_def)
  next
    case False
    with that assms have "ta_index t \<le> the (ta_indices t' x)" "ta_index t0 \<le> ta_index t" by (auto simp: extends_def)
    then show ?thesis by simp
  qed
  moreover have "ta_lowlink t' x = ta_lowlink t0 x" if "x \<in> dom (ta_indices t0)" for x
    using that assms dom unfolding extends_def by (metis subsetD)
  ultimately show ?thesis using assms sub by (simp add: extends_def)
qed

lemma visiting_top:
  assumes "visiting E N v t0 D t S low"
  shows "v \<in> dom (ta_indices t)" "\<And>x. x \<in> set S \<Longrightarrow> the (ta_indices t v) < the (ta_indices t x)"
    "\<And>w. w \<in> set (ta_stack t0) \<Longrightarrow> the (ta_indices t w) < the (ta_indices t v)" "low \<le> the (ta_indices t v)"
proof -
  from assms have wf: "tarjan_wf E N t" and st: "ta_stack t = S @ v # ta_stack t0" by (simp_all add: visiting_def)
  from tarjan_wf_facts(3) [OF wf] st show "v \<in> dom (ta_indices t)" by simp
  from tarjan_wf_facts(6) [OF wf] st
  show "\<And>x. x \<in> set S \<Longrightarrow> the (ta_indices t v) < the (ta_indices t x)"
    and below: "\<And>w. w \<in> set (ta_stack t0) \<Longrightarrow> the (ta_indices t w) < the (ta_indices t v)"
    by (simp_all add: sorted_wrt_append)
  from assms have "ta_indices t v = Some low \<or> (\<exists>w \<in> set (ta_stack t0). ta_indices t w = Some low)"
    by (simp add: visiting_def)
  then show "low \<le> the (ta_indices t v)" using below by fastforce
qed

lemma extends_lowlink:
  assumes "extends t0 t" "ta_indices t0 v = None"
  shows "extends t0 (t\<lparr>ta_lowlink := (ta_lowlink t)(v \<mapsto> j)\<rparr>)"
proof -
  have "((ta_lowlink t)(v \<mapsto> j)) x = ta_lowlink t0 x" if "x \<in> dom (ta_indices t0)" for x
    using that assms by (cases "x = v") (simp_all add: extends_def domIff)
  with assms(1) show ?thesis by (simp add: extends_def)
qed

lemma visiting_lower:
  assumes vis: "visiting E N v t0 D t S low" and t1: "tarjan_wf E N t1" "extends t t1" "ta_stack t1 = S1 @ ta_stack t"
    and k: "covered E t1 (ta_stack t) k (\<Union>(E ` set S1))"
      "the (ta_indices t v) \<le> k \<or> (\<exists>w \<in> set (ta_stack t0). ta_indices t w = Some k)"
    and u: "covered E t1 (ta_stack t0) k {u}"
  shows "\<exists>t2. lower v k t1 = Some t2 \<and> visiting E N v t0 (insert u D) t2 (S1 @ S) (min low k)"
proof -
  note top = visiting_top [OF vis]
  from vis have v: "ta_stack t = S @ v # ta_stack t0" "ta_lowlink t v = Some low" "extends t0 t" "ta_indices t0 v = None"
    and cov: "covered E t (ta_stack t0) low (\<Union>(E ` set S) \<union> D)"
    and alt: "ta_indices t v = Some low \<or> (\<exists>w \<in> set (ta_stack t0). ta_indices t w = Some low)"
    by (simp_all add: visiting_def)
  from t1(2) have le: "ta_indices t \<subseteq>\<^sub>m ta_indices t1" by (simp add: extends_def)
  let ?t2 = "t1\<lparr>ta_lowlink := (ta_lowlink t1)(v \<mapsto> min low k)\<rparr>"
  from t1(2) top(1) v(2) have "ta_lowlink t1 v = Some low" by (simp add: extends_def)
  then have "lower v k t1 = Some ?t2" by (simp add: lower_def)
  moreover have "extends t0 ?t2" using extends_lowlink [OF extends_trans [OF v(3) t1(2)] v(4)] .
  moreover have "covered E t1 (ta_stack t0) (min low k) (\<Union>(E ` set (S1 @ S)) \<union> insert u D)"
  proof -
    have "set (ta_stack t0) \<subseteq> set (ta_stack t)" using v(1) by auto
    from covered_mono [OF k(1) map_le_refl _ this, of "min low k"] covered_mono [OF cov le _ subset_refl, of "min low k"]
      covered_mono [OF u map_le_refl _ subset_refl, of "min low k"]
    have "covered E t1 (ta_stack t0) (min low k) (\<Union>(E ` set S1) \<union> (\<Union>(E ` set S) \<union> D) \<union> {u})"
      by (simp only: covered_Un min.cobounded1 min.cobounded2 simp_thms)
    moreover have "\<Union>(E ` set S1) \<union> (\<Union>(E ` set S) \<union> D) \<union> {u} = \<Union>(E ` set (S1 @ S)) \<union> insert u D" by auto
    ultimately show ?thesis by simp
  qed
  moreover have "ta_indices t1 v = Some (min low k) \<or> (\<exists>w \<in> set (ta_stack t0). ta_indices t1 w = Some (min low k))"
  proof -
    have same: "ta_indices t1 x = Some j" if "ta_indices t x = Some j" for x j
      using that map_le_value [OF le, of x] by auto
    have "ta_indices t v = Some (min low k) \<or> (\<exists>w \<in> set (ta_stack t0). ta_indices t w = Some (min low k))"
    proof (cases "low \<le> k")
      case False
      with k(2) top(4) have "\<exists>w \<in> set (ta_stack t0). ta_indices t w = Some k" by linarith
      with False show ?thesis by (simp add: min_def)
    qed (use alt in \<open>simp add: min_def\<close>)
    with same show ?thesis by blast
  qed
  ultimately show ?thesis using t1 v by (simp add: visiting_def)
qed

lemma covered_empty [simp]: "covered E t base low {}"
  by (simp add: covered_def)

lemma visiting_stack_index:
  assumes "visiting E N v t0 D t S low" "w \<in> set (ta_stack t)" "ta_indices t w = Some k"
  shows "the (ta_indices t v) \<le> k \<or> (\<exists>w \<in> set (ta_stack t0). ta_indices t w = Some k)"
proof -
  from assms(1) have "ta_stack t = S @ v # ta_stack t0" by (simp add: visiting_def)
  with assms(2) have "w \<in> set S \<or> w = v \<or> w \<in> set (ta_stack t0)" by auto
  then show ?thesis using visiting_top(2) [OF assms(1), of w] assms(3) by fastforce
qed

lemma visiting_base: "visiting E N v t0 D t S low \<Longrightarrow> set (ta_stack t0) \<subseteq> set (ta_stack t)"
  by (simp add: visiting_def subset_insertI2)

lemma visit_new:
  assumes vis: "visiting E N v t0 D t S low" and new: "ta_indices t u = None" and con: "connected E N u t r"
  shows "\<exists>t1 k t2 S2 low2. r = Some t1 \<and> ta_lowlink t1 u = Some k \<and> lower v k t1 = Some t2
    \<and> dom (ta_indices t) \<subseteq> dom (ta_indices t2) \<and> visiting E N v t0 (insert u D) t2 S2 low2"
proof -
  from con obtain t1 S1 k where r: "r = Some t1" "ta_lowlink t1 u = Some k"
    and t1: "tarjan_wf E N t1" "extends t t1" "ta_stack t1 = S1 @ ta_stack t"
    and u: "u \<in> dom (ta_indices t1)" and cov: "covered E t1 (ta_stack t) k (\<Union>(E ` set S1))"
    and alt: "if S1 = [] then ta_indices t1 u = Some k else \<exists>w \<in> set (ta_stack t). ta_indices t w = Some k"
    unfolding connected_def by blast
  from vis have wf: "tarjan_wf E N t" by (simp add: visiting_def)
  have "the (ta_indices t v) \<le> k \<or> (\<exists>w \<in> set (ta_stack t0). ta_indices t w = Some k)"
  proof (cases "S1 = []")
    case True
    with alt u new t1(2) have "ta_index t \<le> k" by (force simp: extends_def domIff)
    with tarjan_index_bound [OF wf visiting_top(1) [OF vis]] show ?thesis by simp
  next
    case False
    with alt visiting_stack_index [OF vis] show ?thesis by auto
  qed
  moreover have "u \<notin> set (ta_stack t0)"
    using visiting_base [OF vis] tarjan_wf_facts(3) [OF wf] new by (metis UnCI domIff subsetD)
  with u have "covered E t1 (ta_stack t0) k {u}" by (simp add: covered_def)
  ultimately obtain t2 where "lower v k t1 = Some t2" "visiting E N v t0 (insert u D) t2 (S1 @ S) (min low k)"
    using visiting_lower [OF vis t1 cov] by blast
  moreover from this(1) have "ta_indices t2 = ta_indices t1" by (auto simp: lower_def)
  with t1(2) have "dom (ta_indices t) \<subseteq> dom (ta_indices t2)" by (simp add: extends_def map_le_implies_dom_le)
  ultimately show ?thesis using r by blast
qed

lemma visit_on_stack:
  assumes vis: "visiting E N v t0 D t S low" and u: "u \<in> ta_on_stack t" "ta_indices t u = Some k"
  shows "\<exists>t2 low2. lower v k t = Some t2 \<and> ta_indices t2 = ta_indices t \<and> visiting E N v t0 (insert u D) t2 S low2"
proof -
  from vis have wf: "tarjan_wf E N t" by (simp add: visiting_def)
  from u(1) tarjan_wf_facts(2) [OF wf] have "u \<in> set (ta_stack t)" by simp
  from visiting_stack_index [OF vis this u(2)] have "the (ta_indices t v) \<le> k \<or> (\<exists>w \<in> set (ta_stack t0). ta_indices t w = Some k)" .
  moreover from u(2) have "covered E t (ta_stack t0) k {u}" by (auto simp: covered_def)
  ultimately obtain t2 where "lower v k t = Some t2" "visiting E N v t0 (insert u D) t2 S (min low k)"
    using visiting_lower [OF vis wf extends_refl, of "[]" k u] by auto
  then show ?thesis by (auto simp: lower_def)
qed

lemma visit_done:
  assumes vis: "visiting E N v t0 D t S low" and u: "u \<notin> ta_on_stack t" "u \<in> dom (ta_indices t)"
  shows "visiting E N v t0 (insert u D) t S low"
proof -
  from vis have wf: "tarjan_wf E N t" by (simp add: visiting_def)
  from u(1) tarjan_wf_facts(2) [OF wf] visiting_base [OF vis] have "u \<notin> set (ta_stack t0)" by auto
  with u(2) have "covered E t (ta_stack t0) low {u}" by (simp add: covered_def)
  moreover have "\<Union>(E ` set S) \<union> insert u D = (\<Union>(E ` set S) \<union> D) \<union> {u}" by auto
  ultimately show ?thesis using vis unfolding visiting_def by (metis covered_Un)
qed

lemma visit_deps_ok:
  assumes rec: "\<And>t u. tarjan_wf E N t \<Longrightarrow> u \<in> N \<Longrightarrow> ta_indices t u = None
      \<Longrightarrow> card (N - dom (ta_indices t)) \<le> n \<Longrightarrow> connected E N u t (recur u t)" and fin: "finite N"
  shows "visiting E N v t0 D t S low \<Longrightarrow> set deps \<subseteq> N \<Longrightarrow> card (N - dom (ta_indices t)) \<le> n
    \<Longrightarrow> \<exists>t' S' low'. visit_deps recur v deps t = Some t' \<and> visiting E N v t0 (D \<union> set deps) t' S' low'"
proof (induction deps arbitrary: D t S low)
  case (Cons u deps)
  from Cons.prems(1) have wf: "tarjan_wf E N t" by (simp add: visiting_def)
  show ?case
  proof (cases "ta_indices t u")
    case None
    from Cons.prems have "connected E N u t (recur u t)" by (intro rec wf None) auto
    from visit_new [OF Cons.prems(1) None this] obtain t1 k t2 S2 low2 where
      step: "recur u t = Some t1" "ta_lowlink t1 u = Some k" "lower v k t1 = Some t2"
      and grow: "dom (ta_indices t) \<subseteq> dom (ta_indices t2)" and vis: "visiting E N v t0 (insert u D) t2 S2 low2" by blast
    from grow fin have "card (N - dom (ta_indices t2)) \<le> card (N - dom (ta_indices t))"
      by (intro card_mono) auto
    with Cons.IH [OF vis] Cons.prems step None show ?thesis by simp
  next
    case (Some k)
    show ?thesis
    proof (cases "u \<in> ta_on_stack t")
      case True
      from visit_on_stack [OF Cons.prems(1) True Some] obtain t2 low2 where
        "lower v k t = Some t2" "ta_indices t2 = ta_indices t" "visiting E N v t0 (insert u D) t2 S low2" by blast
      with Cons.IH [of "insert u D" t2 S low2] Cons.prems Some True show ?thesis by simp
    next
      case False
      with visit_done [OF Cons.prems(1) False] Cons.IH [of "insert u D" t S low] Cons.prems Some show ?thesis
        by (simp add: domI)
    qed
  qed
qed auto

lemma finish_component:
  assumes vis: "visiting E N v t0 (E v) t S low" and low: "ta_indices t v = Some low"
  shows "\<exists>t'. finish_node v t = Some t' \<and> tarjan_wf E N t' \<and> extends t0 t' \<and> ta_stack t' = ta_stack t0
    \<and> ta_indices t' v = Some low \<and> ta_lowlink t' v = Some low"
proof -
  from vis have wf: "tarjan_wf E N t" and st: "ta_stack t = S @ v # ta_stack t0" and ll: "ta_lowlink t v = Some low"
    and ext: "extends t0 t" and cov: "covered E t (ta_stack t0) low (\<Union>(E ` set S) \<union> E v)"
    by (simp_all add: visiting_def)
  note facts = tarjan_wf_facts [OF wf]
  from facts(1) have dist: "distinct ((S @ v # ta_stack t0) @ concat (ta_sccs t))" unfolding st .
  then have d: "v \<notin> set S" "distinct (ta_stack t0 @ concat (ta_sccs t @ [S @ [v]]))" by auto
  have on: "ta_on_stack t - insert v (set S) = set (ta_stack t0)" using dist unfolding facts(2) st by auto
  let ?t = "t\<lparr>ta_stack := ta_stack t0, ta_on_stack := set (ta_stack t0), ta_sccs := ta_sccs t @ [S @ [v]]\<rparr>"
  have emitted: "finish_node v t = Some ?t" using ll low d(1) on by (simp add: finish_node_def st pop_component_stack)
  have "E x \<subseteq> set (concat (ta_sccs t)) \<union> set (S @ [v])" if x: "x \<in> set (S @ [v])" for x
  proof
    fix w assume "w \<in> E x"
    with x have w: "w \<in> \<Union>(E ` set S) \<union> E v" by auto
    have "w \<notin> set (ta_stack t0)"
    proof
      assume base: "w \<in> set (ta_stack t0)"
      with w cov have "low \<le> the (ta_indices t w)" unfolding covered_def by blast
      with visiting_top(3) [OF vis base] low show False by simp
    qed
    moreover from cov have "\<Union>(E ` set S) \<union> E v \<subseteq> dom (ta_indices t)" by (simp only: covered_def)
    with w have "w \<in> set (S @ v # ta_stack t0) \<union> set (concat (ta_sccs t))"
      unfolding facts(3) st by (rule subsetD [rotated])
    ultimately show "w \<in> set (concat (ta_sccs t)) \<union> set (S @ [v])" by auto
  qed
  then have "topological E {} (ta_sccs t @ [S @ [v]])"
    using facts(7) unfolding topological_snoc list_all_iff by simp
  moreover have "sorted_wrt (\<lambda>x y. the (ta_indices t y) < the (ta_indices t x)) (ta_stack t0)"
    using facts(6) unfolding st by (simp add: sorted_wrt_append)
  moreover have "dom (ta_indices t) = set (ta_stack t0) \<union> set (concat (ta_sccs t @ [S @ [v]]))"
    unfolding facts(3) st by auto
  ultimately have "tarjan_wf E N ?t"
    by (intro tarjan_wfI) (use d(2) facts(4,5) in \<open>simp_all del: distinct_append concat_append set_append\<close>)
  moreover from ext have "extends t0 ?t" by (simp add: extends_def)
  ultimately show ?thesis using low ll emitted by simp
qed

lemma finish_node_ok:
  assumes wf0: "tarjan_wf E N t0" and vis: "visiting E N v t0 (E v) t S low"
  shows "connected E N v t0 (finish_node v t)"
proof (cases "ta_indices t v = Some low")
  case True
  from finish_component [OF vis True] obtain t' where "finish_node v t = Some t'" "tarjan_wf E N t'" "extends t0 t'"
    "ta_stack t' = ta_stack t0" "ta_indices t' v = Some low" "ta_lowlink t' v = Some low" by blast
  then show ?thesis unfolding connected_def
    by (intro exI [of _ t'] exI [of _ "[]"] exI [of _ low]) (simp add: domI)
next
  case False
  from vis have facts: "tarjan_wf E N t" "extends t0 t" "ta_stack t = (S @ [v]) @ ta_stack t0" "ta_lowlink t v = Some low"
    "covered E t (ta_stack t0) low (\<Union>(E ` set (S @ [v])))"
    and alt: "\<exists>w \<in> set (ta_stack t0). ta_indices t w = Some low"
    using False by (simp_all add: visiting_def Un_commute)
  from visiting_top(1) [OF vis] obtain k where k: "ta_indices t v = Some k" by blast
  with False facts(4) have "finish_node v t = Some t" by (simp add: finish_node_def)
  moreover have "\<exists>w \<in> set (ta_stack t0). ta_indices t0 w = Some low"
  proof -
    from facts(2) have "ta_indices t w = ta_indices t0 w" if "w \<in> set (ta_stack t0)" for w
      using that tarjan_wf_facts(3) [OF wf0] map_le_value [of "ta_indices t0" "ta_indices t" w]
      unfolding extends_def by blast
    with alt show ?thesis by auto
  qed
  ultimately show ?thesis unfolding connected_def using facts k
    by (intro exI [of _ t] exI [of _ "S @ [v]"] exI [of _ low]) (simp add: domI)
qed

lemma visiting_push:
  assumes "tarjan_wf E N t" "v \<in> N" "ta_indices t v = None"
  shows "visiting E N v t {} (push_node v t) [] (ta_index t)"
proof -
  have "extends t (push_node v t)" using assms(3)
    by (auto simp: extends_def push_node_def map_le_def domIff)
  with tarjan_wf_push [OF assms] assms(3) show ?thesis by (simp add: visiting_def push_node_def)
qed

lemma strongconnect_ok:
  assumes fin: "finite N" and closed: "\<And>x. edges dependencies x \<subseteq> N" and iter: "any_order iter"
  shows "tarjan_wf (edges dependencies) N t \<Longrightarrow> v \<in> N \<Longrightarrow> ta_indices t v = None
    \<Longrightarrow> card (N - dom (ta_indices t)) \<le> fuel
    \<Longrightarrow> connected (edges dependencies) N v t (strongconnect iter dependencies fuel v t)"
proof (induction fuel arbitrary: t v)
  case 0
  with fin have "N - dom (ta_indices t) = {}" by simp
  with 0 show ?case by (auto simp: domIff)
next
  case (Suc fuel)
  let ?E = "edges dependencies"
  note start = visiting_push [OF Suc.prems(1-3)]
  show ?case
  proof (cases "dependencies v")
    case None
    then have "?E v = {}" by (simp add: edges_def)
    with start have "visiting ?E N v t (?E v) (push_node v t) [] (ta_index t)" by simp
    from finish_node_ok [OF Suc.prems(1) this] None show ?thesis by simp
  next
    case (Some deps)
    from iter have order: "set (iter deps) = ?E v" using Some by (simp add: any_order_def edges_def)
    have "N - dom (ta_indices (push_node v t)) \<subset> N - dom (ta_indices t)"
      using Suc.prems(2,3) by (auto simp: push_node_def domIff)
    from psubset_card_mono [OF _ this] fin Suc.prems(4)
    have less: "card (N - dom (ta_indices (push_node v t))) \<le> fuel" by simp
    from order closed [of v] have "set (iter deps) \<subseteq> N" by simp
    from visit_deps_ok [OF Suc.IH fin start this less] obtain t' S' low' where
      visited: "visit_deps (strongconnect iter dependencies fuel) v (iter deps) (push_node v t) = Some t'"
      and "visiting ?E N v t ({} \<union> set (iter deps)) t' S' low'" by blast
    then have "visiting ?E N v t (?E v) t' S' low'" by (simp add: order)
    from finish_node_ok [OF Suc.prems(1) this] visited Some show ?thesis by simp
  qed
qed

lemma connect_all_ok:
  assumes fin: "finite N" and closed: "\<And>x. edges dependencies x \<subseteq> N" and iter: "any_order iter" and fuel: "card N \<le> fuel"
  shows "tarjan_wf (edges dependencies) N t \<Longrightarrow> ta_stack t = [] \<Longrightarrow> set nodes \<subseteq> N
    \<Longrightarrow> \<exists>t'. connect_all iter dependencies fuel nodes t = Some t' \<and> tarjan_wf (edges dependencies) N t' \<and> ta_stack t' = []
      \<and> dom (ta_indices t) \<union> set nodes \<subseteq> dom (ta_indices t')"
proof (induction nodes arbitrary: t)
  case (Cons v nodes)
  show ?case
  proof (cases "ta_indices t v")
    case None
    have "card (N - dom (ta_indices t)) \<le> fuel" using fuel card_mono [OF fin, of "N - dom (ta_indices t)"] by fastforce
    from strongconnect_ok [OF fin closed iter Cons.prems(1) _ None this] Cons.prems
    obtain t1 where t1: "strongconnect iter dependencies fuel v t = Some t1" "tarjan_wf (edges dependencies) N t1"
      "ta_stack t1 = []" "v \<in> dom (ta_indices t1)" "extends t t1"
      unfolding connected_def by (fastforce split: if_splits)
    from Cons.IH [OF t1(2,3)] Cons.prems(3) obtain t' where
      t': "connect_all iter dependencies fuel nodes t1 = Some t'" "tarjan_wf (edges dependencies) N t'" "ta_stack t' = []"
        "dom (ta_indices t1) \<union> set nodes \<subseteq> dom (ta_indices t')" by auto
    have "dom (ta_indices t) \<subseteq> dom (ta_indices t1)" using t1(5) by (simp add: extends_def map_le_implies_dom_le)
    with t' t1(4) have "dom (ta_indices t) \<union> set (v # nodes) \<subseteq> dom (ta_indices t')"
      by (simp only: list.set) blast
    with t' t1(1) None show ?thesis by simp
  next
    case (Some k)
    then have "v \<in> dom (ta_indices t)" by blast
    with Cons.IH [OF Cons.prems(1,2)] Cons.prems(3) Some show ?thesis by fastforce
  qed
qed simp

lemma tarjan_wf_new: "tarjan_wf E N tarjan_new"
  by (simp add: tarjan_wf_def tarjan_new_def)

lemma tarjan_sccs:
  assumes "\<And>x. edges dependencies x \<subseteq> set nodes" "any_order iter"
  shows "\<exists>t. connect_all iter dependencies (length nodes) nodes tarjan_new = Some t
    \<and> distinct (concat (ta_sccs t)) \<and> set (concat (ta_sccs t)) = set nodes \<and> topological (edges dependencies) {} (ta_sccs t)"
proof -
  from connect_all_ok [OF finite_set assms card_length tarjan_wf_new _ subset_refl] obtain t where
    t: "connect_all iter dependencies (length nodes) nodes tarjan_new = Some t" "tarjan_wf (edges dependencies) (set nodes) t"
      "ta_stack t = []" "set nodes \<subseteq> dom (ta_indices t)" by (auto simp: tarjan_new_def)
  note facts = tarjan_wf_facts [OF t(2)]
  from facts(3,4) t(3,4) have "set (concat (ta_sccs t)) = set nodes" by auto
  with t(1,3) facts(1,7) show ?thesis by (intro exI [of _ t]) simp
qed

lemma reference_target_sub: "set (reference_target candidates s) \<subseteq> set candidates"
  by (auto simp: reference_target_def split: option.splits)

lemma set_fold_insert [simp]: "set (fold List.insert xs ys) = set xs \<union> set ys"
  by (induction xs arbitrary: ys) auto

lemma collect_references_sub:
  fixes v :: "'n json"
  shows "set (collect_creation_references candidates v refs) \<subseteq> set candidates \<union> set refs"
  "set (collect_members candidates (ms :: (str \<times> 'n json) list) refs) \<subseteq> set candidates \<union> set refs"
  "set (collect_items candidates (vs :: 'n json list) refs) \<subseteq> set candidates \<union> set refs"
  using reference_target_sub [of candidates]
  by (induction candidates v refs and candidates ms refs and candidates vs refs
      rule: collect_creation_references_collect_members_collect_items.induct) fastforce+

lemma find_creation_references_sub: "set (find_creation_references candidates v) \<subseteq> set candidates"
  using collect_references_sub(1) [of candidates v "[]"] by (simp add: find_creation_references_def)

lemma check_components_cases:
  "case check_components limit cs of
     Inr cs' \<Rightarrow> cs' = cs \<and> list_all (\<lambda>c. length c \<le> limit) cs
   | Inl e \<Rightarrow> is_chunk_boundary_reference_broken e \<and> list_ex (\<lambda>c. length c > limit) cs"
proof (cases "find (\<lambda>c. length c > limit) cs")
  case None
  then have "list_all (\<lambda>c. length c \<le> limit) cs" by (auto simp: list_all_iff find_None_iff not_less)
  with None show ?thesis by (simp add: check_components_def)
next
  case (Some c)
  then have "list_ex (\<lambda>c. length c > limit) cs" by (auto simp: list_ex_iff find_Some_iff)
  with Some show ?thesis by (simp add: check_components_def is_chunk_boundary_reference_broken_def)
qed

subsection \<open>Properties\<close>

text \<open>
  C5. Sorting the creates always ends without a panic, in whatever order the hash sets are iterated. It
  gives every create exactly once, each component refers to itself and earlier components only, and
  no component is larger than the limit; otherwise it reports a broken reference because some
  component is larger.
\<close>
theorem sort_components_topological:
  assumes "\<And>x. edges dependencies x \<subseteq> set nodes" "any_order iter"
  shows "\<exists>r cs. sort_creation_components iter nodes dependencies limit = Some r
    \<and> distinct (concat cs) \<and> set (concat cs) = set nodes \<and> topological (edges dependencies) {} cs
    \<and> (case r of
         Inr cs' \<Rightarrow> cs' = cs \<and> list_all (\<lambda>c. length c \<le> limit) cs
       | Inl e \<Rightarrow> is_chunk_boundary_reference_broken e \<and> list_ex (\<lambda>c. length c > limit) cs)"
proof -
  from tarjan_sccs [of dependencies, OF assms] obtain t where
    "connect_all iter dependencies (length nodes) nodes tarjan_new = Some t" "distinct (concat (ta_sccs t))"
    "set (concat (ta_sccs t)) = set nodes" "topological (edges dependencies) {} (ta_sccs t)" by blast
  with check_components_cases [of limit "ta_sccs t"] show ?thesis
    by (intro exI [of _ "check_components limit (ta_sccs t)"] exI [of _ "ta_sccs t"])
      (simp add: sort_creation_components_def)
qed

definition sample_graph :: "str \<rightharpoonup> str list" where
  "sample_graph = [''a'' \<mapsto> [''b''], ''b'' \<mapsto> [''a'', ''c''], ''c'' \<mapsto> []]"

lemma sample_graph_sort:
  "sort_creation_components id [''a'', ''b'', ''c''] sample_graph 2 = Some (Inr [[''c''], [''b'', ''a'']] :: nat error + _)"
  by code_simp

theorem sort_components_topological_witness:
  "topological (edges sample_graph) {} [[''c''], [''b'', ''a'']]"
proof -
  have closed: "edges sample_graph x \<subseteq> set [''a'', ''b'', ''c'']" for x
    by (simp add: edges_def sample_graph_def)
  have "any_order id" by (simp add: any_order_def)
  from sort_components_topological [OF closed this, of 2] obtain r :: "nat error + str list list" and cs where
    "sort_creation_components id [''a'', ''b'', ''c''] sample_graph 2 = Some r" and topo: "topological (edges sample_graph) {} cs"
    and r: "case r of Inr cs' \<Rightarrow> cs' = cs \<and> list_all (\<lambda>c. length c \<le> 2) cs
      | Inl e \<Rightarrow> is_chunk_boundary_reference_broken e \<and> list_ex (\<lambda>c. length c > 2) cs" by blast
  then have "r = Inr [[''c''], [''b'', ''a'']]" unfolding sample_graph_sort by (simp only: option.inject)
  with r have "cs = [[''c''], [''b'', ''a'']]" by (simp only: sum.case)
  with topo show ?thesis by (simp only:)
qed

end
