(* ===== verification/Set_Chunks.thy ===== *)
theory Set_Chunks
  imports Set_Graph
begin

text \<open>
  \<^verbatim>\<open>Foo/set\<close> across \<^verbatim>\<open>maxObjectsInSet\<close> (\<^verbatim>\<open>jmap-client/src/set.rs\<close>): reading one result
  (\<open>expect_created\<close> and the like) and cutting a request into chunks (\<open>partition_set_request\<close>). The
  conversion of an object to JSON is the argument \<open>to_value\<close>, and \<open>iter\<close> is the iteration order of
  hash sets.
\<close>

subsection \<open>Reading one result\<close>

definition set_failure :: "'n set_error option \<Rightarrow> 'n error" where
  "set_failure set_error =
     (case set_error of
        Some e \<Rightarrow> Set_Err e
      | None \<Rightarrow> Protocol ''/set response reports neither success nor failure'')"

definition opt_get :: "('k \<times> 'v) list option \<Rightarrow> 'k \<Rightarrow> 'v option" where
  "opt_get m k = Option.bind m (\<lambda>m. map_of m k)"

definition expect_created :: "('n, 't) set_response \<Rightarrow> str \<Rightarrow> 'n error + 't" where
  "expect_created response creation_id =
     (case opt_get (sr_created response) creation_id of
        Some x \<Rightarrow> Ok x
      | None \<Rightarrow> Err (set_failure (opt_get (sr_not_created response) creation_id)))"

definition neither :: "jid \<Rightarrow> 'n error" where
  "neither x = Protocol (''/set response reports neither success nor failure for '' @ x)"

definition expect_updated :: "('n, 't) set_response \<Rightarrow> jid \<Rightarrow> 'n error + unit" where
  "expect_updated response x =
     (if opt_get (sr_updated response) x \<noteq> None then Ok ()
      else case opt_get (sr_not_updated response) x of
        Some e \<Rightarrow> Err (Set_Err e)
      | None \<Rightarrow> Err (neither x))"

definition expect_destroyed :: "('n, 't) set_response \<Rightarrow> jid \<Rightarrow> 'n error + unit" where
  "expect_destroyed response x =
     (if (case sr_destroyed response of Some xs \<Rightarrow> x \<in> set xs | None \<Rightarrow> False) then Ok ()
      else case opt_get (sr_not_destroyed response) x of
        Some e \<Rightarrow> Err (Set_Err e)
      | None \<Rightarrow> Err (neither x))"

subsection \<open>Cutting a request\<close>

record ('n, 't) set_chunk =
  sc_create :: "(str \<times> 't) list"
  sc_update :: "(jid \<times> 'n json) list"
  sc_destroy :: "jid list"

definition chunk_default :: "('n, 't) set_chunk" where
  "chunk_default = \<lparr>sc_create = [], sc_update = [], sc_destroy = []\<rparr>"

definition chunk_is_empty :: "('n, 't) set_chunk \<Rightarrow> bool" where
  "chunk_is_empty c \<longleftrightarrow> sc_create c = [] \<and> sc_update c = [] \<and> sc_destroy c = []"

record ('n, 't) packing =
  pk_chunks :: "('n, 't) set_chunk list"
  pk_current :: "('n, 't) set_chunk"
  pk_count :: nat

definition next_chunk :: "('n, 't) packing \<Rightarrow> ('n, 't) packing" where
  "next_chunk p = \<lparr>pk_chunks = pk_chunks p @ [pk_current p], pk_current = chunk_default, pk_count = 0\<rparr>"

definition pack_create :: "(str \<times> 't) list \<Rightarrow> str \<Rightarrow> ('n, 't) packing \<Rightarrow> ('n, 't) packing" where
  "pack_create creates cid p =
     (case map_of creates cid of
        Some item \<Rightarrow>
          p\<lparr>pk_current := (pk_current p)\<lparr>sc_create := bt_insert cid item (sc_create (pk_current p))\<rparr>,
            pk_count := pk_count p + 1\<rparr>
      | None \<Rightarrow> p)"

definition pack_component ::
  "nat \<Rightarrow> (str \<times> 't) list \<Rightarrow> str list \<Rightarrow> ('n, 't) packing \<Rightarrow> ('n, 't) packing" where
  "pack_component limit creates scc p =
     fold (pack_create creates) scc
       (if pk_count p + length scc > limit \<and> pk_count p > 0 then next_chunk p else p)"

definition pack_update :: "nat \<Rightarrow> jid \<times> 'n json \<Rightarrow> ('n, 't) packing \<Rightarrow> ('n, 't) packing" where
  "pack_update limit entry p0 =
     (let p = (if pk_count p0 \<ge> limit then next_chunk p0 else p0)
      in p\<lparr>pk_current := (pk_current p)\<lparr>sc_update := bt_insert (fst entry) (snd entry) (sc_update (pk_current p))\<rparr>,
           pk_count := pk_count p + 1\<rparr>)"

definition pack_destroy :: "nat \<Rightarrow> jid \<Rightarrow> ('n, 't) packing \<Rightarrow> ('n, 't) packing" where
  "pack_destroy limit x p0 =
     (let p = (if pk_count p0 \<ge> limit then next_chunk p0 else p0)
      in p\<lparr>pk_current := (pk_current p)\<lparr>sc_destroy := sc_destroy (pk_current p) @ [x]\<rparr>,
           pk_count := pk_count p + 1\<rparr>)"

definition close_chunks :: "('n, 't) packing \<Rightarrow> ('n, 't) set_chunk list" where
  "close_chunks p =
     (if \<not> chunk_is_empty (pk_current p) \<or> pk_chunks p = [] then pk_chunks p @ [pk_current p] else pk_chunks p)"

fun build_dependencies ::
  "('t \<Rightarrow> str + 'n json) \<Rightarrow> str list \<Rightarrow> (str \<times> 't) list \<Rightarrow> 'n error + (str \<times> str list) list" where
  "build_dependencies to_value candidates [] = Ok []"
| "build_dependencies to_value candidates ((cid, obj) # creates) =
     res_bind (map_err Json (to_value obj)) (\<lambda>v.
     res_bind (build_dependencies to_value candidates creates) (\<lambda>ds.
     Ok ((cid, filter (\<lambda>r. r \<noteq> cid) (find_creation_references candidates v)) # ds)))"

definition or_empty :: "'a list option \<Rightarrow> 'a list" where
  "or_empty xs = (case xs of Some xs \<Rightarrow> xs | None \<Rightarrow> [])"

definition pack_request ::
  "nat \<Rightarrow> ('n, 't) set_request \<Rightarrow> str list list \<Rightarrow> ('n, 't) set_chunk list" where
  "pack_request limit request sccs =
     close_chunks
       (fold (pack_destroy limit) (or_empty (sq_destroy request))
         (fold (pack_update limit) (or_empty (sq_update request))
           (fold (pack_component limit (or_empty (sq_create request))) sccs
             \<lparr>pk_chunks = [], pk_current = chunk_default, pk_count = 0\<rparr>)))"

text \<open>As in \<open>sort_creation_components\<close>, None stands for a panic.\<close>

definition partition_set_request ::
  "(str list \<Rightarrow> str list) \<Rightarrow> ('t \<Rightarrow> str + 'n json) \<Rightarrow> ('n, 't) set_request \<Rightarrow> nat
   \<Rightarrow> ('n error + ('n, 't) set_chunk list) option" where
  "partition_set_request iter to_value request limit =
     (let creates = or_empty (sq_create request); candidates = map fst creates
      in case build_dependencies to_value candidates creates of
           Inl e \<Rightarrow> Some (Err e)
         | Inr ds \<Rightarrow>
             map_option (\<lambda>r. res_bind r (\<lambda>sccs. Ok (pack_request limit request sccs)))
               (sort_creation_components iter candidates (map_of ds) limit))"

subsection \<open>The chunks of a request\<close>

definition chunk_items :: "('n, 't) set_chunk \<Rightarrow> nat" where
  "chunk_items c = length (sc_create c) + length (sc_update c) + length (sc_destroy c)"

definition chunk_keys :: "('n, 't) set_chunk \<Rightarrow> str list" where
  "chunk_keys c = map fst (sc_create c)"

text \<open>All chunks of a packing, the open one last.\<close>

definition all_chunks :: "('n, 't) packing \<Rightarrow> ('n, 't) set_chunk list" where
  "all_chunks p = pk_chunks p @ [pk_current p]"

definition packed :: "nat \<Rightarrow> ('n, 't) packing \<Rightarrow> bool" where
  "packed limit p \<longleftrightarrow> pk_count p = chunk_items (pk_current p)
     \<and> list_all (\<lambda>c. chunk_items c \<le> limit) (all_chunks p)"

lemma all_chunks_next: "all_chunks (next_chunk p) = all_chunks p @ [chunk_default]"
  by (simp add: all_chunks_def next_chunk_def)

lemma packed_next: "packed limit p \<Longrightarrow> packed limit (next_chunk p)"
  by (simp add: packed_def all_chunks_next) (simp add: next_chunk_def chunk_default_def chunk_items_def)

lemma build_dependencies_keys: "build_dependencies to_value candidates creates = Inr ds \<Longrightarrow> map fst ds = map fst creates"
  by (induction creates arbitrary: ds) (auto simp: res_bind_Inr_iff)

lemma build_dependencies_edges:
  assumes "build_dependencies to_value candidates creates = Inr ds"
  shows "edges (map_of ds) x \<subseteq> set candidates"
proof -
  have "\<forall>(cid, refs) \<in> set ds. set refs \<subseteq> set candidates"
    using assms find_creation_references_sub
    by (induction creates arbitrary: ds) (fastforce simp: res_bind_Inr_iff)+
  then show ?thesis by (auto simp: edges_def split: option.splits dest!: map_of_SomeD)
qed

lemma topological_cong: "map set cs = map set ds \<Longrightarrow> topological E seen cs = topological E seen ds"
proof (induction cs arbitrary: ds seen)
  case (Cons c cs)
  then obtain d ds' where ds: "ds = d # ds'" "set c = set d" "map set cs = map set ds'" by (auto simp: Cons_eq_map_conv)
  from Cons.IH [OF ds(3), of "seen \<union> set d"] ds show ?case by (simp add: list_all_iff)
qed simp

lemma topological_append: "topological E seen (cs @ ds) \<longleftrightarrow> topological E seen cs \<and> topological E (seen \<union> set (concat cs)) ds"
  by (induction cs arbitrary: seen) (auto simp: Un_assoc)

lemma topological_concat: "topological E seen cs \<Longrightarrow> list_all (\<lambda>x. E x \<subseteq> seen \<union> set (concat cs)) (concat cs)"
  by (induction cs arbitrary: seen) (fastforce simp: list_all_iff)+

lemma topological_groups: "topological E seen (concat groups) \<Longrightarrow> topological E seen (map concat groups)"
proof (induction groups arbitrary: seen)
  case (Cons g groups)
  then have "topological E seen g" "topological E (seen \<union> set (concat g)) (concat groups)"
    by (simp_all add: topological_append)
  with Cons.IH topological_concat [of E seen g] show ?case by simp
qed simp

text \<open>The creates of each chunk are those of a group of consecutive components.\<close>

definition grouped :: "(str \<times> 't) list \<Rightarrow> str list list \<Rightarrow> ('n, 't) set_chunk list \<Rightarrow> bool" where
  "grouped creates comps chunks \<longleftrightarrow> (\<exists>groups. concat groups = comps
     \<and> list_all2 (\<lambda>g c. set (chunk_keys c) = set (concat g)) groups chunks)
     \<and> list_all (\<lambda>c. bt_wf (sc_create c) \<and> map_of (sc_create c) \<subseteq>\<^sub>m map_of creates) chunks"

lemma grouped_keys:
  assumes "grouped creates comps chunks"
  shows "\<exists>groups. concat groups = comps \<and> map set (map chunk_keys chunks) = map set (map concat groups)"
proof -
  from assms obtain groups where g: "concat groups = comps"
    "list_all2 (\<lambda>g c. set (chunk_keys c) = set (concat g)) groups chunks" unfolding grouped_def by blast
  from g(2) have "map set (map chunk_keys chunks) = map set (map concat groups)"
    by (induction rule: list_all2_induct) simp_all
  with g(1) show ?thesis by blast
qed

lemma grouped_topological: "grouped creates comps chunks \<Longrightarrow> topological E {} comps \<Longrightarrow> topological E {} (map chunk_keys chunks)"
  using grouped_keys topological_groups topological_cong by metis

lemma distinct_concat_sets:
  "map set xs = map set ys \<Longrightarrow> list_all distinct xs \<Longrightarrow> distinct (concat ys) \<Longrightarrow> distinct (concat xs)"
proof (induction xs arbitrary: ys)
  case (Cons x xs)
  then obtain y ys' where ys: "ys = y # ys'" "set x = set y" "map set xs = map set ys'" by (auto simp: Cons_eq_map_conv)
  have "set (concat xs) = set (concat ys')" using ys(3) by (metis set_concat set_map)
  with Cons ys show ?case by simp
qed simp

lemma grouped_creates:
  assumes "grouped creates comps chunks" "distinct (concat comps)"
  shows "distinct (concat (map chunk_keys chunks))" "set (concat (map chunk_keys chunks)) = set (concat comps)"
proof -
  from grouped_keys [OF assms(1)] obtain groups where g: "concat groups = comps"
    "map set (map chunk_keys chunks) = map set (map concat groups)" by blast
  have same: "concat (map concat groups) = concat comps" unfolding g(1) [symmetric] by (induction groups) simp_all
  from assms(1) have "list_all distinct (map chunk_keys chunks)"
    using bt_wf_distinct by (auto simp: grouped_def list_all_iff chunk_keys_def bt_keys_def)
  with distinct_concat_sets [OF g(2)] assms(2) same show "distinct (concat (map chunk_keys chunks))" by simp
  from g(2) same show "set (concat (map chunk_keys chunks)) = set (concat comps)" by (metis set_concat set_map)
qed

lemma pack_creates_current:
  assumes "distinct xs" "set xs \<inter> set (chunk_keys (pk_current p)) = {}" "set xs \<subseteq> dom (map_of creates)"
    "bt_wf (sc_create (pk_current p))" "map_of (sc_create (pk_current p)) \<subseteq>\<^sub>m map_of creates"
  shows "\<exists>c'. fold (pack_create creates) xs p = p\<lparr>pk_current := c', pk_count := pk_count p + length xs\<rparr>
    \<and> set (chunk_keys c') = set (chunk_keys (pk_current p)) \<union> set xs \<and> chunk_items c' = chunk_items (pk_current p) + length xs
    \<and> bt_wf (sc_create c') \<and> map_of (sc_create c') \<subseteq>\<^sub>m map_of creates
    \<and> sc_update c' = sc_update (pk_current p) \<and> sc_destroy c' = sc_destroy (pk_current p)"
  using assms
proof (induction xs arbitrary: p)
  case Nil
  then show ?case by (intro exI [of _ "pk_current p"]) simp
next
  case (Cons x xs)
  from Cons.prems(3) obtain item where item: "map_of creates x = Some item" by auto
  let ?c = "(pk_current p)\<lparr>sc_create := bt_insert x item (sc_create (pk_current p))\<rparr>"
  let ?p = "p\<lparr>pk_current := ?c, pk_count := pk_count p + 1\<rparr>"
  have fresh: "\<not> bt_contains (sc_create (pk_current p)) x"
    using Cons.prems(2) by (auto simp: bt_contains_def bt_keys_def chunk_keys_def)
  have keys: "set (chunk_keys ?c) = insert x (set (chunk_keys (pk_current p)))"
    using bt_keys_insert [of x item] by (simp add: chunk_keys_def bt_keys_def)
  have items: "chunk_items ?c = chunk_items (pk_current p) + 1" using bt_insert_absent(1) [OF fresh] by (simp add: chunk_items_def)
  have sub: "map_of (sc_create ?c) \<subseteq>\<^sub>m map_of creates"
    using Cons.prems(5) item map_of_bt_insert [OF Cons.prems(4)] by (auto simp: map_le_def)
  have "set xs \<inter> set (chunk_keys (pk_current ?p)) = {}" using Cons.prems(1,2) keys by auto
  from Cons.IH [of ?p, OF _ this] Cons.prems sub obtain c' where
    "fold (pack_create creates) xs ?p = ?p\<lparr>pk_current := c', pk_count := pk_count ?p + length xs\<rparr>"
    "set (chunk_keys c') = set (chunk_keys ?c) \<union> set xs" "chunk_items c' = chunk_items ?c + length xs"
    "bt_wf (sc_create c')" "map_of (sc_create c') \<subseteq>\<^sub>m map_of creates"
    "sc_update c' = sc_update (pk_current p)" "sc_destroy c' = sc_destroy (pk_current p)" by auto
  moreover have "pack_create creates x p = ?p" by (simp add: pack_create_def item)
  ultimately show ?case using keys items by (intro exI [of _ c']) simp
qed

lemma grouped_next:
  assumes "grouped creates comps (all_chunks p)"
  shows "grouped creates comps (all_chunks (next_chunk p))"
proof -
  from assms obtain groups where g: "concat groups = comps"
    "list_all2 (\<lambda>g c. set (chunk_keys c) = set (concat g)) groups (all_chunks p)" unfolding grouped_def by blast
  from g(2) have "list_all2 (\<lambda>g c. set (chunk_keys c) = set (concat g)) (groups @ [[]]) (all_chunks (next_chunk p))"
    by (simp add: all_chunks_next list_all2_appendI chunk_keys_def chunk_default_def)
  moreover have "concat (groups @ [[]]) = comps" using g(1) by simp
  ultimately show ?thesis using assms unfolding grouped_def all_chunks_next
    by (intro conjI exI [of _ "groups @ [[]]"]) (simp_all add: chunk_default_def)
qed

lemma grouped_extend:
  assumes "grouped creates comps (cs @ [c])" "set (chunk_keys c') = set (chunk_keys c) \<union> set scc"
    "bt_wf (sc_create c')" "map_of (sc_create c') \<subseteq>\<^sub>m map_of creates"
  shows "grouped creates (comps @ [scc]) (cs @ [c'])"
proof -
  from assms(1) obtain groups where g: "concat groups = comps"
    "list_all2 (\<lambda>g c. set (chunk_keys c) = set (concat g)) groups (cs @ [c])" unfolding grouped_def by blast
  from g(2) obtain gs last_g where gs: "groups = gs @ [last_g]"
    "list_all2 (\<lambda>g c. set (chunk_keys c) = set (concat g)) gs cs" "set (chunk_keys c) = set (concat last_g)"
    by (auto simp: list_all2_append2 list_all2_Cons2)
  have "list_all2 (\<lambda>g c. set (chunk_keys c) = set (concat g)) (gs @ [last_g @ [scc]]) (cs @ [c'])"
    using gs(2,3) assms(2) by (intro list_all2_appendI) (simp_all add: Un_commute)
  moreover have "concat (gs @ [last_g @ [scc]]) = comps @ [scc]" using g(1) gs(1) by simp
  moreover have "list_all (\<lambda>c. bt_wf (sc_create c) \<and> map_of (sc_create c) \<subseteq>\<^sub>m map_of creates) (cs @ [c'])"
    using assms(1,3,4) by (simp add: grouped_def)
  ultimately show ?thesis unfolding grouped_def by blast
qed

lemma grouped_current_keys:
  assumes "grouped creates comps (all_chunks p)"
  shows "set (chunk_keys (pk_current p)) \<subseteq> set (concat comps)"
proof -
  from grouped_keys [OF assms] obtain groups where g: "concat groups = comps"
    "map set (map chunk_keys (all_chunks p)) = map set (map concat groups)" by blast
  have "set (concat (map chunk_keys (all_chunks p))) = set (concat (map concat groups))" using g(2) by (metis set_concat set_map)
  also have "concat (map concat groups) = concat comps" unfolding g(1) [symmetric] by (induction groups) simp_all
  finally show ?thesis by (auto simp: all_chunks_def)
qed

definition no_changes :: "('n, 't) packing \<Rightarrow> bool" where
  "no_changes p \<longleftrightarrow> concat (map sc_update (all_chunks p)) = [] \<and> concat (map sc_destroy (all_chunks p)) = []"

lemma pack_component_ok:
  assumes "packed limit p" "grouped creates comps (all_chunks p)" "no_changes p"
    "distinct (concat (comps @ [scc]))" "set scc \<subseteq> dom (map_of creates)" "length scc \<le> limit"
  shows "packed limit (pack_component limit creates scc p)
    \<and> grouped creates (comps @ [scc]) (all_chunks (pack_component limit creates scc p))
    \<and> no_changes (pack_component limit creates scc p)"
proof -
  let ?q = "if pk_count p + length scc > limit \<and> pk_count p > 0 then next_chunk p else p"
  have q: "packed limit ?q" "grouped creates comps (all_chunks ?q)" "no_changes ?q"
    using assms(1-3) packed_next grouped_next by (auto simp: no_changes_def all_chunks_next chunk_default_def)
  have room: "pk_count ?q + length scc \<le> limit" using assms(6) by (simp add: next_chunk_def)
  from assms(4) have "distinct scc" and "set scc \<inter> set (concat comps) = {}" by auto
  with grouped_current_keys [OF q(2)] have apart: "distinct scc" "set scc \<inter> set (chunk_keys (pk_current ?q)) = {}"
    by blast+
  have cur: "bt_wf (sc_create (pk_current ?q))" "map_of (sc_create (pk_current ?q)) \<subseteq>\<^sub>m map_of creates"
    using q(2) by (simp_all add: grouped_def all_chunks_def)
  from pack_creates_current [OF apart assms(5) cur] obtain c' where
    step: "pack_component limit creates scc p = ?q\<lparr>pk_current := c', pk_count := pk_count ?q + length scc\<rparr>"
    and c': "set (chunk_keys c') = set (chunk_keys (pk_current ?q)) \<union> set scc" "chunk_items c' = chunk_items (pk_current ?q) + length scc"
      "bt_wf (sc_create c')" "map_of (sc_create c') \<subseteq>\<^sub>m map_of creates"
      "sc_update c' = sc_update (pk_current ?q)" "sc_destroy c' = sc_destroy (pk_current ?q)"
    unfolding pack_component_def by blast
  let ?p = "pack_component limit creates scc p"
  have all: "all_chunks ?p = pk_chunks ?q @ [c']" unfolding step by (simp add: all_chunks_def)
  have "packed limit ?p" using q(1) c'(2) room unfolding packed_def all by (simp add: step all_chunks_def)
  moreover have "grouped creates (comps @ [scc]) (all_chunks ?p)"
    unfolding all by (rule grouped_extend [OF q(2) [unfolded all_chunks_def] c'(1,3,4)])
  moreover have "no_changes ?p" using q(3) c'(5,6) unfolding no_changes_def all by (simp add: all_chunks_def)
  ultimately show ?thesis by blast
qed

lemma pack_components_ok:
  assumes "packed limit p" "grouped creates comps (all_chunks p)" "no_changes p"
    "distinct (concat (comps @ sccs))" "set (concat sccs) \<subseteq> dom (map_of creates)" "list_all (\<lambda>scc. length scc \<le> limit) sccs"
  shows "packed limit (fold (pack_component limit creates) sccs p)
    \<and> grouped creates (comps @ sccs) (all_chunks (fold (pack_component limit creates) sccs p))
    \<and> no_changes (fold (pack_component limit creates) sccs p)"
  using assms
proof (induction sccs arbitrary: comps p)
  case (Cons scc sccs)
  have "packed limit (pack_component limit creates scc p)
    \<and> grouped creates (comps @ [scc]) (all_chunks (pack_component limit creates scc p))
    \<and> no_changes (pack_component limit creates scc p)"
    using Cons.prems by (intro pack_component_ok) auto
  with Cons.IH [of "pack_component limit creates scc p" "comps @ [scc]"] Cons.prems show ?case by simp
qed simp

lemma bt_insert_greatest: "\<forall>k \<in> set (bt_keys m). k < x \<Longrightarrow> bt_insert x v m = m @ [(x, v)]"
  by (induction x v m rule: bt_insert.induct) auto

lemma grouped_same_creates:
  "grouped creates comps (cs @ [c]) \<Longrightarrow> sc_create c' = sc_create c \<Longrightarrow> grouped creates comps (cs @ [c'])"
  unfolding grouped_def chunk_keys_def by (auto simp: list_all2_append2 list_all2_Cons2)

lemma pk_count_next: "pk_count (next_chunk p) = 0"
  by (simp add: next_chunk_def)

lemma next_chunk_same:
  "concat (map sc_update (all_chunks (next_chunk p))) = concat (map sc_update (all_chunks p))"
  "concat (map sc_destroy (all_chunks (next_chunk p))) = concat (map sc_destroy (all_chunks p))"
  by (simp_all add: all_chunks_next chunk_default_def)

lemma make_room:
  assumes "packed limit p" "0 < limit" "grouped creates comps (all_chunks p)"
  shows "packed limit (if pk_count p \<ge> limit then next_chunk p else p)"
    "grouped creates comps (all_chunks (if pk_count p \<ge> limit then next_chunk p else p))"
    "concat (map sc_update (all_chunks (if pk_count p \<ge> limit then next_chunk p else p))) = concat (map sc_update (all_chunks p))"
    "concat (map sc_destroy (all_chunks (if pk_count p \<ge> limit then next_chunk p else p))) = concat (map sc_destroy (all_chunks p))"
    "pk_count (if pk_count p \<ge> limit then next_chunk p else p) < limit"
  using assms packed_next [OF assms(1)] grouped_next [OF assms(3)]
  by (cases "pk_count p \<ge> limit"; simp add: pk_count_next next_chunk_same)+

lemma pack_update_ok:
  assumes "packed limit p" "0 < limit" "grouped creates comps (all_chunks p)"
    "concat (map sc_update (all_chunks p)) = us" "\<forall>k \<in> set (bt_keys us). k < fst e"
  shows "packed limit (pack_update limit e p) \<and> grouped creates comps (all_chunks (pack_update limit e p))
    \<and> concat (map sc_update (all_chunks (pack_update limit e p))) = us @ [e]
    \<and> concat (map sc_destroy (all_chunks (pack_update limit e p))) = concat (map sc_destroy (all_chunks p))"
proof -
  let ?q = "if pk_count p \<ge> limit then next_chunk p else p"
  let ?c = "(pk_current ?q)\<lparr>sc_update := sc_update (pk_current ?q) @ [e]\<rparr>"
  note q = make_room [OF assms(1-3), unfolded assms(4)]
  have "set (bt_keys (sc_update (pk_current ?q))) \<subseteq> set (bt_keys us)"
    unfolding q(3) [symmetric] by (auto simp: all_chunks_def bt_keys_def)
  with assms(5) have "bt_insert (fst e) (snd e) (sc_update (pk_current ?q)) = sc_update (pk_current ?q) @ [e]"
    by (subst bt_insert_greatest) auto
  then have step: "pack_update limit e p = ?q\<lparr>pk_current := ?c, pk_count := pk_count ?q + 1\<rparr>"
    by (simp add: pack_update_def Let_def)
  have all: "all_chunks (pack_update limit e p) = pk_chunks ?q @ [?c]" unfolding step by (simp add: all_chunks_def)
  have "packed limit (pack_update limit e p)"
    using q(1,5) unfolding packed_def all by (simp add: step all_chunks_def chunk_items_def)
  moreover have "grouped creates comps (all_chunks (pack_update limit e p))"
    unfolding all by (rule grouped_same_creates [OF q(2) [unfolded all_chunks_def]]) simp
  ultimately show ?thesis using q(3,4) unfolding all by (simp add: all_chunks_def)
qed

lemma pack_updates_ok:
  assumes "packed limit p" "0 < limit" "grouped creates comps (all_chunks p)"
    "concat (map sc_update (all_chunks p)) = done" "bt_wf (done @ us)"
  shows "packed limit (fold (pack_update limit) us p) \<and> grouped creates comps (all_chunks (fold (pack_update limit) us p))
    \<and> concat (map sc_update (all_chunks (fold (pack_update limit) us p))) = done @ us
    \<and> concat (map sc_destroy (all_chunks (fold (pack_update limit) us p))) = concat (map sc_destroy (all_chunks p))"
  using assms
proof (induction us arbitrary: p "done")
  case (Cons e us)
  from Cons.prems(5) have "\<forall>k \<in> set (bt_keys done). k < fst e"
    by (auto simp: bt_wf_def bt_keys_def sorted_wrt_append)
  from pack_update_ok [OF Cons.prems(1-4) this] Cons.IH [of "pack_update limit e p" "done @ [e]"] Cons.prems(2,5)
  show ?case by simp
qed simp

lemma pack_destroy_ok:
  assumes "packed limit p" "0 < limit" "grouped creates comps (all_chunks p)"
  shows "packed limit (pack_destroy limit x p) \<and> grouped creates comps (all_chunks (pack_destroy limit x p))
    \<and> concat (map sc_update (all_chunks (pack_destroy limit x p))) = concat (map sc_update (all_chunks p))
    \<and> concat (map sc_destroy (all_chunks (pack_destroy limit x p))) = concat (map sc_destroy (all_chunks p)) @ [x]"
proof -
  let ?q = "if pk_count p \<ge> limit then next_chunk p else p"
  let ?c = "(pk_current ?q)\<lparr>sc_destroy := sc_destroy (pk_current ?q) @ [x]\<rparr>"
  note q = make_room [OF assms]
  have step: "pack_destroy limit x p = ?q\<lparr>pk_current := ?c, pk_count := pk_count ?q + 1\<rparr>"
    by (simp add: pack_destroy_def Let_def)
  have all: "all_chunks (pack_destroy limit x p) = pk_chunks ?q @ [?c]" unfolding step by (simp add: all_chunks_def)
  have "packed limit (pack_destroy limit x p)"
    using q(1,5) unfolding packed_def all by (simp add: step all_chunks_def chunk_items_def)
  moreover have "grouped creates comps (all_chunks (pack_destroy limit x p))"
    unfolding all by (rule grouped_same_creates [OF q(2) [unfolded all_chunks_def]]) simp
  ultimately show ?thesis using q(3,4) unfolding all by (simp add: all_chunks_def)
qed

lemma pack_destroys_ok:
  assumes "packed limit p" "0 < limit" "grouped creates comps (all_chunks p)"
  shows "packed limit (fold (pack_destroy limit) xs p) \<and> grouped creates comps (all_chunks (fold (pack_destroy limit) xs p))
    \<and> concat (map sc_update (all_chunks (fold (pack_destroy limit) xs p))) = concat (map sc_update (all_chunks p))
    \<and> concat (map sc_destroy (all_chunks (fold (pack_destroy limit) xs p))) = concat (map sc_destroy (all_chunks p)) @ xs"
  using assms
proof (induction xs arbitrary: p)
  case (Cons x xs)
  from pack_destroy_ok [OF Cons.prems] Cons.IH [of "pack_destroy limit x p"] Cons.prems(2) show ?case by simp
qed simp

text \<open>What \<open>partition_set_request\<close> promises of the chunks of a request.\<close>

definition chunks_of :: "nat \<Rightarrow> ('n, 't) set_request \<Rightarrow> (str \<Rightarrow> str set) \<Rightarrow> ('n, 't) set_chunk list \<Rightarrow> bool" where
  "chunks_of limit request E chunks \<longleftrightarrow>
     list_all (\<lambda>c. chunk_items c \<le> limit \<and> map_of (sc_create c) \<subseteq>\<^sub>m map_of (or_empty (sq_create request))) chunks
     \<and> distinct (concat (map chunk_keys chunks))
     \<and> set (concat (map chunk_keys chunks)) = set (map fst (or_empty (sq_create request)))
     \<and> concat (map sc_update chunks) = or_empty (sq_update request)
     \<and> concat (map sc_destroy chunks) = or_empty (sq_destroy request)
     \<and> topological E {} (map chunk_keys chunks)"

lemma chunks_of_close:
  assumes "chunks_of limit request E (all_chunks p)"
  shows "chunks_of limit request E (close_chunks p)"
proof (cases "\<not> chunk_is_empty (pk_current p) \<or> pk_chunks p = []")
  case True
  then have "close_chunks p = all_chunks p" by (simp only: close_chunks_def all_chunks_def if_True)
  with assms show ?thesis by simp
next
  case False
  then have "chunk_keys (pk_current p) = []" "sc_update (pk_current p) = []" "sc_destroy (pk_current p) = []"
    and closed: "close_chunks p = pk_chunks p"
    by (simp_all add: chunk_is_empty_def chunk_keys_def close_chunks_def)
  with assms show ?thesis unfolding closed by (simp add: chunks_of_def all_chunks_def topological_append)
qed

lemma pack_request_ok:
  assumes "0 < limit" "bt_wf (or_empty (sq_update request))" "distinct (concat sccs)"
    "set (concat sccs) = set (map fst (or_empty (sq_create request)))" "list_all (\<lambda>scc. length scc \<le> limit) sccs"
    "topological E {} sccs"
  shows "chunks_of limit request E (pack_request limit request sccs)"
proof -
  let ?creates = "or_empty (sq_create request)"
  let ?p0 = "\<lparr>pk_chunks = [], pk_current = chunk_default, pk_count = 0\<rparr> :: ('a, 'b) packing"
  let ?p1 = "fold (pack_component limit ?creates) sccs ?p0"
  let ?p2 = "fold (pack_update limit) (or_empty (sq_update request)) ?p1"
  let ?p3 = "fold (pack_destroy limit) (or_empty (sq_destroy request)) ?p2"
  have "packed limit ?p0" "grouped ?creates [] (all_chunks ?p0)" "no_changes ?p0"
    by (auto simp: packed_def all_chunks_def chunk_default_def chunk_items_def grouped_def chunk_keys_def no_changes_def
        intro!: exI [of _ "[[]]"])
  moreover have "set (concat sccs) \<subseteq> dom (map_of ?creates)" using assms(4) by (simp add: dom_map_of_conv_image_fst)
  ultimately have p1: "packed limit ?p1" "grouped ?creates sccs (all_chunks ?p1)" "no_changes ?p1"
    using pack_components_ok [of limit ?p0 ?creates "[]" sccs] assms(3,5) by simp_all
  note p2 = pack_updates_ok [OF p1(1) assms(1) p1(2), of "[]" "or_empty (sq_update request)"]
  from p1(3) assms(2) p2 have p2: "packed limit ?p2" "grouped ?creates sccs (all_chunks ?p2)"
    "concat (map sc_update (all_chunks ?p2)) = or_empty (sq_update request)" "concat (map sc_destroy (all_chunks ?p2)) = []"
    by (simp_all add: no_changes_def)
  from pack_destroys_ok [OF p2(1) assms(1) p2(2), of "or_empty (sq_destroy request)"] p2(3,4)
  have p3: "packed limit ?p3" "grouped ?creates sccs (all_chunks ?p3)"
    "concat (map sc_update (all_chunks ?p3)) = or_empty (sq_update request)"
    "concat (map sc_destroy (all_chunks ?p3)) = or_empty (sq_destroy request)" by simp_all
  have "chunks_of limit request E (all_chunks ?p3)"
    using p3(1) p3(2) grouped_creates [OF p3(2) assms(3)] assms(4) grouped_topological [OF p3(2) assms(6)]
    unfolding chunks_of_def p3(3,4) by (simp add: packed_def grouped_def list_all_iff)
  then show ?thesis unfolding pack_request_def by (rule chunks_of_close)
qed

lemma build_dependencies_error: "build_dependencies to_value candidates creates = Inl e \<Longrightarrow> \<exists>message. e = Json message"
  by (induction creates) (auto simp: res_bind_Inl_iff map_err_def split: sum.splits)

lemma partition_ok:
  fixes request :: "('n, 't) set_request"
  assumes "0 < limit" "bt_wf (or_empty (sq_update request))" "any_order iter"
  shows "\<exists>r. partition_set_request iter to_value request limit = Some r
    \<and> (case r of
         Inr chunks \<Rightarrow> \<exists>ds. build_dependencies to_value (map fst (or_empty (sq_create request))) (or_empty (sq_create request)) = Inr ds
           \<and> chunks_of limit request (edges (map_of ds)) chunks
       | Inl e \<Rightarrow> is_chunk_boundary_reference_broken e \<or> (\<exists>message. e = Json message))"
proof -
  let ?creates = "or_empty (sq_create request)"
  let ?keys = "map fst ?creates"
  show ?thesis
  proof (cases "build_dependencies to_value ?keys ?creates")
    case (Inl e)
    with build_dependencies_error [OF Inl] show ?thesis by (simp add: partition_set_request_def Let_def)
  next
    case (Inr ds)
    from tarjan_sccs [of "map_of ds" ?keys, OF build_dependencies_edges [OF Inr] assms(3)] obtain t where
      t: "connect_all iter (map_of ds) (length ?keys) ?keys tarjan_new = Some t" "distinct (concat (ta_sccs t))"
        "set (concat (ta_sccs t)) = set ?keys" "topological (edges (map_of ds)) {} (ta_sccs t)" by blast
    have "partition_set_request iter to_value request limit =
        Some (res_bind (check_components limit (ta_sccs t)) (\<lambda>sccs. Ok (pack_request limit request sccs)))"
      using Inr t(1) by (simp add: partition_set_request_def Let_def sort_creation_components_def)
    moreover have "chunks_of limit request (edges (map_of ds)) (pack_request limit request (ta_sccs t))"
      if "list_all (\<lambda>c. length c \<le> limit) (ta_sccs t)"
      by (rule pack_request_ok [OF assms(1,2) t(2,3) that t(4)])
    moreover have "case (check_components limit (ta_sccs t) :: 'n error + _) of
        Inr cs \<Rightarrow> cs = ta_sccs t \<and> list_all (\<lambda>c. length c \<le> limit) (ta_sccs t)
      | Inl e \<Rightarrow> is_chunk_boundary_reference_broken e \<and> list_ex (\<lambda>c. length c > limit) (ta_sccs t)"
      by (rule check_components_cases)
    ultimately show ?thesis using Inr
      by (cases "check_components limit (ta_sccs t) :: 'n error + _") simp_all
  qed
qed

subsection \<open>Properties\<close>

text \<open>
  C4. Cutting a request never panics. When it succeeds, no chunk has more items than the limit, every
  create is in exactly one chunk and unchanged, the updates and the destroys of the chunks are those of
  the request in their order, and each create refers only to creates of its own or an earlier chunk.
  Otherwise the error is a broken reference or a failed JSON conversion.
\<close>
theorem partition_chunks:
  assumes "0 < limit" "bt_wf (or_empty (sq_update request))" "any_order iter"
  shows "\<exists>r. partition_set_request iter to_value request limit = Some r
    \<and> (case r of
         Inr chunks \<Rightarrow> \<exists>ds. build_dependencies to_value (map fst (or_empty (sq_create request))) (or_empty (sq_create request)) = Inr ds
           \<and> chunks_of limit request (edges (map_of ds)) chunks
       | Inl e \<Rightarrow> is_chunk_boundary_reference_broken e \<or> (\<exists>message. e = Json message))"
  by (rule partition_ok [OF assms])

definition sample_set :: "(nat, nat json) set_request" where
  "sample_set = \<lparr>sq_account_id = ''A'', sq_if_in_state = Some ''0'',
     sq_create = Some [(''a'', String ''#b''), (''b'', Null)], sq_update = Some [(''u'', String ''#a'')],
     sq_destroy = Some [''d'']\<rparr>"

lemma sample_set_partition:
  "partition_set_request id Inr sample_set 2 =
     Some (Inr [\<lparr>sc_create = [(''a'', String ''#b''), (''b'', Null)], sc_update = [], sc_destroy = []\<rparr>,
                \<lparr>sc_create = [], sc_update = [(''u'', String ''#a'')], sc_destroy = [''d'']\<rparr>] :: nat error + _)"
  by code_simp

lemma sample_set_wf: "bt_wf (or_empty (sq_update sample_set))" "any_order id"
  by (simp_all add: sample_set_def or_empty_def bt_wf_def any_order_def)

theorem partition_chunks_witness:
  "\<exists>E. chunks_of 2 sample_set E [\<lparr>sc_create = [(''a'', String ''#b''), (''b'', Null)], sc_update = [], sc_destroy = []\<rparr>,
     \<lparr>sc_create = [], sc_update = [(''u'', String ''#a'')], sc_destroy = [''d'']\<rparr>]"
proof -
  have two: "0 < (2 :: nat)" by simp
  from partition_chunks [OF two sample_set_wf, of Inr] show ?thesis
    unfolding sample_set_partition option.inject by (elim exE conjE, hypsubst) (simp only: sum.case, blast)
qed

end
