(* ===== verification/Set_Send.thy ===== *)
theory Set_Send
  imports Set_Chunks
begin

text \<open>
  Sending the chunks of a \<^verbatim>\<open>Foo/set\<close> request in order (\<^verbatim>\<open>jmap-client/src/set.rs\<close>): the creation ids, the
  state and the failures of one chunk go into the next (\<open>send_chunks\<close>), and the responses are merged.
  The call that sends a chunk is the argument \<open>exec\<close>; \<open>set_chunked\<close> instantiates it with a method call.
\<close>

subsection \<open>Sending the chunks\<close>

record ('n, 't) sending =
  sn_created_ids :: "(jid \<times> jid) list"
  sn_failed :: "str set"
  sn_state :: "jstate option"
  sn_merged :: "('n, 't) set_response"
  sn_applied :: bool

definition unresolved :: "str \<Rightarrow> 'n error" where
  "unresolved creation_id =
     ChunkBoundaryReferenceBroken creation_id
       (''creation reference #'' @ creation_id @ '' was not resolved before chunk boundary'')"

definition reference_error :: "str \<Rightarrow> 'n set_error" where
  "reference_error failed_id =
     (set_error_new ''invalidProperties'')\<lparr>ser_description :=
        Some (''creation reference #'' @ failed_id @ '' failed in earlier chunk'')\<rparr>"

definition opt_insert :: "'k::linorder \<Rightarrow> 'v \<Rightarrow> ('k \<times> 'v) list option \<Rightarrow> ('k \<times> 'v) list option" where
  "opt_insert k v m = Some (bt_insert k v (or_empty m))"

definition mark_failed :: "str \<Rightarrow> str \<Rightarrow> ('n, 't) sending \<Rightarrow> ('n, 't) sending" where
  "mark_failed cid failed_id sn =
     sn\<lparr>sn_failed := insert cid (sn_failed sn),
        sn_merged := (sn_merged sn)\<lparr>sr_not_created :=
          opt_insert cid (reference_error failed_id) (sr_not_created (sn_merged sn))\<rparr>\<rparr>"

type_synonym 't referring = "(str \<times> 't \<times> str list) list"

fun chunk_references ::
  "('t \<Rightarrow> str + 'n json) \<Rightarrow> str list \<Rightarrow> (str \<times> 't) list \<Rightarrow> 'n error + 't referring" where
  "chunk_references to_value candidates [] = Ok []"
| "chunk_references to_value candidates ((cid, obj) # creates) =
     res_bind (map_err Json (to_value obj)) (\<lambda>v.
     res_bind (chunk_references to_value candidates creates) (\<lambda>rs.
     Ok ((cid, obj, find_creation_references candidates v) # rs)))"

fun propagate_pass ::
  "(str list \<Rightarrow> str list) \<Rightarrow> 't referring \<Rightarrow> bool \<times> ('n, 't) sending \<Rightarrow> bool \<times> ('n, 't) sending" where
  "propagate_pass iter [] st = st"
| "propagate_pass iter ((cid, obj, refs) # rest) (progressed, sn) =
     propagate_pass iter rest
       (if cid \<in> sn_failed sn then (progressed, sn)
        else case find (\<lambda>r. r \<in> sn_failed sn) (iter refs) of
          Some failed_id \<Rightarrow> (True, mark_failed cid failed_id sn)
        | None \<Rightarrow> (progressed, sn))"

lemma propagate_pass_failed:
  "propagate_pass iter rs (b, sn) = (b', sn') \<Longrightarrow>
     sn_failed sn \<subseteq> sn_failed sn' \<and> sn_failed sn' \<subseteq> sn_failed sn \<union> fst ` set rs
     \<and> (b' \<longrightarrow> b \<or> \<not> fst ` set rs \<inter> sn_failed sn' \<subseteq> sn_failed sn)"
proof (induction rs arbitrary: b sn)
  case (Cons x rs)
  obtain cid obj refs where x: "x = (cid, obj, refs)" by (rule prod_cases3)
  show ?case
  proof (cases "cid \<in> sn_failed sn \<or> find (\<lambda>r. r \<in> sn_failed sn) (iter refs) = None")
    case True
    with Cons.prems x have "propagate_pass iter rs (b, sn) = (b', sn')" by (auto split: if_splits)
    from Cons.IH [OF this] x show ?thesis by auto
  next
    case False
    then obtain f where "find (\<lambda>r. r \<in> sn_failed sn) (iter refs) = Some f" by auto
    with Cons.prems x False have "propagate_pass iter rs (True, mark_failed cid f sn) = (b', sn')" by simp
    from Cons.IH [OF this] x False show ?thesis by (auto simp: mark_failed_def)
  qed
qed simp

lemma propagate_pass_progress:
  assumes "propagate_pass iter rs (False, sn) = (True, sn')"
  shows "card (fst ` set rs - sn_failed sn') < card (fst ` set rs - sn_failed sn)"
proof (rule psubset_card_mono)
  show "fst ` set rs - sn_failed sn' \<subset> fst ` set rs - sn_failed sn"
    using propagate_pass_failed [OF assms] by blast
qed simp

function propagate ::
  "(str list \<Rightarrow> str list) \<Rightarrow> 't referring \<Rightarrow> ('n, 't) sending \<Rightarrow> ('n, 't) sending" where
  "propagate iter rs sn =
     (case propagate_pass iter rs (False, sn) of
        (True, sn') \<Rightarrow> propagate iter rs sn'
      | (False, sn') \<Rightarrow> sn')"
  by pat_completeness auto
termination
  by (relation "measure (\<lambda>(_, rs, sn). card (fst ` set rs - sn_failed sn))")
    (auto dest: propagate_pass_progress [OF sym])

declare propagate.simps [simp del]

definition known :: "('n, 't) sending \<Rightarrow> str list \<Rightarrow> str \<Rightarrow> bool" where
  "known sn in_chunk r \<longleftrightarrow> bt_contains (sn_created_ids sn) r \<or> r \<in> set in_chunk"

fun ready_creates ::
  "(str list \<Rightarrow> str list) \<Rightarrow> ('n, 't) sending \<Rightarrow> str list \<Rightarrow> 't referring \<Rightarrow> 'n error + (str \<times> 't) list" where
  "ready_creates iter sn in_chunk [] = Ok []"
| "ready_creates iter sn in_chunk ((cid, obj, refs) # rest) =
     (if cid \<in> sn_failed sn then ready_creates iter sn in_chunk rest
      else case find (\<lambda>r. \<not> known sn in_chunk r) (iter refs) of
        Some r \<Rightarrow> Err (unresolved r)
      | None \<Rightarrow> res_bind (ready_creates iter sn in_chunk rest) (\<lambda>cs. Ok ((cid, obj) # cs)))"

definition reject_update :: "jid \<Rightarrow> str \<Rightarrow> ('n, 't) sending \<Rightarrow> ('n, 't) sending" where
  "reject_update x failed_id sn =
     sn\<lparr>sn_merged := (sn_merged sn)\<lparr>sr_not_updated :=
        opt_insert x (reference_error failed_id) (sr_not_updated (sn_merged sn))\<rparr>\<rparr>"

fun ready_updates ::
  "(str list \<Rightarrow> str list) \<Rightarrow> str list \<Rightarrow> str list \<Rightarrow> (jid \<times> 'n json) list \<Rightarrow> ('n, 't) sending
   \<Rightarrow> ('n error + (jid \<times> 'n json) list) \<times> ('n, 't) sending" where
  "ready_updates iter candidates in_chunk [] sn = (Ok [], sn)"
| "ready_updates iter candidates in_chunk ((x, patch) # rest) sn =
     (let refs = iter (find_creation_references candidates patch)
      in case find (\<lambda>r. r \<in> sn_failed sn) refs of
           Some failed_id \<Rightarrow> ready_updates iter candidates in_chunk rest (reject_update x failed_id sn)
         | None \<Rightarrow>
             (case find (\<lambda>r. \<not> known sn in_chunk r) refs of
                Some r \<Rightarrow> (Err (unresolved r), sn)
              | None \<Rightarrow>
                  (case ready_updates iter candidates in_chunk rest sn of
                     (r, sn') \<Rightarrow> (res_bind r (\<lambda>us. Ok ((x, patch) # us)), sn'))))"

definition some_unless_empty :: "'a list \<Rightarrow> 'a list option" where
  "some_unless_empty xs = (if xs = [] then None else Some xs)"

definition chunk_request ::
  "jid \<Rightarrow> jstate option \<Rightarrow> ('n, 't) set_chunk \<Rightarrow> ('n, 't) set_request" where
  "chunk_request account_id state c =
     \<lparr>sq_account_id = account_id, sq_if_in_state = state, sq_create = some_unless_empty (sc_create c),
      sq_update = some_unless_empty (sc_update c), sq_destroy = some_unless_empty (sc_destroy c)\<rparr>"

fun merge_created ::
  "('t \<Rightarrow> str + 'n json) \<Rightarrow> (str \<times> 't) list \<Rightarrow> ('n, 't) sending \<Rightarrow> ('n error + unit) \<times> ('n, 't) sending" where
  "merge_created to_value [] sn = (Ok (), sn)"
| "merge_created to_value ((cid, obj) # created) sn =
     (case to_value obj of
        Inl message \<Rightarrow> (Err (Json message), sn)
      | Inr v \<Rightarrow>
          merge_created to_value created
            (sn\<lparr>sn_created_ids :=
                 (case Option.bind (json_get ''id'' v) json_str of
                    Some x \<Rightarrow> bt_insert cid x (sn_created_ids sn)
                  | None \<Rightarrow> sn_created_ids sn),
               sn_merged := (sn_merged sn)\<lparr>sr_created := opt_insert cid obj (sr_created (sn_merged sn))\<rparr>\<rparr>))"

definition merge_states :: "('n, 't) set_response \<Rightarrow> ('n, 't) sending \<Rightarrow> ('n, 't) sending" where
  "merge_states response sn =
     (let m = sn_merged sn;
          m = (if sr_old_state m = None then m\<lparr>sr_old_state := sr_old_state response\<rparr> else m)
      in if sr_new_state response = None then sn\<lparr>sn_applied := True, sn_merged := m\<rparr>
         else sn\<lparr>sn_applied := True, sn_state := sr_new_state response,
                 sn_merged := m\<lparr>sr_new_state := sr_new_state response\<rparr>\<rparr>)"

definition opt_extend :: "('k::linorder \<times> 'v) list option \<Rightarrow> ('k \<times> 'v) list option \<Rightarrow> ('k \<times> 'v) list option" where
  "opt_extend m new = (case new of Some kvs \<Rightarrow> Some (bt_extend (or_empty m) kvs) | None \<Rightarrow> m)"

definition merge_rest :: "('n, 't) set_response \<Rightarrow> ('n, 't) sending \<Rightarrow> ('n, 't) sending" where
  "merge_rest response sn =
     sn\<lparr>sn_failed := sn_failed sn \<union> set (map fst (or_empty (sr_not_created response))),
        sn_merged := (sn_merged sn)\<lparr>
          sr_not_created := fold (\<lambda>(cid, e). opt_insert cid e) (or_empty (sr_not_created response))
            (sr_not_created (sn_merged sn)),
          sr_updated := opt_extend (sr_updated (sn_merged sn)) (sr_updated response),
          sr_not_updated := opt_extend (sr_not_updated (sn_merged sn)) (sr_not_updated response),
          sr_destroyed := (case sr_destroyed response of
              Some xs \<Rightarrow> Some (or_empty (sr_destroyed (sn_merged sn)) @ xs)
            | None \<Rightarrow> sr_destroyed (sn_merged sn)),
          sr_not_destroyed := opt_extend (sr_not_destroyed (sn_merged sn)) (sr_not_destroyed response)\<rparr>\<rparr>"

type_synonym ('s, 'n, 't) exec_chunk =
  "('n, 't) set_request \<Rightarrow> (jid \<times> jid) list \<Rightarrow> ('s, 'n error, ('n, 't) set_response) io"

definition send_ready ::
  "('t \<Rightarrow> str + 'n json) \<Rightarrow> jid \<Rightarrow> ('s, 'n, 't) exec_chunk \<Rightarrow> ('n, 't) set_chunk
   \<Rightarrow> (('n, 't) sending \<times> 's, 'n error, unit) io" where
  "send_ready to_value account_id exec c st =
     (case st of (sn, s) \<Rightarrow>
        if chunk_is_empty c then (Ok (), st)
        else case exec (chunk_request account_id (sn_state sn) c) (sn_created_ids sn) s of
          (Inl e, s') \<Rightarrow> (Err e, (sn, s'))
        | (Inr response, s') \<Rightarrow>
            (case merge_created to_value (or_empty (sr_created response)) (merge_states response sn) of
               (Inl e, sn') \<Rightarrow> (Err e, (sn', s'))
             | (Inr _, sn') \<Rightarrow> (Ok (), (merge_rest response sn', s'))))"

definition send_chunk ::
  "(str list \<Rightarrow> str list) \<Rightarrow> ('t \<Rightarrow> str + 'n json) \<Rightarrow> jid \<Rightarrow> str list \<Rightarrow> ('s, 'n, 't) exec_chunk
   \<Rightarrow> ('n, 't) set_chunk \<Rightarrow> (('n, 't) sending \<times> 's, 'n error, unit) io" where
  "send_chunk iter to_value account_id candidates exec c st =
     (case st of (sn0, s) \<Rightarrow>
        (case chunk_references to_value candidates (sc_create c) of
           Inl e \<Rightarrow> (Err e, st)
         | Inr rs \<Rightarrow>
             let sn = propagate iter rs sn0;
                 in_chunk = filter (\<lambda>cid. cid \<notin> sn_failed sn) (map fst (sc_create c))
             in (case ready_creates iter sn in_chunk rs of
                   Inl e \<Rightarrow> (Err e, (sn, s))
                 | Inr creates \<Rightarrow>
                     (case ready_updates iter candidates in_chunk (sc_update c) sn of
                        (Inl e, sn') \<Rightarrow> (Err e, (sn', s))
                      | (Inr updates, sn') \<Rightarrow>
                          send_ready to_value account_id exec
                            (c\<lparr>sc_create := creates, sc_update := updates\<rparr>) (sn', s)))))"

fun send_chunks ::
  "(str list \<Rightarrow> str list) \<Rightarrow> ('t \<Rightarrow> str + 'n json) \<Rightarrow> jid \<Rightarrow> str list \<Rightarrow> ('s, 'n, 't) exec_chunk
   \<Rightarrow> ('n, 't) set_chunk list \<Rightarrow> (('n, 't) sending \<times> 's, 'n error, unit) io" where
  "send_chunks iter to_value account_id candidates exec [] = io_lift (Ok ())"
| "send_chunks iter to_value account_id candidates exec (c # cs) =
     io_bind (send_chunk iter to_value account_id candidates exec c)
       (\<lambda>_. send_chunks iter to_value account_id candidates exec cs)"

definition set_response_empty :: "jid \<Rightarrow> ('n, 't) set_response" where
  "set_response_empty account_id =
     \<lparr>sr_account_id = account_id, sr_old_state = None, sr_new_state = None, sr_created = None, sr_updated = None,
      sr_destroyed = None, sr_not_created = None, sr_not_updated = None, sr_not_destroyed = None\<rparr>"

definition sending_start :: "('n, 't) set_request \<Rightarrow> ('n, 't) sending" where
  "sending_start request =
     \<lparr>sn_created_ids = [], sn_failed = {}, sn_state = sq_if_in_state request,
      sn_merged = set_response_empty (sq_account_id request), sn_applied = False\<rparr>"

definition total_items :: "('n, 't) set_request \<Rightarrow> nat" where
  "total_items request = length (or_empty (sq_create request)) + length (or_empty (sq_update request))
     + length (or_empty (sq_destroy request))"

text \<open>\<open>committed\<close> is the conversion of the merged response to JSON objects and back; it may fail.\<close>

definition execute_set_chunked ::
  "(str list \<Rightarrow> str list) \<Rightarrow> ('t \<Rightarrow> str + 'n json) \<Rightarrow> (('n, 't) set_response \<Rightarrow> str + ('n, 'n json) set_response)
   \<Rightarrow> ('n, 't) set_request \<Rightarrow> nat option \<Rightarrow> ('s, 'n, 't) exec_chunk
   \<Rightarrow> 's \<Rightarrow> (('n error + ('n, 't) set_response) \<times> 's) option" where
  "execute_set_chunked iter to_value committed request limit exec s =
     (case limit of
        None \<Rightarrow> Some (exec request [] s)
      | Some limit \<Rightarrow>
          if limit = 0 \<or> total_items request \<le> limit then Some (exec request [] s)
          else map_option
            (\<lambda>r. case r of
               Inl e \<Rightarrow> (Err e, s)
             | Inr chunks \<Rightarrow>
                 (case send_chunks iter to_value (sq_account_id request)
                         (map fst (or_empty (sq_create request))) exec chunks (sending_start request, s) of
                    (Inr _, (sn, s')) \<Rightarrow> (Ok (sn_merged sn), s')
                  | (Inl e, (sn, s')) \<Rightarrow>
                      if sn_applied sn
                      then (res_bind (map_err Json (committed (sn_merged sn)))
                              (\<lambda>done. Err (SetPartiallyApplied done e)), s')
                      else (Err e, s')))
            (partition_set_request iter to_value request limit))"

definition set_chunked ::
  "('n, 'w) env \<Rightarrow> (str list \<Rightarrow> str list) \<Rightarrow> ('t \<Rightarrow> str + 'n json)
   \<Rightarrow> (('n, 't) set_response \<Rightarrow> str + ('n, 'n json) set_response) \<Rightarrow> (('n, 't) set_request \<Rightarrow> 'n json)
   \<Rightarrow> ('n json \<Rightarrow> str + ('n, 't) set_response) \<Rightarrow> str list \<Rightarrow> str \<Rightarrow> ('n, 't) set_request
   \<Rightarrow> ('n, 'w) conn \<Rightarrow> (('n error + ('n, 't) set_response) \<times> ('n, 'w) conn) option" where
  "set_chunked env iter to_value committed request_value from_value using_caps meth request conn =
     execute_set_chunked iter to_value committed request
       (case max_objects_in_set (en_as_u64 env) (session_of conn) of
          Some m \<Rightarrow> if m \<le> USIZE_MAX then Some m else None
        | None \<Rightarrow> None)
       (\<lambda>chunk created_ids.
          io_bind (single_call_with_created_ids env using_caps meth (request_value chunk) created_ids)
            (\<lambda>arguments. io_lift (map_err Json (from_value arguments))))
       conn"

subsection \<open>The requests that are sent\<close>

text \<open>\<open>logged\<close> records each request with the creation ids it carries and whether the server answered it.\<close>

type_synonym ('n, 't) set_log = "(('n, 't) set_request \<times> (jid \<times> jid) list \<times> bool) list"

definition logged :: "('s, 'n, 't) exec_chunk \<Rightarrow> ('s \<times> ('n, 't) set_log, 'n, 't) exec_chunk" where
  "logged exec request ids st =
     (case exec request ids (fst st) of (r, s') \<Rightarrow> (r, (s', snd st @ [(request, ids, \<not> isl r)])))"

text \<open>Every creation id that the request refers to is created by it or known to the server.\<close>

definition resolved :: "('t \<Rightarrow> str + 'n json) \<Rightarrow> str list \<Rightarrow> ('n, 't) set_request \<Rightarrow> (jid \<times> jid) list \<Rightarrow> bool" where
  "resolved to_value candidates request ids \<longleftrightarrow>
     (let there = set (map fst ids) \<union> set (map fst (or_empty (sq_create request)))
      in list_all (\<lambda>(_, obj). \<exists>v. to_value obj = Inr v \<and> set (find_creation_references candidates v) \<subseteq> there)
           (or_empty (sq_create request))
         \<and> list_all (\<lambda>(_, patch). set (find_creation_references candidates patch) \<subseteq> there)
             (or_empty (sq_update request)))"

lemma mark_failed_same [simp]:
  "sn_created_ids (mark_failed cid f sn) = sn_created_ids sn" "sn_applied (mark_failed cid f sn) = sn_applied sn"
  by (simp_all add: mark_failed_def)

lemma propagate_pass_same:
  "propagate_pass iter rs st = st' \<Longrightarrow> sn_created_ids (snd st') = sn_created_ids (snd st) \<and> sn_applied (snd st') = sn_applied (snd st)"
proof (induction rs arbitrary: st)
  case (Cons x rs)
  obtain cid obj refs where x: "x = (cid, obj, refs)" by (rule prod_cases3)
  obtain b sn where st: "st = (b, sn)" by (rule prod.exhaust)
  from Cons.IH [OF Cons.prems [unfolded x st propagate_pass.simps]] show ?case
    by (simp add: st split: if_splits option.splits)
qed simp

lemma propagate_same:
  "sn_created_ids (propagate iter rs sn) = sn_created_ids sn \<and> sn_applied (propagate iter rs sn) = sn_applied sn"
proof (induction iter rs sn rule: propagate.induct)
  case (1 iter rs sn)
  obtain b sn' where pass: "propagate_pass iter rs (False, sn) = (b, sn')" by (rule prod.exhaust)
  have "propagate iter rs sn = (if b then propagate iter rs sn' else sn')"
    by (subst propagate.simps) (simp add: pass split: bool.splits)
  with propagate_pass_same [OF pass] 1 [OF pass [symmetric]] show ?case by simp
qed

lemma chunk_references_Ok:
  "chunk_references to_value candidates creates = Inr rs \<Longrightarrow> map (\<lambda>(cid, obj, _). (cid, obj)) rs = creates
   \<and> (\<forall>(cid, obj, refs) \<in> set rs. \<exists>v. to_value obj = Inr v \<and> refs = find_creation_references candidates v)"
proof (induction creates arbitrary: rs)
  case (Cons x creates)
  obtain cid obj where x: "x = (cid, obj)" by (rule prod.exhaust)
  from Cons.prems x obtain v rs' where "to_value obj = Inr v"
    "chunk_references to_value candidates creates = Inr rs'" "rs = (cid, obj, find_creation_references candidates v) # rs'"
    by (auto simp: res_bind_Inr_iff map_err_def split: sum.splits)
  with Cons.IH [of rs'] x show ?case by simp
qed simp

lemma find_None_all: "any_order iter \<Longrightarrow> find P (iter xs) = None \<Longrightarrow> \<forall>x \<in> set xs. \<not> P x"
  by (simp add: any_order_def find_None_iff)

lemma ready_creates_Ok:
  "ready_creates iter sn in_chunk rs = Inr cs \<Longrightarrow> any_order iter
   \<Longrightarrow> cs = map (\<lambda>(cid, obj, _). (cid, obj)) (filter (\<lambda>(cid, _). cid \<notin> sn_failed sn) rs)
     \<and> (\<forall>(cid, obj, refs) \<in> set rs. cid \<notin> sn_failed sn \<longrightarrow> (\<forall>r \<in> set refs. known sn in_chunk r))"
proof (induction rs arbitrary: cs)
  case (Cons x rs)
  obtain cid obj refs where x: "x = (cid, obj, refs)" by (rule prod_cases3)
  show ?case
  proof (cases "cid \<in> sn_failed sn")
    case True
    with Cons x show ?thesis by auto
  next
    case False
    with Cons.prems(1) x obtain cs' where none: "find (\<lambda>r. \<not> known sn in_chunk r) (iter refs) = None"
      and rest: "ready_creates iter sn in_chunk rs = Inr cs'" and cs: "cs = (cid, obj) # cs'"
      by (auto simp: res_bind_Inr_iff split: option.splits)
    from find_None_all [OF Cons.prems(2) none] have "\<forall>r \<in> set refs. known sn in_chunk r" by simp
    with Cons.IH [OF rest Cons.prems(2)] cs False x show ?thesis by simp
  qed
qed simp

lemma reject_update_same [simp]:
  "sn_created_ids (reject_update x f sn) = sn_created_ids sn" "sn_applied (reject_update x f sn) = sn_applied sn"
  "sn_failed (reject_update x f sn) = sn_failed sn" "known (reject_update x f sn) = known sn"
  by (simp_all add: reject_update_def known_def fun_eq_iff)

lemma ready_updates_same:
  "ready_updates iter candidates in_chunk us sn = (r, sn')
   \<Longrightarrow> sn_created_ids sn' = sn_created_ids sn \<and> sn_applied sn' = sn_applied sn"
proof (induction us arbitrary: sn r sn')
  case (Cons x us)
  obtain y patch where x: "x = (y, patch)" by (rule prod.exhaust)
  let ?refs = "iter (find_creation_references candidates patch)"
  show ?case
  proof (cases "find (\<lambda>r. r \<in> sn_failed sn) ?refs")
    case (Some f)
    with Cons.prems x have "ready_updates iter candidates in_chunk us (reject_update y f sn) = (r, sn')"
      by (simp add: Let_def)
    from Cons.IH [OF this] show ?thesis by simp
  next
    case None
    obtain r1 sn1 where rest: "ready_updates iter candidates in_chunk us sn = (r1, sn1)" by (rule prod.exhaust)
    with Cons.prems x None have "sn' = sn \<or> sn' = sn1" by (auto simp: Let_def split: option.splits)
    with Cons.IH [OF rest] show ?thesis by auto
  qed
qed simp

lemma ready_updates_Ok:
  "ready_updates iter candidates in_chunk us sn = (Inr vs, sn') \<Longrightarrow> any_order iter
   \<Longrightarrow> length vs \<le> length us \<and> (\<forall>(x, patch) \<in> set vs. \<forall>r \<in> set (find_creation_references candidates patch). known sn in_chunk r)"
proof (induction us arbitrary: sn vs)
  case (Cons x us)
  obtain y patch where x: "x = (y, patch)" by (rule prod.exhaust)
  let ?refs = "iter (find_creation_references candidates patch)"
  show ?case
  proof (cases "find (\<lambda>r. r \<in> sn_failed sn) ?refs")
    case (Some f)
    with Cons.prems x have "ready_updates iter candidates in_chunk us (reject_update y f sn) = (Inr vs, sn')"
      by (simp add: Let_def)
    from Cons.IH [OF this Cons.prems(2)] show ?thesis by simp
  next
    case None
    with Cons.prems(1) x obtain vs' where none: "find (\<lambda>r. \<not> known sn in_chunk r) ?refs = None"
      and rest: "ready_updates iter candidates in_chunk us sn = (Inr vs', sn')" and vs: "vs = (y, patch) # vs'"
      by (auto simp: Let_def res_bind_Inr_iff split: option.splits prod.splits)
    from find_None_all [OF Cons.prems(2) none]
    have "\<forall>r \<in> set (find_creation_references candidates patch). known sn in_chunk r" by simp
    with Cons.IH [OF rest Cons.prems(2)] vs show ?thesis by simp
  qed
qed simp

lemma merge_created_applied: "merge_created to_value cs sn = (r, sn') \<Longrightarrow> sn_applied sn' = sn_applied sn"
proof (induction cs arbitrary: sn)
  case (Cons x cs)
  obtain cid obj where x: "x = (cid, obj)" by (rule prod.exhaust)
  show ?case
  proof (cases "to_value obj")
    case (Inr v)
    from Cons.IH [OF Cons.prems [unfolded x merge_created.simps Inr sum.case]] show ?thesis by simp
  qed (use Cons.prems x in auto)
qed simp

lemma merge_applied [simp]: "sn_applied (merge_states response sn)" "sn_applied (merge_rest response sn) = sn_applied sn"
  by (simp_all add: merge_states_def merge_rest_def Let_def)

lemma or_empty_some_unless [simp]: "or_empty (some_unless_empty xs) = xs"
  by (simp add: or_empty_def some_unless_empty_def)

lemma total_items_chunk [simp]: "total_items (chunk_request account_id state c) = chunk_items c"
  by (simp add: total_items_def chunk_request_def chunk_items_def)

text \<open>The entries that a step adds to the log.\<close>

definition sends :: "(('n, 't) set_request \<Rightarrow> (jid \<times> jid) list \<Rightarrow> bool)
   \<Rightarrow> ('n, 't) sending \<Rightarrow> ('n, 't) set_log \<Rightarrow> ('n, 't) sending \<Rightarrow> ('n, 't) set_log \<Rightarrow> bool" where
  "sends good sn log sn' log' \<longleftrightarrow> (\<exists>new. log' = log @ new \<and> list_all (\<lambda>(request, ids, _). good request ids) new
     \<and> (sn_applied sn' \<longleftrightarrow> sn_applied sn \<or> list_ex (\<lambda>(_, _, answered). answered) new))"

lemma sends_refl: "sn_applied sn' = sn_applied sn \<Longrightarrow> sends good sn log sn' log"
  by (simp add: sends_def)

lemma sends_trans:
  assumes "sends good sn log sn1 log1" "sends good sn1 log1 sn2 log2"
  shows "sends good sn log sn2 log2"
proof -
  from assms obtain new new' where "log1 = log @ new" "list_all (\<lambda>(request, ids, _). good request ids) new"
    "sn_applied sn1 \<longleftrightarrow> sn_applied sn \<or> list_ex (\<lambda>(_, _, answered). answered) new"
    "log2 = log1 @ new'" "list_all (\<lambda>(request, ids, _). good request ids) new'"
    "sn_applied sn2 \<longleftrightarrow> sn_applied sn1 \<or> list_ex (\<lambda>(_, _, answered). answered) new'"
    unfolding sends_def by blast
  then show ?thesis unfolding sends_def by (intro exI [of _ "new @ new'"]) simp
qed

lemma sends_weaken:
  "sends good sn log sn' log' \<Longrightarrow> (\<And>request ids. good request ids \<Longrightarrow> good' request ids) \<Longrightarrow> sends good' sn log sn' log'"
  unfolding sends_def by (fastforce simp: list_all_iff)

lemma send_ready_log:
  assumes "send_ready to_value account_id (logged exec) c (sn, (s, log)) = (r, (sn', (s', log')))"
    "good (chunk_request account_id (sn_state sn) c) (sn_created_ids sn)"
  shows "sends good sn log sn' log'"
proof (cases "chunk_is_empty c")
  case True
  with assms(1) show ?thesis by (auto simp: send_ready_def intro: sends_refl)
next
  case False
  let ?request = "chunk_request account_id (sn_state sn) c"
  obtain a s1 where a: "exec ?request (sn_created_ids sn) s = (a, s1)" by (rule prod.exhaust)
  show ?thesis
  proof (cases a)
    case (Inl e)
    with assms False a show ?thesis by (auto simp: send_ready_def logged_def sends_def)
  next
    case (Inr response)
    obtain b sn1 where b: "merge_created to_value (or_empty (sr_created response)) (merge_states response sn) = (b, sn1)"
      by (rule prod.exhaust)
    from merge_created_applied [OF b] have "sn_applied sn1" by simp
    with assms False a Inr b show ?thesis by (auto simp: send_ready_def logged_def sends_def split: sum.splits)
  qed
qed

text \<open>A chunk sends at most one request, which is resolved and no larger than the chunk.\<close>

lemma known_set: "Collect (known sn xs) = fst ` set (sn_created_ids sn) \<union> set xs"
  by (rule set_eqI) (simp add: known_def bt_contains_def bt_keys_def)

lemma ready_keys:
  "map fst (map (\<lambda>(cid, obj, _). (cid, obj)) (filter (\<lambda>(cid, _). cid \<notin> F) rs)) = filter (\<lambda>cid. cid \<notin> F) (map fst rs)"
  "map fst (map (\<lambda>(cid, obj, _). (cid, obj)) rs) = map fst rs"
  by (induction rs) auto

lemma ready_resolved:
  assumes iter: "any_order iter" and rs: "chunk_references to_value candidates (sc_create c) = Inr rs"
    and in_chunk: "in_chunk = filter (\<lambda>cid. cid \<notin> sn_failed sn) (map fst (sc_create c))"
    and creates: "ready_creates iter sn in_chunk rs = Inr creates"
    and updates: "ready_updates iter candidates in_chunk (sc_update c) sn = (Inr updates, sn')"
  shows "resolved to_value candidates (chunk_request account_id state (c\<lparr>sc_create := creates, sc_update := updates\<rparr>)) (sn_created_ids sn')
    \<and> chunk_items (c\<lparr>sc_create := creates, sc_update := updates\<rparr>) \<le> chunk_items c"
proof -
  note refs = chunk_references_Ok [OF rs]
  note cs = ready_creates_Ok [OF creates iter]
  note us = ready_updates_Ok [OF updates iter]
  have keys: "map fst (sc_create c) = map fst rs" using ready_keys(2) [of rs] refs by simp
  have "map fst creates = in_chunk" using ready_keys(1) [of "sn_failed sn" rs] cs unfolding in_chunk keys by simp
  then have there: "set (map fst (sn_created_ids sn')) \<union> set (map fst creates) = Collect (known sn in_chunk)"
    using ready_updates_same [OF updates] by (simp add: known_set)
  have made: "\<exists>v. to_value obj = Inr v \<and> set (find_creation_references candidates v) \<subseteq> Collect (known sn in_chunk)"
    if "(cid, obj) \<in> set creates" for cid obj
  proof -
    from that cs obtain rf where rf: "(cid, obj, rf) \<in> set rs" "cid \<notin> sn_failed sn" by auto
    from rf(1) refs obtain v where "to_value obj = Inr v" "rf = find_creation_references candidates v" by blast
    moreover from rf cs have "set rf \<subseteq> Collect (known sn in_chunk)" by blast
    ultimately show ?thesis by blast
  qed
  have changed: "\<forall>(x, patch) \<in> set updates. set (find_creation_references candidates patch) \<subseteq> Collect (known sn in_chunk)"
    using us by blast
  have made_all: "\<forall>(cid, obj) \<in> set creates. \<exists>v. to_value obj = Inr v
      \<and> set (find_creation_references candidates v) \<subseteq> Collect (known sn in_chunk)" using made by blast
  have "length creates \<le> length (sc_create c)"
  proof -
    from cs have "length creates = length (filter (\<lambda>(cid, _). cid \<notin> sn_failed sn) rs)" by simp
    also have "\<dots> \<le> length rs" by (rule length_filter_le)
    also have "length rs = length (sc_create c)" using keys by (metis length_map)
    finally show ?thesis .
  qed
  moreover have "length updates \<le> length (sc_update c)" using us by blast
  moreover have parts: "or_empty (sq_create (chunk_request account_id state (c\<lparr>sc_create := creates, sc_update := updates\<rparr>))) = creates"
    "or_empty (sq_update (chunk_request account_id state (c\<lparr>sc_create := creates, sc_update := updates\<rparr>))) = updates"
    by (simp_all add: chunk_request_def)
  ultimately show ?thesis using made_all changed unfolding resolved_def Let_def parts there list_all_iff
    by (simp add: chunk_items_def)
qed

lemma send_chunk_log:
  assumes iter: "any_order iter"
    and run: "send_chunk iter to_value account_id candidates (logged exec) c (sn, (s, log)) = (r, (sn', (s', log')))"
  shows "sends (\<lambda>request ids. resolved to_value candidates request ids \<and> total_items request \<le> chunk_items c) sn log sn' log'"
proof (cases "chunk_references to_value candidates (sc_create c)")
  case (Inl e)
  with run show ?thesis by (auto simp: send_chunk_def intro: sends_refl)
next
  case (Inr rs)
  define sn1 where "sn1 = propagate iter rs sn"
  define in_chunk where "in_chunk = filter (\<lambda>cid. cid \<notin> sn_failed sn1) (map fst (sc_create c))"
  have same: "sn_applied sn1 = sn_applied sn" using propagate_same [of iter rs sn] by (simp add: sn1_def)
  obtain a sn2 where upd: "ready_updates iter candidates in_chunk (sc_update c) sn1 = (a, sn2)" by (rule prod.exhaust)
  have same2: "sn_applied sn2 = sn_applied sn" using ready_updates_same [OF upd] same by simp
  note run' = run [unfolded send_chunk_def prod.case Inr sum.case Let_def, folded sn1_def, folded in_chunk_def]
  show ?thesis
  proof (cases "ready_creates iter sn1 in_chunk rs")
    case (Inl e)
    with run' same show ?thesis by (auto intro: sends_refl)
  next
    case (Inr creates)
    show ?thesis
    proof (cases a)
      case (Inl e)
      with run' same2 upd \<open>ready_creates iter sn1 in_chunk rs = Inr creates\<close> show ?thesis by (auto intro: sends_refl)
    next
      case (Inr updates)
      let ?c = "c\<lparr>sc_create := creates, sc_update := updates\<rparr>"
      from run' upd Inr \<open>ready_creates iter sn1 in_chunk rs = Inr creates\<close>
      have send: "send_ready to_value account_id (logged exec) ?c (sn2, (s, log)) = (r, (sn', (s', log')))" by simp
      from ready_resolved [OF iter \<open>chunk_references to_value candidates (sc_create c) = Inr rs\<close> in_chunk_def
          \<open>ready_creates iter sn1 in_chunk rs = Inr creates\<close> upd [unfolded Inr], of account_id "sn_state sn2"]
      have "resolved to_value candidates (chunk_request account_id (sn_state sn2) ?c) (sn_created_ids sn2)
        \<and> total_items (chunk_request account_id (sn_state sn2) ?c) \<le> chunk_items c" by simp
      from send_ready_log [where good = "\<lambda>request ids. resolved to_value candidates request ids \<and> total_items request \<le> chunk_items c",
          OF send this] show ?thesis by (simp add: sends_def same2)
    qed
  qed
qed

lemma send_chunks_log:
  assumes iter: "any_order iter"
  shows "send_chunks iter to_value account_id candidates (logged exec) cs (sn, (s, log)) = (r, (sn', (s', log')))
    \<Longrightarrow> list_all (\<lambda>c. chunk_items c \<le> limit) cs
    \<Longrightarrow> sends (\<lambda>request ids. resolved to_value candidates request ids \<and> total_items request \<le> limit) sn log sn' log'"
proof (induction cs arbitrary: sn s log)
  case Nil
  then show ?case by (auto simp: io_lift_def intro: sends_refl)
next
  case (Cons c cs)
  let ?good = "\<lambda>request ids. resolved to_value candidates request ids \<and> total_items request \<le> limit"
  obtain a sn1 s1 log1 where step: "send_chunk iter to_value account_id candidates (logged exec) c (sn, (s, log)) = (a, (sn1, (s1, log1)))"
    by (metis prod.exhaust)
  have first: "sends ?good sn log sn1 log1"
    by (rule sends_weaken [OF send_chunk_log [OF iter step]]) (use Cons.prems(2) in auto)
  show ?case
  proof (cases a)
    case (Inl e)
    with Cons.prems(1) step first show ?thesis by (auto simp: io_bind_def)
  next
    case (Inr u)
    with Cons.prems(1) step have "send_chunks iter to_value account_id candidates (logged exec) cs (sn1, (s1, log1)) = (r, (sn', (s', log')))"
      by (simp add: io_bind_def)
    from Cons.IH [OF this] Cons.prems(2) sends_trans [OF first] show ?thesis by simp
  qed
qed

definition set_result ::
  "(('n, 't) set_response \<Rightarrow> str + ('n, 'n json) set_response) \<Rightarrow> 'n error + unit \<Rightarrow> ('n, 't) sending
   \<Rightarrow> 'n error + ('n, 't) set_response" where
  "set_result committed a sn =
     (case a of
        Inr _ \<Rightarrow> Ok (sn_merged sn)
      | Inl e \<Rightarrow>
          if sn_applied sn
          then res_bind (map_err Json (committed (sn_merged sn))) (\<lambda>done. Err (SetPartiallyApplied done e))
          else Err e)"

lemma execute_cut:
  assumes "0 < limit" "bt_wf (or_empty (sq_update request))" "any_order iter"
    "execute_set_chunked iter to_value committed request (Some limit) (logged exec) (s, []) = Some (r, (s', log))"
    "\<not> total_items request \<le> limit"
  shows "log = [] \<or> (\<exists>a sn. sends (\<lambda>sent ids. resolved to_value (map fst (or_empty (sq_create request))) sent ids
      \<and> total_items sent \<le> limit) (sending_start request) [] sn log \<and> r = set_result committed a sn)"
proof -
  from partition_ok [OF assms(1-3), of to_value] obtain p where p: "partition_set_request iter to_value request limit = Some p"
    "case p of Inr chunks \<Rightarrow> \<exists>ds. build_dependencies to_value (map fst (or_empty (sq_create request))) (or_empty (sq_create request)) = Inr ds
         \<and> chunks_of limit request (edges (map_of ds)) chunks
       | Inl e \<Rightarrow> is_chunk_boundary_reference_broken e \<or> (\<exists>message. e = Json message)" by blast
  show ?thesis
  proof (cases p)
    case (Inl e)
    with assms(1,4,5) p(1) show ?thesis by (auto simp: execute_set_chunked_def)
  next
    case (Inr chunks)
    with p(2) have small: "list_all (\<lambda>c. chunk_items c \<le> limit) chunks" by (auto simp: chunks_of_def list_all_iff)
    obtain a sn s1 log1 where send: "send_chunks iter to_value (sq_account_id request) (map fst (or_empty (sq_create request)))
        (logged exec) chunks (sending_start request, (s, [])) = (a, (sn, (s1, log1)))" by (metis prod.exhaust)
    with assms(1,4,5) p(1) Inr have "log = log1" "r = set_result committed a sn"
      by (auto simp: execute_set_chunked_def set_result_def split: sum.splits if_splits)
    with send_chunks_log [OF assms(3) send small] show ?thesis by blast
  qed
qed

subsection \<open>Properties\<close>

text \<open>
  C3. Whatever the server answers, a request that is cut sends only requests within the limit, and each
  creation id that one of them refers to is created by that same request or is among the creation ids
  that it carries. A request that is not cut is sent once as it is.
\<close>
theorem set_requests_resolved:
  assumes "0 < limit" "bt_wf (or_empty (sq_update request))" "any_order iter"
    "execute_set_chunked iter to_value committed request (Some limit) (logged exec) (s, []) = Some (r, (s', log))"
  shows "list_all (\<lambda>(sent, ids, _). total_items sent \<le> limit
    \<and> ((sent, ids) = (request, []) \<or> resolved to_value (map fst (or_empty (sq_create request))) sent ids)) log"
proof (cases "total_items request \<le> limit")
  case True
  with assms show ?thesis by (auto simp: execute_set_chunked_def logged_def split: prod.splits)
next
  case False
  from execute_cut [OF assms(1-4) False] show ?thesis by (auto simp: sends_def list_all_iff)
qed

definition sample_exec :: "(unit, nat, nat json) exec_chunk" where
  "sample_exec request ids s =
     (Inr ((set_response_empty ''A'')\<lparr>sr_new_state := Some ''1'',
        sr_created := map_option (map (\<lambda>(cid, _). (cid, Object [(''id'', String (CHR ''i'' # cid))]))) (sq_create request)\<rparr>), s)"

definition sample_log :: "(nat, nat json) set_log" where
  "sample_log =
     [(\<lparr>sq_account_id = ''A'', sq_if_in_state = Some ''0'',
        sq_create = Some [(''a'', String ''#b''), (''b'', Null)], sq_update = None, sq_destroy = None\<rparr>, [], True),
      (\<lparr>sq_account_id = ''A'', sq_if_in_state = Some ''1'', sq_create = None,
        sq_update = Some [(''u'', String ''#a'')], sq_destroy = Some [''d'']\<rparr>,
       [(''a'', ''ia''), (''b'', ''ib'')], True)]"

lemma sample_set_run:
  "map_option snd (execute_set_chunked id Inr (\<lambda>_. Inl []) sample_set (Some 2) (logged sample_exec) ((), []))
   = Some ((), sample_log)"
  by code_simp

theorem set_requests_resolved_witness:
  "list_all (\<lambda>(sent, ids, _). total_items sent \<le> 2
    \<and> ((sent, ids) = (sample_set, []) \<or> resolved Inr (map fst (or_empty (sq_create sample_set))) sent ids)) sample_log"
proof -
  from sample_set_run obtain r where
    "execute_set_chunked id Inr (\<lambda>_. Inl []) sample_set (Some 2) (logged sample_exec) ((), []) = Some (r, ((), sample_log))"
    by auto
  from set_requests_resolved [OF _ sample_set_wf this] show ?thesis by simp
qed

text \<open>
  C24. Once the server has answered one chunk, an error of a later one is reported as a partly applied
  set that carries what was committed; the only other error is that the committed part cannot be
  converted.
\<close>
theorem set_error_partly_applied:
  assumes "0 < limit" "bt_wf (or_empty (sq_update request))" "any_order iter"
    "execute_set_chunked iter to_value committed request (Some limit) (logged exec) (s, []) = Some (Inl e, (s', log))"
    "list_ex (\<lambda>(_, _, answered). answered) log"
  shows "(\<exists>merged done cause. committed merged = Inr done \<and> e = SetPartiallyApplied done cause)
    \<or> (\<exists>merged message. committed merged = Inl message \<and> e = Json message)"
proof (cases "total_items request \<le> limit")
  case True
  with assms show ?thesis by (auto simp: execute_set_chunked_def logged_def split: prod.splits)
next
  case False
  from execute_cut [OF assms(1-4) False] assms(5) obtain a sn where
    "sends (\<lambda>sent ids. resolved to_value (map fst (or_empty (sq_create request))) sent ids \<and> total_items sent \<le> limit)
       (sending_start request) [] sn log" and r: "Inl e = set_result committed a sn" by auto
  with assms(5) have "sn_applied sn" by (auto simp: sends_def)
  with r show ?thesis by (auto simp: set_result_def map_err_def res_bind_def split: sum.splits)
qed

definition failing_exec :: "(nat, nat, nat json) exec_chunk" where
  "failing_exec request ids n =
     (if n = 0 then (fst (sample_exec request ids ()), 1) else (Inl Cancelled, n + 1))"

lemma failing_set_run:
  "case execute_set_chunked id Inr (\<lambda>_. Inr (set_response_empty ''A'')) sample_set (Some 2) (logged failing_exec) (0, []) of
     Some (Inl e, (n, log)) \<Rightarrow> e = SetPartiallyApplied (set_response_empty ''A'') Cancelled \<and> n = 2
       \<and> list_ex (\<lambda>(_, _, answered). answered) log
   | _ \<Rightarrow> False"
  by code_simp

theorem set_error_partly_applied_witness:
  "\<exists>done cause. fst (the (execute_set_chunked id Inr (\<lambda>_. Inr (set_response_empty ''A'')) sample_set (Some 2)
     (logged failing_exec) (0, []))) = Inl (SetPartiallyApplied done cause)"
proof -
  from failing_set_run obtain e n log where
    run: "execute_set_chunked id Inr (\<lambda>_. Inr (set_response_empty ''A'')) sample_set (Some 2) (logged failing_exec) (0, [])
      = Some (Inl e, (n, log))" and answered: "list_ex (\<lambda>(_, _, answered). answered) log"
    by (auto split: option.splits prod.splits sum.splits)
  have two: "0 < (2 :: nat)" by simp
  from set_error_partly_applied [OF two sample_set_wf run answered] run show ?thesis by auto
qed

end
