(* ===== verification/Edit_Base.thy ===== *)
theory Edit_Base
  imports Jmap_Prelude "HOL-Library.Word"
begin

text \<open>
  The base of an edit, \<^verbatim>\<open>jmap-object-sync/src/edit_base.rs\<close>, with the change token \<^verbatim>\<open>revision_of\<close> of
  \<^verbatim>\<open>lib.rs\<close>: the stamp in the text that the editor holds, and the server versions that an extra keeps.

  The JSON printer and reader for a list of texts, of the crate \<^verbatim>\<open>serde_json\<close>, are the arguments
  \<open>to_string\<close> and \<open>from_str\<close>.
\<close>

unbundle bit_operations_syntax

section \<open>Revisions\<close>

definition FNV_OFFSET :: "64 word" where "FNV_OFFSET = 0xcbf29ce484222325"
definition FNV_PRIME :: "64 word" where "FNV_PRIME = 0x100000001b3"

definition hash_step :: "64 word \<Rightarrow> char \<Rightarrow> 64 word" where
  "hash_step hash byte = (hash XOR of_nat (of_char byte)) * FNV_PRIME"

definition hex_lower :: "nat \<Rightarrow> char" where
  "hex_lower n = (if n < 10 then char_of (48 + n) else char_of (87 + n))"

text \<open>\<^verbatim>\<open>format!("{hash:016x}")\<close>: the sixteen digits of a 64-bit number.\<close>

fun hex_digits :: "nat \<Rightarrow> nat \<Rightarrow> str" where
  "hex_digits 0 n = []"
| "hex_digits (Suc k) n = hex_digits k (n div 16) @ [hex_lower (n mod 16)]"

definition revision_of :: "str \<Rightarrow> str" where
  "revision_of rendered = hex_digits 16 (unat (foldl hash_step FNV_OFFSET rendered))"

section \<open>Stamps\<close>

definition STAMP :: str where "STAMP = ''X-JMAP-BASE''"

definition KEPT :: nat where "KEPT = 4"

text \<open>\<^verbatim>\<open>text.split_inclusive('\n')\<close>: the lines, each with its line break.\<close>

fun split_inclusive :: "str \<Rightarrow> str list" where
  "split_inclusive [] = []"
| "split_inclusive (c # s) =
     (if c = LF then [LF] # split_inclusive s
      else (case split_inclusive s of [] \<Rightarrow> [[c]] | l # ls \<Rightarrow> (c # l) # ls))"

definition line_content :: "str \<Rightarrow> str" where
  "line_content line = trim_end_chars (\<lambda>c. c = CR \<or> c = LF) line"

definition stamp_line :: "str \<Rightarrow> str \<Rightarrow> str \<Rightarrow> str" where
  "stamp_line ending revision line =
     (let content = line_content line in
      (if eq_ignore_ascii_case content ending
       then STAMP @ CHR '':'' # revision @ drop (length content) line
            @ (if length line = length content then [CR, LF] else [])
       else []) @ line)"

definition stamp :: "str \<Rightarrow> str \<Rightarrow> str \<Rightarrow> str" where
  "stamp txt kind revision = concat (map (stamp_line (''END:'' @ kind) revision) (split_inclusive txt))"

definition is_stamp :: "str \<Rightarrow> bool" where
  "is_stamp line \<longleftrightarrow>
     (length STAMP \<le> length line \<and> is_char_boundary line (length STAMP)
       \<and> eq_ignore_ascii_case (take (length STAMP) line) STAMP)
     \<and> length STAMP < length line \<and> line ! length STAMP \<in> {CHR '':'', CHR '';''}"

definition opens_folded :: "str \<Rightarrow> bool" where
  "opens_folded line = (case line of [] \<Rightarrow> False | c # _ \<Rightarrow> c = CHR 0x20 \<or> c = TAB)"

text \<open>One turn of the loop of \<^verbatim>\<open>unstamp\<close> on \<^verbatim>\<open>kept\<close>, \<^verbatim>\<open>found\<close> and \<^verbatim>\<open>in_stamp\<close>.\<close>

definition unstamp_line :: "str \<times> str option \<times> bool \<Rightarrow> str \<Rightarrow> str \<times> str option \<times> bool" where
  "unstamp_line st line =
     (case st of (kept, found, in_stamp) \<Rightarrow>
        if in_stamp \<and> opens_folded line then (kept, found, in_stamp)
        else if is_stamp line
        then (kept,
              (if found = None then map_option (\<lambda>(_, v). trim v) (split_once (CHR '':'') line) else found),
              True)
        else (kept @ line, found, False))"

definition unstamp :: "str \<Rightarrow> str \<times> str option" where
  "unstamp txt = (case foldl unstamp_line ([], None, False) (split_inclusive txt) of (kept, found, _) \<Rightarrow> (kept, found))"

section \<open>The versions of an extra\<close>

definition versions_of :: "(str \<Rightarrow> str list option) \<Rightarrow> str \<Rightarrow> str list" where
  "versions_of from_str extra_txt =
     (case extra_txt of
        [] \<Rightarrow> []
      | c # _ \<Rightarrow>
          if c = CHR ''['' then (case from_str extra_txt of None \<Rightarrow> [] | Some versions \<Rightarrow> versions)
          else [extra_txt])"

fun push_versions :: "str list \<Rightarrow> str list \<Rightarrow> str list" where
  "push_versions versions [] = versions"
| "push_versions versions (version # rest) =
     (if length versions = KEPT then versions
      else if version \<in> set versions then push_versions versions rest
      else push_versions (versions @ [version]) rest)"

definition extra :: "(str list \<Rightarrow> str) \<Rightarrow> (str \<Rightarrow> str list option) \<Rightarrow> str \<Rightarrow> str option \<Rightarrow> str" where
  "extra to_string from_str current previous =
     (let versions = push_versions [current]
            (case previous of None \<Rightarrow> [] | Some p \<Rightarrow> versions_of from_str p)
      in if length versions = 1 then hd versions else to_string versions)"

datatype out_of_sync = OutOfSync

definition base_for :: "(str \<Rightarrow> str list option) \<Rightarrow> str option \<Rightarrow> str option \<Rightarrow> out_of_sync + str option" where
  "base_for from_str extra_txt stamp_txt =
     (case extra_txt of
        None \<Rightarrow> Ok None
      | Some e \<Rightarrow>
          (case stamp_txt of
             None \<Rightarrow> Ok (case versions_of from_str e of [] \<Rightarrow> None | v # _ \<Rightarrow> Some v)
           | Some s \<Rightarrow>
               (case find (\<lambda>version. revision_of version = s) (versions_of from_str e) of
                  None \<Rightarrow> Err OutOfSync
                | Some v \<Rightarrow> Ok (Some v))))"

section \<open>Revisions tell texts apart\<close>

definition hex_value :: "char \<Rightarrow> nat" where
  "hex_value c = (if of_char c < (58 :: nat) then of_char c - 48 else of_char c - 87)"

definition is_lower_hex :: "char \<Rightarrow> bool" where
  "is_lower_hex c \<longleftrightarrow> (of_char c :: nat) \<in> {48..57} \<union> {97..102}"

definition read_hex :: "str \<Rightarrow> nat" where
  "read_hex s = foldl (\<lambda>n c. 16 * n + hex_value c) 0 s"

lemma hex_lower_props: "n < 16 \<Longrightarrow> hex_value (hex_lower n) = n \<and> is_lower_hex (hex_lower n)"
  by (auto simp: hex_lower_def hex_value_def is_lower_hex_def)

lemma hex_digits_length [simp]: "length (hex_digits k n) = k"
  by (induction k arbitrary: n) simp_all

lemma hex_digits_lower: "list_all is_lower_hex (hex_digits k n)"
  by (induction k arbitrary: n) (simp_all add: hex_lower_props)

lemma read_hex_digits: "n < 16 ^ k \<Longrightarrow> read_hex (hex_digits k n) = n"
proof (induction k arbitrary: n)
  case (Suc k)
  then have "n div 16 < 16 ^ k" by (simp add: div_less_iff_less_mult mult.commute)
  then show ?case
    using Suc(1) [of "n div 16"] by (simp add: read_hex_def hex_lower_props)
qed (simp add: read_hex_def)

interpretation hex64: codec "\<lambda>w :: 64 word. hex_digits 16 (unat w)" "\<lambda>s. Some (of_nat (read_hex s))" "\<lambda>_. True"
proof
  fix w :: "64 word"
  have "unat w < 16 ^ 16" using unsigned_less [of w] by simp
  then show "Some (of_nat (read_hex (hex_digits 16 (unat w)))) = Some w"
    by (simp add: read_hex_digits)
qed

lemma FNV_PRIME_unit: "FNV_PRIME * 0xce965057aff6957b = 1"
  by (simp add: FNV_PRIME_def)

lemma hash_step_cancel:
  assumes "hash_step h b = hash_step h' c"
  shows "h XOR of_nat (of_char b) = h' XOR of_nat (of_char c)"
  using arg_cong [OF assms, of "\<lambda>x. x * 0xce965057aff6957b"]
  by (simp only: hash_step_def mult.assoc FNV_PRIME_unit mult_1_right)

lemma xor_cancel_left:
  assumes "(x :: 64 word) XOR y = x XOR z"
  shows "y = z"
  using arg_cong [OF assms, of "\<lambda>w. x XOR w"] by (simp flip: xor.assoc)

lemma xor_cancel_right: "(y :: 64 word) XOR x = z XOR x \<Longrightarrow> y = z"
  using xor_cancel_left [of x y z] by (simp only: xor.commute)

lemma hash_octets_inj: "foldl hash_step h b = foldl hash_step h' b \<Longrightarrow> h = h'"
  by (induction b arbitrary: h h') (auto dest: hash_step_cancel xor_cancel_right)

lemma of_char_word_inj:
  assumes "(of_nat (of_char c) :: 64 word) = of_nat (of_char d)"
  shows "c = d"
proof -
  have "(of_char x :: nat) < 2 ^ LENGTH(64)" for x
    by (rule less_trans [OF nat_of_char_less_256]) simp
  then have "(of_char c :: nat) = of_char d"
    using arg_cong [OF assms, of unat] by (simp add: unat_of_nat take_bit_nat_eq_self del: of_nat_of_char)
  then show ?thesis by simp
qed

lemma revision_octet_inj: "revision_of (before @ c # after) = revision_of (before @ d # after) \<longleftrightarrow> c = d"
proof
  assume "revision_of (before @ c # after) = revision_of (before @ d # after)"
  then have "foldl hash_step FNV_OFFSET (before @ c # after) = foldl hash_step FNV_OFFSET (before @ d # after)"
    using hex64.enc_inj by (simp only: revision_of_def)
  then have "hash_step (foldl hash_step FNV_OFFSET before) c = hash_step (foldl hash_step FNV_OFFSET before) d"
    using hash_octets_inj by (simp only: foldl_append foldl.simps)
  then show "c = d"
    using hash_step_cancel xor_cancel_left of_char_word_inj by blast
qed simp

lemma revision_hex: "length (revision_of version) = 16" "list_all is_lower_hex (revision_of version)"
  by (simp_all add: revision_of_def hex_digits_lower)

text \<open>
  C34. A revision is sixteen lower-case hexadecimal digits, so it is one line and has no white space, and
  two texts that differ in one octet have different revisions.
\<close>

theorem revision_of_type:
  "length (revision_of txt) = 16 \<and> list_all is_lower_hex (revision_of txt)
   \<and> (revision_of (before @ c # after) = revision_of (before @ d # after) \<longleftrightarrow> c = d)"
  by (simp only: revision_hex revision_octet_inj)

section \<open>A stamp is found again\<close>

subsection \<open>Lines with their breaks\<close>

lemma split_inclusive_line: "LF \<notin> set c \<Longrightarrow> split_inclusive (c @ LF # r) = (c @ [LF]) # split_inclusive r"
  by (induction c) auto

lemma split_inclusive_last: "LF \<notin> set c \<Longrightarrow> c \<noteq> [] \<Longrightarrow> split_inclusive c = [c]"
proof (induction c)
  case (Cons x c)
  then show ?case by (cases "c = []") auto
qed simp

lemma lines_induct [case_names Nil Last Line]:
  assumes "P []"
    and "\<And>c. LF \<notin> set c \<Longrightarrow> c \<noteq> [] \<Longrightarrow> P c"
    and "\<And>c r. LF \<notin> set c \<Longrightarrow> P r \<Longrightarrow> P (c @ LF # r)"
  shows "P s"
proof (induction s rule: length_induct)
  case (1 s)
  show ?case
  proof (cases "LF \<in> set s")
    case True
    then obtain c r where s: "s = c @ LF # r" "LF \<notin> set c"
      using split_list_first by metis
    then have "P r" using 1 by simp
    then show ?thesis using assms(3) [OF s(2)] s(1) by simp
  next
    case False
    then show ?thesis using assms(1,2) by (cases "s = []") auto
  qed
qed

lemma drop_prefix: "l = a @ t \<Longrightarrow> drop (length a) l = t"
  by simp

lemma line_content_line: "line_content (c @ [LF]) = line_content c"
  by (simp add: line_content_def trim_end_chars_def)

lemma line_content_split:
  "LF \<notin> set c \<Longrightarrow> \<exists>n. c = line_content c @ replicate n CR"
proof (induction c rule: rev_induct)
  case (snoc x c)
  show ?case
  proof (cases "x = CR")
    case True
    obtain n where "c = line_content c @ replicate n CR" using snoc by auto
    then have "c @ [x] = line_content (c @ [x]) @ replicate n CR @ [CR]"
      using True by (simp add: line_content_def trim_end_chars_def)
    then show ?thesis by (metis replicate_append_same replicate_Suc)
  next
    case False
    then show ?thesis
      using snoc(2) by (intro exI [of _ 0]) (auto simp: line_content_def trim_end_chars_def)
  qed
qed (simp add: line_content_def trim_end_chars_def)

lemma line_content_last: "c \<noteq> [] \<Longrightarrow> last c \<noteq> CR \<Longrightarrow> LF \<notin> set c \<Longrightarrow> line_content c = c"
  by (cases c rule: rev_cases) (auto simp: line_content_def trim_end_chars_def)

lemma hex_octet:
  assumes "is_lower_hex c"
  shows "\<not> ascii_space c" "space_len (c # r) = 0" "space_len_rev (c # r) = 0" "c \<noteq> LF"
proof -
  have c: "\<not> CHR 0x80 \<le> c" and space: "\<not> ascii_space c"
    using assms by (auto simp: is_lower_hex_def ascii_space_def less_eq_char_def)
  have "c \<noteq> CHR 0xC2" "c \<noteq> CHR 0xE1" "c \<noteq> CHR 0xE2" "c \<noteq> CHR 0xE3"
    using c by (auto simp: less_eq_char_def)
  then show "space_len (c # r) = 0"
    using space by (simp add: space_len_def space2_def space3_def split: list.splits)
  have "c \<noteq> CHR 0x85" "c \<noteq> CHR 0xA0" "c \<noteq> CHR 0x80" "c \<noteq> CHR 0xA8" "c \<noteq> CHR 0xA9" "c \<noteq> CHR 0xAF"
    "c \<noteq> CHR 0x9F"
    using c by (auto simp: less_eq_char_def)
  then show "space_len_rev (c # r) = 0"
    using space c by (simp add: space_len_rev_def space2_def space3_def split: list.splits)
  show "\<not> ascii_space c" by (rule space)
  show "c \<noteq> LF" using space by (auto simp: ascii_space_def)
qed

lemma drop_spaces_spaces:
  assumes "list_all ascii_space a" "\<And>c r. ascii_space c \<Longrightarrow> len (c # r) = 1"
  shows "drop_spaces len (a @ b) = drop_spaces len b"
  using assms(1)
proof (induction a)
  case (Cons c a)
  then show ?case using assms(2) [of c] by (subst drop_spaces.simps) simp
qed simp

lemma drop_spaces_stop: "s = [] \<or> len s = 0 \<Longrightarrow> drop_spaces len s = s"
  by (subst drop_spaces.simps) auto

lemma trim_token:
  assumes "list_all is_lower_hex t" "t \<noteq> []" "list_all ascii_space w"
  shows "trim (t @ w) = t"
proof -
  have "drop_spaces space_len (t @ w) = t @ w"
    using assms hex_octet(2) by (cases t) (auto intro: drop_spaces_stop)
  moreover have "drop_spaces space_len_rev (rev t) = rev t"
    using assms hex_octet(3) by (cases t rule: rev_cases) (auto intro: drop_spaces_stop)
  moreover have "drop_spaces space_len_rev (rev w @ rev t) = drop_spaces space_len_rev (rev t)"
    using assms(3) by (intro drop_spaces_spaces) (simp_all add: space_len_rev_def)
  ultimately show ?thesis by (simp add: trim_def)
qed


subsection \<open>The stamp line\<close>

lemma is_stamp_line: "is_stamp (STAMP @ CHR '':'' # r)"
  by (simp add: is_stamp_def STAMP_def is_char_boundary_def is_continuation_def less_eq_char_def nth_append)

lemma ending_not_folded: "eq_ignore_ascii_case (line_content l) (''END:'' @ kind) \<Longrightarrow> \<not> opens_folded l"
proof -
  assume e: "eq_ignore_ascii_case (line_content l) (''END:'' @ kind)"
  obtain t where t: "l = line_content l @ t"
    using trim_end_chars_split unfolding line_content_def by blast
  obtain x xs where x: "line_content l = x # xs" "to_ascii_lower x = to_ascii_lower (CHR ''E'')"
    using e by (cases "line_content l") (auto simp: eq_ignore_ascii_case_def to_ascii_lowercase_def)
  have "to_ascii_lower (CHR 0x20) \<noteq> to_ascii_lower (CHR ''E'')" "to_ascii_lower TAB \<noteq> to_ascii_lower (CHR ''E'')"
    by code_simp+
  then have "x \<noteq> CHR 0x20" "x \<noteq> TAB"
    using x(2) by auto
  then show ?thesis using t x(1) by (cases l) (auto simp: opens_folded_def)
qed

text \<open>What \<^verbatim>\<open>unstamp\<close> does at one line of the stamped text.\<close>

definition stamped_lines :: "str \<Rightarrow> str \<Rightarrow> str \<Rightarrow> str list" where
  "stamped_lines ending revision l =
     (if eq_ignore_ascii_case (line_content l) ending
      then [STAMP @ CHR '':'' # revision @ drop (length (line_content l)) l
            @ (if length l = length (line_content l) then [CR, LF] else [])]
      else []) @ [l]"

lemma unstamp_stamped_line:
  assumes "list_all is_lower_hex revision" "revision \<noteq> []" "\<not> is_stamp l"
    "list_all ascii_space (drop (length (line_content l)) l)"
  shows "foldl unstamp_line (kept, found, False) (stamped_lines (''END:'' @ kind) revision l) =
    (kept @ l,
     (if found = None \<and> eq_ignore_ascii_case (line_content l) (''END:'' @ kind) then Some revision else found),
     False)"
proof (cases "eq_ignore_ascii_case (line_content l) (''END:'' @ kind)")
  case True
  define w where "w = drop (length (line_content l)) l @ (if length l = length (line_content l) then [CR, LF] else [])"
  have "list_all ascii_space w"
    using assms(4) by (simp add: w_def ascii_space_def)
  then have "trim (revision @ w) = revision"
    using assms(1,2) trim_token by blast
  moreover have "split_once (CHR '':'') (STAMP @ CHR '':'' # revision @ w) = Some (STAMP, revision @ w)"
    by (rule split_once_append) (simp add: STAMP_def)
  ultimately show ?thesis
    using True assms(3) ending_not_folded [OF True] is_stamp_line [of "revision @ w"]
    by (simp add: stamped_lines_def unstamp_line_def w_def [symmetric])
qed (simp add: stamped_lines_def unstamp_line_def assms(3))


lemma split_stamped_line:
  assumes "LF \<notin> set c" "list_all is_lower_hex revision"
  shows "split_inclusive (stamp_line ending revision (c @ [LF]) @ r)
    = stamped_lines ending revision (c @ [LF]) @ split_inclusive r"
proof -
  obtain n where n: "c = line_content c @ replicate n CR"
    using line_content_split [OF assms(1)] by blast
  then have tail: "drop (length (line_content c)) c = replicate n CR"
    by (rule drop_prefix)
  have "length (line_content c) \<le> length c"
    using arg_cong [OF n, of length] by simp
  moreover have "LF \<notin> set revision"
    using assms(2) hex_octet(4) by (auto simp: list_all_iff)
  moreover have "LF \<notin> set STAMP" by (simp add: STAMP_def)
  ultimately show ?thesis
    using assms(1) split_inclusive_line [of "STAMP @ CHR '':'' # revision @ replicate n CR" "c @ LF # r"]
    by (simp add: stamp_line_def stamped_lines_def line_content_line Let_def tail split_inclusive_line)
qed

lemma split_stamped_last:
  assumes "LF \<notin> set c" "c \<noteq> []" "last c \<noteq> CR" "list_all is_lower_hex revision"
  shows "split_inclusive (stamp_line ending revision c) = stamped_lines ending revision c"
proof -
  have "LF \<notin> set (STAMP @ CHR '':'' # revision @ [CR])"
    using assms(4) hex_octet(4) by (auto simp: list_all_iff STAMP_def)
  then show ?thesis
    using assms split_inclusive_line [of "STAMP @ CHR '':'' # revision @ [CR]" c]
    by (simp add: stamp_line_def stamped_lines_def line_content_last Let_def split_inclusive_last)
qed

definition has_ending :: "str \<Rightarrow> str \<Rightarrow> bool" where
  "has_ending kind txt \<longleftrightarrow>
     list_ex (\<lambda>line. eq_ignore_ascii_case (line_content line) (''END:'' @ kind)) (split_inclusive txt)"

lemma drop_trimmed: "drop (length (trim_end_chars P l)) l = rev (takeWhile P (rev l))"
proof (rule drop_prefix)
  have "l = rev (takeWhile P (rev l) @ dropWhile P (rev l))" by simp
  then show "l = trim_end_chars P l @ rev (takeWhile P (rev l))"
    by (simp only: trim_end_chars_def rev_append)
qed

lemma content_tail_spaces: "list_all ascii_space (drop (length (line_content l)) l)"
proof -
  have "ascii_space c" if "c = CR \<or> c = LF" for c
    using that by (auto simp: ascii_space_def)
  then show ?thesis
    unfolding line_content_def drop_trimmed by (auto simp: list_all_iff dest!: set_takeWhileD)
qed

lemma unstamp_stamp_from:
  assumes "list_all (\<lambda>line. \<not> is_stamp line) (split_inclusive txt)" "txt = [] \<or> last txt \<noteq> CR"
    "list_all is_lower_hex revision" "revision \<noteq> []"
  shows "foldl unstamp_line (kept, found, False) (split_inclusive (stamp txt kind revision)) =
    (kept @ txt, (if found = None \<and> has_ending kind txt then Some revision else found), False)"
  using assms(1,2)
proof (induction "txt" arbitrary: kept found rule: lines_induct)
  case Nil
  then show ?case by (simp add: stamp_def has_ending_def)
next
  case (Last c)
  then show ?case
    using split_stamped_last [of c revision] unstamp_stamped_line [of revision c] assms(3,4) content_tail_spaces
    by (simp add: stamp_def has_ending_def split_inclusive_last)
next
  case (Line c r)
  let ?l = "c @ [LF]"
  have r: "r = [] \<or> last r \<noteq> CR" "list_all (\<lambda>line. \<not> is_stamp line) (split_inclusive r)" "\<not> is_stamp ?l"
    using Line(3,4) by (auto simp: split_inclusive_line [OF Line(1)])
  have "stamp (c @ LF # r) kind revision = stamp_line (''END:'' @ kind) revision ?l @ stamp r kind revision"
    using Line(1) by (simp add: stamp_def split_inclusive_line)
  then have "split_inclusive (stamp (c @ LF # r) kind revision)
      = stamped_lines (''END:'' @ kind) revision ?l @ split_inclusive (stamp r kind revision)"
    using split_stamped_line [OF Line(1) assms(3)] by simp
  moreover have "has_ending kind (c @ LF # r) \<longleftrightarrow>
      eq_ignore_ascii_case (line_content ?l) (''END:'' @ kind) \<or> has_ending kind r"
    by (simp add: has_ending_def split_inclusive_line [OF Line(1)])
  ultimately show ?case
    using unstamp_stamped_line [OF assms(3,4) r(3) content_tail_spaces, of kept found kind] Line(2) [OF r(2,1)]
    by (simp only: foldl_append) simp
qed

text \<open>
  C35. A text that is stamped with the revision of a version and unstamped again comes back unchanged, with
  that revision when the text has a component of the kind: for every text that has no stamp of its own
  and does not break off after a carriage return.
\<close>

theorem unstamp_stamp:
  assumes "list_all (\<lambda>line. \<not> is_stamp line) (split_inclusive txt)" "txt = [] \<or> last txt \<noteq> CR"
  shows "unstamp (stamp txt kind (revision_of version)) =
    (txt, if has_ending kind txt then Some (revision_of version) else None)"
proof -
  have "list_all is_lower_hex (revision_of version)" "revision_of version \<noteq> []"
    using revision_hex [of version] by auto
  then show ?thesis
    using unstamp_stamp_from [OF assms, of "revision_of version" "[]" None kind] by (simp add: unstamp_def)
qed

definition card_sample :: str where
  "card_sample = ''BEGIN:VCARD'' @ [CR, LF] @ ''FN:A'' @ [CR, LF] @ '' B'' @ [CR, LF] @ ''end:vcard''"

theorem unstamp_stamp_witness:
  "unstamp (stamp card_sample ''VCARD'' (revision_of ''{}'')) = (card_sample, Some (revision_of ''{}''))"
proof -
  have "has_ending ''VCARD'' card_sample" by code_simp
  moreover have "list_all (\<lambda>line. \<not> is_stamp line) (split_inclusive card_sample)" by code_simp
  moreover have "card_sample = [] \<or> last card_sample \<noteq> CR" by code_simp
  ultimately show ?thesis using unstamp_stamp [of card_sample "''VCARD''" "''{}''"] by simp
qed


text \<open>A text that ends in a lone carriage return is why: the stamp and the last line become one line.\<close>

lemma stamp_lone_cr: "unstamp (stamp (''END:VCARD'' @ [CR]) ''VCARD'' ''0'') = ([], Some (''0'' @ [CR] @ ''END:VCARD''))"
  by code_simp

section \<open>The versions that an extra keeps\<close>

text \<open>What the development relies on of the JSON crate: an array of texts is read back, and it opens with a bracket.\<close>

definition json_texts :: "(str list \<Rightarrow> str) \<Rightarrow> (str \<Rightarrow> str list option) \<Rightarrow> bool" where
  "json_texts to_string from_str \<longleftrightarrow>
     (\<forall>versions. from_str (to_string versions) = Some versions \<and> (\<exists>t. to_string versions = CHR ''['' # t))"

text \<open>A version that is not empty and not a JSON array.\<close>

definition plain_version :: "str \<Rightarrow> bool" where
  "plain_version v = (case v of [] \<Rightarrow> False | c # _ \<Rightarrow> c \<noteq> CHR ''['')"

text \<open>The extra after a sequence of server versions, the oldest first.\<close>

definition extra_after :: "(str list \<Rightarrow> str) \<Rightarrow> (str \<Rightarrow> str list option) \<Rightarrow> str list \<Rightarrow> str option" where
  "extra_after to_string from_str versions =
     foldl (\<lambda>previous v. Some (extra to_string from_str v previous)) None versions"

text \<open>The versions without repetition, the most recent first.\<close>

definition recency :: "str list \<Rightarrow> str list" where
  "recency versions = rev (remdups versions)"

lemma recency_snoc: "recency (vs @ [v]) = v # removeAll v (recency vs)"
  by (induction vs) (auto simp: recency_def)

lemma distinct_recency: "distinct (recency vs)" "set (recency vs) = set vs"
  by (simp_all add: recency_def)

lemma push_versions_take:
  "distinct vs \<Longrightarrow> length acc \<le> KEPT \<Longrightarrow> push_versions acc vs = take KEPT (acc @ filter (\<lambda>v. v \<notin> set acc) vs)"
proof (induction acc vs rule: push_versions.induct)
  case (2 acc v vs)
  have "filter (\<lambda>x. x \<notin> set (acc @ [v])) vs = filter (\<lambda>x. x \<notin> set acc) vs"
    using 2(3) by (intro filter_cong) auto
  then show ?case using 2 by auto
qed simp

lemma take_removeAll:
  "distinct xs \<Longrightarrow> take n (removeAll v (take (Suc n) xs)) = take n (removeAll v xs)"
proof (induction n arbitrary: xs)
  case (Suc n)
  show ?case
  proof (cases xs)
    case (Cons x ys)
    show ?thesis
    proof (cases "x = v")
      case True
      then have "v \<notin> set ys" "v \<notin> set (take (Suc n) ys)"
        using Suc(2) Cons by (auto dest: in_set_takeD)
      then show ?thesis using Cons True by simp
    qed (use Suc Cons in simp)
  qed simp
qed simp

lemma versions_of_extra:
  assumes "json_texts to_string from_str" "plain_version v"
    and "previous = None \<Longrightarrow> old = []"
    and "\<And>p. previous = Some p \<Longrightarrow> versions_of from_str p = old"
    and "distinct old"
  shows "versions_of from_str (extra to_string from_str v previous) = take KEPT (v # removeAll v old)"
proof -
  define vs where "vs = take KEPT (v # removeAll v old)"
  have "push_versions [v] old = vs"
    using push_versions_take [OF assms(5), of "[v]"] by (simp add: vs_def KEPT_def removeAll_filter_not_eq eq_commute)
  then have e: "extra to_string from_str v previous = (if length vs = 1 then hd vs else to_string vs)"
    using assms(3,4) by (cases previous) (auto simp: extra_def)
  have "vs = [v]" if "length vs = 1"
    using that by (cases "removeAll v old") (auto simp: vs_def KEPT_def)
  moreover have "versions_of from_str v = [v]"
    using assms(2) by (auto simp: versions_of_def plain_version_def split: list.splits)
  moreover have "versions_of from_str (to_string vs) = vs"
  proof -
    obtain t where "to_string vs = CHR ''['' # t" "from_str (to_string vs) = Some vs"
      using assms(1) unfolding json_texts_def by blast
    then show ?thesis by (simp add: versions_of_def)
  qed
  ultimately have "versions_of from_str (extra to_string from_str v previous) = vs"
    unfolding e by (cases "length vs = 1") simp_all
  then show ?thesis by (simp only: vs_def)
qed

lemma extra_after_versions:
  assumes "json_texts to_string from_str" "list_all plain_version vs" "vs \<noteq> []"
  shows "\<exists>e. extra_after to_string from_str vs = Some e \<and> versions_of from_str e = take KEPT (recency vs)"
  using assms(2,3)
proof (induction vs rule: rev_induct)
  case (snoc v vs)
  let ?old = "if vs = [] then [] else take KEPT (recency vs)"
  have "extra_after to_string from_str (vs @ [v]) = Some (extra to_string from_str v (extra_after to_string from_str vs))"
    by (simp add: extra_after_def)
  moreover have "versions_of from_str (extra to_string from_str v (extra_after to_string from_str vs))
      = take KEPT (v # removeAll v ?old)"
    using snoc assms(1) distinct_recency(1) [of vs]
    by (intro versions_of_extra) (auto simp: extra_after_def)
  moreover have "take KEPT (v # removeAll v ?old) = take KEPT (recency (vs @ [v]))"
    using take_removeAll [OF distinct_recency(1) [of vs], of 3 v]
    by (simp add: recency_snoc KEPT_def) (simp add: recency_def)
  ultimately show ?case by simp
qed simp


text \<open>
  C36. The extra keeps the four most recent distinct server versions: an edit that carries the stamp of one
  of them is based on exactly that version, however many refreshes came between, the stamp of an older
  version is refused as out of sync, and an edit without a stamp is based on the last version. The
  revisions of the versions differ, and no version is empty or a JSON array.
\<close>

theorem edit_base_recent:
  assumes "json_texts to_string from_str" "list_all plain_version versions" "v \<in> set versions"
    and "inj_on revision_of (set versions)"
  shows "base_for from_str (extra_after to_string from_str versions) (Some (revision_of v)) =
      (if v \<in> set (take KEPT (recency versions)) then Ok (Some v) else Err OutOfSync)
    \<and> base_for from_str (extra_after to_string from_str versions) None = Ok (Some (last versions))"
proof -
  let ?kept = "take KEPT (recency versions)"
  have ne: "versions \<noteq> []" using assms(3) by auto
  then obtain e where e: "extra_after to_string from_str versions = Some e" "versions_of from_str e = ?kept"
    using extra_after_versions [OF assms(1,2)] by blast
  have sub: "set ?kept \<subseteq> set versions"
    using set_take_subset [of KEPT "recency versions"] by (simp add: distinct_recency)
  have same: "revision_of x = revision_of v \<longleftrightarrow> x = v" if "x \<in> set ?kept" for x
    using that sub assms(3,4) by (auto simp: inj_on_def)
  have "find (\<lambda>x. revision_of x = revision_of v) xs = (if v \<in> set xs then Some v else None)"
    if "set xs \<subseteq> set ?kept" for xs
    using that by (induction xs) (auto simp: same)
  from this [of ?kept]
  have "base_for from_str (Some e) (Some (revision_of v)) = (if v \<in> set ?kept then Ok (Some v) else Err OutOfSync)"
    by (simp add: base_for_def e(2))
  moreover obtain ws w where "versions = ws @ [w]"
    using ne by (cases versions rule: rev_cases) auto
  then have "base_for from_str (Some e) None = Ok (Some (last versions))"
    by (simp add: base_for_def e(2) recency_snoc KEPT_def)
  ultimately show ?thesis using e(1) by simp
qed

text \<open>A printer of lists of texts that can be read back.\<close>

definition sample_print :: "str list \<Rightarrow> str" where
  "sample_print vs = CHR ''['' # concat (map (\<lambda>v. concat (map (\<lambda>c. [CHR ''.'', c]) v) @ [CHR '','']) vs)"

fun sample_items :: "str \<Rightarrow> str \<Rightarrow> str list" where
  "sample_items acc [] = []"
| "sample_items acc [c] = [acc]"
| "sample_items acc (c # d # s) = (if c = CHR ''.'' then sample_items (acc @ [d]) s else acc # sample_items [] (d # s))"

definition sample_read :: "str \<Rightarrow> str list option" where
  "sample_read s = Some (sample_items [] (tl s))"

lemma sample_items_text:
  "sample_items acc (concat (map (\<lambda>c. [CHR ''.'', c]) v) @ CHR '','' # r) = (acc @ v) # sample_items [] r"
proof (induction v arbitrary: acc)
  case Nil
  then show ?case by (cases r) auto
qed simp

lemma sample_json_texts: "json_texts sample_print sample_read"
proof -
  have "sample_items [] (tl (sample_print vs)) = vs" for vs
    by (induction vs) (simp_all add: sample_print_def sample_items_text)
  then show ?thesis by (simp add: json_texts_def sample_read_def) (simp add: sample_print_def)
qed

theorem edit_base_recent_witness:
  "base_for sample_read (extra_after sample_print sample_read [''{1}'', ''{2}'', ''{3}'']) (Some (revision_of ''{1}''))
      = Ok (Some ''{1}'')
   \<and> base_for sample_read (extra_after sample_print sample_read [''{1}'', ''{2}'', ''{3}'']) None = Ok (Some ''{3}'')"
proof -
  let ?vs = "[''{1}'', ''{2}'', ''{3}'']"
  have plain: "list_all plain_version ?vs" by code_simp
  have "revision_of [CHR ''{'', c, CHR ''}''] = revision_of [CHR ''{'', d, CHR ''}''] \<longleftrightarrow> c = d" for c d
    using revision_octet_inj [of "''{''" c "''}''" d] by simp
  then have inj: "inj_on revision_of (set ?vs)" by (simp add: inj_on_def)
  have kept: "''{1}'' \<in> set (take KEPT (recency ?vs)) \<and> last ?vs = ''{3}''" by code_simp
  have v: "''{1}'' \<in> set ?vs" by simp
  show ?thesis
    using edit_base_recent [OF sample_json_texts plain v inj] kept by (simp only: if_True)
qed

end
