(* ===== verification/Object_Sync.thy ===== *)
theory Object_Sync
  imports Client_Changes Edit_Base
begin

text \<open>
  The steps that the address book and the calendar share (\<^verbatim>\<open>jmap-object-sync/src/lib.rs\<close>): what a delta of
  the account means for one collection, and the patch of an edit under a conflict policy.

  The trait \<^verbatim>\<open>ObjectKind\<close> is a record of its constants and functions, so a theorem about it holds for every
  implementation. The conversion of a client error into the error of the caller, the \<^verbatim>\<open>get\<close> of the caller
  and its \<^verbatim>\<open>render\<close> are arguments.
\<close>

section \<open>Operations\<close>

record ('n, 'o) object_kind =
  ok_type :: str
  ok_noun :: str
  ok_a_noun :: str
  ok_membership_name :: str
  ok_id :: "'o \<Rightarrow> jid option"
  ok_membership :: "'o \<Rightarrow> (jid \<times> bool) list option"
  ok_diff :: "'o \<Rightarrow> 'o \<Rightarrow> (str \<times> 'n json) list"
  ok_diff_since_except :: "'o \<Rightarrow> 'o \<Rightarrow> 'o \<Rightarrow> str list \<Rightarrow> (str \<times> 'n json) list"
  ok_conflicts :: "'o \<Rightarrow> 'o \<Rightarrow> 'o \<Rightarrow> str list"

datatype on_conflict = KeepLocal | KeepServer | Fail

record 'i object_changes =
  oc_new_state :: jstate
  oc_changed :: "'i list"
  oc_removed :: "str list"

definition id_of :: "('n, 'o) object_kind \<Rightarrow> 'o \<Rightarrow> 'n error + jid" where
  "id_of K obj =
     ok_or (ok_id K obj) (Protocol (ok_type K @ ''/get returned '' @ ok_a_noun K @ '' without an id''))"

definition holds :: "('n, 'o) object_kind \<Rightarrow> 'o \<Rightarrow> jid \<Rightarrow> 'n error + bool" where
  "holds K obj own =
     (case Option.bind (ok_membership K obj) (\<lambda>members. map_of members own) of
        Some False \<Rightarrow> Err (Protocol (ok_type K @ ''/get returned ''
          @ (case ok_id K obj of None \<Rightarrow> ''<no id>'' | Some i \<Rightarrow> i)
          @ '' with a false-valued '' @ ok_membership_name K @ '' entry for '' @ own))
      | Some True \<Rightarrow> Ok True
      | None \<Rightarrow> Ok False)"

text \<open>The loop over the objects of the answer.\<close>

fun sort_objects ::
  "('n, 'o) object_kind \<Rightarrow> ('n error \<Rightarrow> 'e) \<Rightarrow> ('o \<Rightarrow> 'e + 'i) \<Rightarrow> jid \<Rightarrow> jid list
   \<Rightarrow> 'o list \<Rightarrow> 'i list \<times> str list \<Rightarrow> 'e + 'i list \<times> str list" where
  "sort_objects K from render own updated [] (changed, removed) = Ok (changed, removed)"
| "sort_objects K from render own updated (obj # objs) (changed, removed) =
     res_bind (map_err from (id_of K obj)) (\<lambda>i.
     res_bind (map_err from (holds K obj own)) (\<lambda>held.
       if held then res_bind (render obj) (\<lambda>item.
         sort_objects K from render own updated objs (changed @ [item], removed))
       else if i \<in> set updated then sort_objects K from render own updated objs (changed, removed @ [i])
       else sort_objects K from render own updated objs (changed, removed)))"

text \<open>The union of two ordered sets.\<close>

definition candidates_of :: "change_set \<Rightarrow> jid list" where
  "candidates_of delta = fold insort_insert (cs_updated delta) (cs_created delta)"

definition object_classify ::
  "('n, 'o) object_kind \<Rightarrow> ('n error \<Rightarrow> 'e) \<Rightarrow> change_set \<Rightarrow> jid
   \<Rightarrow> (jid list \<Rightarrow> 'n error + 'o get_response) \<Rightarrow> ('o \<Rightarrow> 'e + 'i) \<Rightarrow> 'e + 'i object_changes" where
  "object_classify K from delta own get render =
     (let removed = cs_destroyed delta; candidates = candidates_of delta in
      res_bind
        (if candidates = [] then Ok ([], removed)
         else res_bind (map_err from (get candidates)) (\<lambda>response.
           res_bind (sort_objects K from render own (cs_updated delta) (gr_list response) ([], removed))
             (\<lambda>(changed, removed).
               Ok (changed, removed @ filter (\<lambda>i. i \<in> set (cs_updated delta)) (gr_not_found response)))))
        (\<lambda>(changed, removed).
          Ok \<lparr>oc_new_state = cs_new_state delta, oc_changed = changed, oc_removed = removed\<rparr>))"

definition patch_since ::
  "('n, 'o) object_kind \<Rightarrow> 'x + 'o \<Rightarrow> on_conflict \<Rightarrow> 'o \<Rightarrow> 'o \<Rightarrow> out_of_sync + (str \<times> 'n json) list" where
  "patch_since K base on_conflict current edited =
     (case base of
        Inl _ \<Rightarrow> Ok (ok_diff K current edited)
      | Inr base \<Rightarrow>
          let conflicts = ok_conflicts K base current edited in
          if conflicts = [] then Ok (ok_diff_since_except K base current edited [])
          else (case on_conflict of
                  KeepLocal \<Rightarrow> Ok (ok_diff_since_except K base current edited [])
                | KeepServer \<Rightarrow> Ok (ok_diff_since_except K base current edited conflicts)
                | Fail \<Rightarrow> Err OutOfSync))"

section \<open>Properties\<close>

text \<open>Whether an object is filed in a collection.\<close>

definition filed_in :: "('n, 'o) object_kind \<Rightarrow> jid \<Rightarrow> 'o \<Rightarrow> bool" where
  "filed_in K own obj \<longleftrightarrow> Option.bind (ok_membership K obj) (\<lambda>members. map_of members own) = Some True"

lemma holds_Ok_iff: "holds K obj own = Inr b \<longleftrightarrow>
    Option.bind (ok_membership K obj) (\<lambda>members. map_of members own) \<noteq> Some False \<and> b = filed_in K own obj"
  by (auto simp: holds_def filed_in_def split: option.splits bool.splits)

lemma map_err_Inr_iff [res_simps]: "map_err f r = Inr x \<longleftrightarrow> r = Inr x"
  by (cases r) simp_all

lemma sort_objects_Ok:
  assumes "sort_objects K from render own updated objs (changed, removed) = Ok (changed', removed')"
  shows "\<exists>items. changed' = changed @ items
      \<and> list_all2 (\<lambda>obj item. render obj = Ok item) (filter (filed_in K own) objs) items
      \<and> removed' = removed @ map (the \<circ> ok_id K) (filter (\<lambda>obj. \<not> filed_in K own obj \<and> the (ok_id K obj) \<in> set updated) objs)"
  using assms
proof (induction objs arbitrary: changed removed)
  case (Cons obj objs)
  from Cons(2) obtain i where i: "ok_id K obj = Some i"
    by (auto simp: res_bind_Inr_iff map_err_Inr_iff id_of_def ok_or_def split: option.splits)
  from Cons(2) i obtain held where "holds K obj own = Inr held"
    by (auto simp: res_bind_Inr_iff map_err_Inr_iff)
  then have h: "holds K obj own = Inr (filed_in K own obj)"
    by (simp add: holds_Ok_iff)
  show ?case
  proof (cases "filed_in K own obj")
    case True
    then obtain item where "render obj = Ok item"
      "sort_objects K from render own updated objs (changed @ [item], removed) = Ok (changed', removed')"
      using Cons(2) i h by (auto simp: res_bind_Inr_iff id_of_def)
    then show ?thesis using Cons(1) True by fastforce
  next
    case False
    then show ?thesis
      using Cons(2) Cons(1) [of changed removed] Cons(1) [of changed "removed @ [i]"] i h
      by (auto simp: id_of_def split: if_splits)
  qed
qed simp

lemma set_insort_all: "set (fold insort_insert xs ys) = set xs \<union> set ys"
  by (induction xs arbitrary: ys) (auto simp: set_insort_insert)

lemma set_candidates: "set (candidates_of delta) = set (cs_created delta) \<union> set (cs_updated delta)"
  by (auto simp: candidates_of_def set_insort_all)


lemma object_classify_Ok:
  assumes "object_classify K from delta own get render = Ok c" "get (candidates_of delta) = Ok response"
    and "map (ok_id K) (gr_list response) = map Some ids"
    and "set ids \<union> set (gr_not_found response) = set (candidates_of delta)"
  shows "oc_new_state c = cs_new_state delta
    \<and> list_all2 (\<lambda>obj item. render obj = Ok item) (filter (filed_in K own) (gr_list response)) (oc_changed c)
    \<and> set (oc_removed c) = set (cs_destroyed delta)
        \<union> ((\<lambda>obj. the (ok_id K obj)) ` {obj \<in> set (gr_list response). \<not> filed_in K own obj} \<inter> set (cs_updated delta))
        \<union> (set (gr_not_found response) \<inter> set (cs_updated delta))"
proof (cases "candidates_of delta = []")
  case True
  then have "gr_list response = []" "gr_not_found response = []"
    using assms(3,4) by auto
  then show ?thesis
    using assms(1) True by (auto simp: object_classify_def Let_def)
next
  case False
  then obtain changed removed where
    "sort_objects K from render own (cs_updated delta) (gr_list response) ([], cs_destroyed delta) = Ok (changed, removed)"
    "c = \<lparr>oc_new_state = cs_new_state delta, oc_changed = changed,
          oc_removed = removed @ filter (\<lambda>i. i \<in> set (cs_updated delta)) (gr_not_found response)\<rparr>"
    using assms(1,2) by (auto simp: object_classify_def Let_def res_bind_Inr_iff split: prod.splits)
  then show ?thesis
    using sort_objects_Ok [of K "from" render own "cs_updated delta" "gr_list response" "[]"] by fastforce
qed

text \<open>The ids of the objects of an answer that are filed in a collection.\<close>

definition filed_ids :: "('n, 'o) object_kind \<Rightarrow> jid \<Rightarrow> 'o list \<Rightarrow> jid set" where
  "filed_ids K own objs = {i. \<exists>obj \<in> set objs. ok_id K obj = Some i \<and> filed_in K own obj}"

text \<open>
  C37. Let a delta of the account have disjoint parts, let the server account for every created or updated
  object exactly once, as an object or as not found, and let the cache hold \<open>cached\<close>, none of which was
  created later. If the delta is classified, then the changed items are the renderings of the objects
  filed in the collection, in their order, no such object is removed, and a cache that drops the removed
  ids and takes in the changed ones holds exactly the untouched members and those that the server files
  in the collection now.
\<close>

theorem object_classify_refines:
  assumes "object_classify K from delta own get render = Ok c" "get (candidates_of delta) = Ok response"
    and "map (ok_id K) (gr_list response) = map Some ids" "distinct ids"
    and "set ids \<union> set (gr_not_found response) = set (candidates_of delta)"
    and "set ids \<inter> set (gr_not_found response) = {}"
    and "set (cs_destroyed delta) \<inter> set (candidates_of delta) = {}"
    and "set (cs_created delta) \<inter> cached = {}"
  shows "oc_new_state c = cs_new_state delta
    \<and> list_all2 (\<lambda>obj item. render obj = Ok item) (filter (filed_in K own) (gr_list response)) (oc_changed c)
    \<and> set (oc_removed c) \<inter> filed_ids K own (gr_list response) = {}
    \<and> cached - set (oc_removed c) \<union> filed_ids K own (gr_list response)
      = cached - (set (cs_destroyed delta) \<union> set (candidates_of delta)) \<union> filed_ids K own (gr_list response)"
proof -
  let ?id = "\<lambda>obj. the (ok_id K obj)"
  let ?out = "?id ` {obj \<in> set (gr_list response). \<not> filed_in K own obj}"
  let ?filed = "?id ` {obj \<in> set (gr_list response). filed_in K own obj}"
  note c = object_classify_Ok [OF assms(1-3) assms(5)]
  have some: "\<forall>obj \<in> set (gr_list response). ok_id K obj \<noteq> None"
    using arg_cong [OF assms(3), of set] by (metis (no_types, lifting) imageE image_eqI image_set option.distinct(1))
  have ids: "map ?id (gr_list response) = ids"
    using arg_cong [OF assms(3), of "map the"] by (simp add: comp_def)
  then have inj: "inj_on ?id (set (gr_list response))"
    using assms(4) by (auto simp: distinct_map)
  have filed: "filed_ids K own (gr_list response) = ?filed"
    using some by (force simp: filed_ids_def image_iff)
  have "?out \<inter> ?filed = ?id ` ({obj \<in> set (gr_list response). \<not> filed_in K own obj}
      \<inter> {obj \<in> set (gr_list response). filed_in K own obj})"
    by (rule inj_on_image_Int [OF inj, symmetric]) auto
  then have apart: "?out \<inter> ?filed = {}" by auto
  have "?out \<union> ?filed = ?id ` set (gr_list response)" by auto
  then have all: "?out \<union> ?filed = set ids" using ids by auto
  have away: "set (oc_removed c) \<inter> ?filed = {}"
    using c apart all assms(5-7) by blast
  moreover have "cached - set (oc_removed c) \<union> ?filed
      = cached - (set (cs_destroyed delta) \<union> set (candidates_of delta)) \<union> ?filed"
  proof -
    define out where "out = ?out"
    define filed where "filed = ?filed"
    have "set (oc_removed c) = set (cs_destroyed delta) \<union> (out \<inter> set (cs_updated delta))
        \<union> (set (gr_not_found response) \<inter> set (cs_updated delta))" "out \<union> filed = set ids"
      using c all by (simp_all add: out_def filed_def)
    then show ?thesis
      using assms(5,8) set_candidates [of delta] unfolding filed_def [symmetric] by blast
  qed
  ultimately show ?thesis using c unfolding filed by blast
qed


text \<open>Objects that are an id with a membership, and a delta with a new, two updated and a destroyed object.\<close>

definition sample_kind :: "(nat, jid \<times> (jid \<times> bool) list) object_kind" where
  "sample_kind =
     \<lparr>ok_type = ''ContactCard'', ok_noun = ''card'', ok_a_noun = ''a card'', ok_membership_name = ''addressBookIds'',
      ok_id = \<lambda>obj. Some (fst obj), ok_membership = \<lambda>obj. Some (snd obj), ok_diff = \<lambda>_ _. [],
      ok_diff_since_except = \<lambda>_ _ _ _. [], ok_conflicts = \<lambda>_ _ _. []\<rparr>"

definition sample_delta :: change_set where
  "sample_delta = \<lparr>cs_new_state = ''s2'', cs_created = [''n''], cs_updated = [''g'', ''m''], cs_destroyed = [''d'']\<rparr>"

definition sample_answer :: "(jid \<times> (jid \<times> bool) list) get_response" where
  "sample_answer =
     \<lparr>gr_account_id = ''A'', gr_state = ''s2'', gr_list = [(''n'', [(''own'', True)]), (''m'', [(''other'', True)])],
      gr_not_found = [''g'']\<rparr>"

definition sample_changes :: "jid object_changes" where
  "sample_changes = \<lparr>oc_new_state = ''s2'', oc_changed = [''n''], oc_removed = [''d'', ''m'', ''g'']\<rparr>"

theorem object_classify_refines_witness:
  "set (oc_removed sample_changes) \<inter> filed_ids sample_kind ''own'' (gr_list sample_answer) = {}
   \<and> {''d'', ''m'', ''g'', ''k''} - set (oc_removed sample_changes) \<union> filed_ids sample_kind ''own'' (gr_list sample_answer)
     = {''d'', ''m'', ''g'', ''k''} - (set (cs_destroyed sample_delta) \<union> set (candidates_of sample_delta))
       \<union> filed_ids sample_kind ''own'' (gr_list sample_answer)"
proof -
  have run: "object_classify sample_kind (\<lambda>e. e) sample_delta ''own'' (\<lambda>_. Ok sample_answer) (\<lambda>obj. Ok (fst obj))
      = Ok sample_changes"
    by code_simp
  have ids: "map (ok_id sample_kind) (gr_list sample_answer) = map Some [''n'', ''m'']" by code_simp
  have cand: "candidates_of sample_delta = [''g'', ''m'', ''n'']" by code_simp
  have nf: "gr_not_found sample_answer = [''g'']" by (simp add: sample_answer_def)
  have parts: "set [''n'', ''m''] \<union> set (gr_not_found sample_answer) = set (candidates_of sample_delta)"
    "set [''n'', ''m''] \<inter> set (gr_not_found sample_answer) = {}"
    "set (cs_destroyed sample_delta) \<inter> set (candidates_of sample_delta) = {}"
    "set (cs_created sample_delta) \<inter> {''d'', ''m'', ''g'', ''k''} = {}"
    unfolding cand nf by (auto simp: sample_delta_def)
  show ?thesis
    using object_classify_refines [OF run refl ids _ parts] by simp
qed

text \<open>
  What a save sends: with a base, only what changed since it; a conflict matters only if there is one, and
  a refusal needs the policy \<open>Fail\<close> and a conflict.
\<close>

lemma patch_since_policy:
  "ok_conflicts K base current edited = [] \<Longrightarrow>
     patch_since K (Inr base) p current edited = Ok (ok_diff_since_except K base current edited [])"
  "patch_since K b p current edited = Err OutOfSync \<longleftrightarrow>
     (\<exists>base. b = Inr base \<and> ok_conflicts K base current edited \<noteq> [] \<and> p = Fail)"
  by (auto simp: patch_since_def Let_def split: sum.splits on_conflict.splits)

end
