(* ===== verification/Proto_Text.thy ===== *)
theory Proto_Text
  imports Jmap_Prelude
begin

text \<open>
  The text helpers of \<^verbatim>\<open>jmap-proto/src/text.rs\<close>: line folding, caret escapes, URI schemes and the
  escapes of a JSON Pointer segment. Slices of a text panic off a character boundary, so folding
  gives an \<open>outcome\<close>; it is shown that the panic does not happen.
\<close>

section \<open>Lines\<close>

abbreviation SP :: char where "SP \<equiv> CHR 0x20"
abbreviation BACKSLASH :: char where "BACKSLASH \<equiv> CHR 0x5C"

text \<open>\<^verbatim>\<open>text.split("\r\n")\<close>, and the lines with the separator between them again.\<close>

fun split_crlf :: "str \<Rightarrow> str list" where
  "split_crlf [] = [[]]"
| "split_crlf [c] = [[c]]"
| "split_crlf (c # d # s) =
     (if c = CR \<and> d = LF then [] # split_crlf s
      else (case split_crlf (d # s) of [] \<Rightarrow> [[c]] | l # ls \<Rightarrow> (c # l) # ls))"

fun join_crlf :: "str list \<Rightarrow> str" where
  "join_crlf [] = []"
| "join_crlf [l] = l"
| "join_crlf (l # m # ls) = l @ CR # LF # join_crlf (m # ls)"

definition out_bind :: "'a outcome \<Rightarrow> ('a \<Rightarrow> 'b outcome) \<Rightarrow> 'b outcome" where
  "out_bind m f = (case m of Panic \<Rightarrow> Panic | Done x \<Rightarrow> f x)"

lemma out_bind_simps [simp]: "out_bind Panic f = Panic" "out_bind (Done x) f = f x"
  by (simp_all add: out_bind_def)

section \<open>Folding\<close>

definition MAX_LINE_OCTETS :: nat where
  "MAX_LINE_OCTETS = 75"

text \<open>The loop that moves a cut back to a character boundary.\<close>

fun floor_boundary :: "str \<Rightarrow> nat \<Rightarrow> nat" where
  "floor_boundary s 0 = 0"
| "floor_boundary s (Suc n) = (if is_char_boundary s (Suc n) then Suc n else floor_boundary s n)"

text \<open>The number of backslashes at the end of a text.\<close>

definition backslashes :: "str \<Rightarrow> nat" where
  "backslashes s = length (takeWhile (\<lambda>c. c = BACKSLASH) (rev s))"

text \<open>\<^verbatim>\<open>(1..=rest.len()).find(is_char_boundary).unwrap_or(rest.len())\<close>.\<close>

definition first_boundary :: "str \<Rightarrow> nat" where
  "first_boundary s =
     (case find (is_char_boundary s) [1..<Suc (length s)] of None \<Rightarrow> length s | Some i \<Rightarrow> i)"

definition fold_cut :: "nat \<Rightarrow> str \<Rightarrow> nat" where
  "fold_cut budget rest =
     (let cut = floor_boundary rest budget;
          cut = (if backslashes (take cut rest) mod 2 = 1 then cut - 1 else cut)
      in if cut = 0 then first_boundary rest else cut)"

lemma first_boundary_props:
  assumes "s \<noteq> []"
  shows "0 < first_boundary s" "first_boundary s \<le> length s" "is_char_boundary s (first_boundary s)"
proof -
  have "i \<in> set xs \<and> P i" if "find P xs = Some i" for P :: "nat \<Rightarrow> bool" and i xs
    using that by (auto simp: find_Some_iff)
  then have "0 < first_boundary s \<and> first_boundary s \<le> length s \<and> is_char_boundary s (first_boundary s)"
    using assms
    by (fastforce simp: first_boundary_def is_char_boundary_def split: option.splits)
  then show "0 < first_boundary s" "first_boundary s \<le> length s" "is_char_boundary s (first_boundary s)"
    by auto
qed

lemma fold_cut_pos: "rest \<noteq> [] \<Longrightarrow> 0 < fold_cut budget rest"
  by (auto simp: fold_cut_def Let_def first_boundary_props)

text \<open>
  One line: \<^verbatim>\<open>while rest.len() > budget\<close>, where the budget of every piece after the first is one octet
  less, for the space in front of it.
\<close>

function fold_rest :: "nat \<Rightarrow> nat \<Rightarrow> str \<Rightarrow> str outcome" where
  "fold_rest max_octets budget rest =
     (if length rest \<le> budget then Done rest
      else (case split_at rest (fold_cut budget rest) of
              Panic \<Rightarrow> Panic
            | Done (piece, rest) \<Rightarrow>
                out_bind (fold_rest max_octets (max_octets - 1) rest)
                  (\<lambda>folded. Done (piece @ [CR, LF, SP] @ folded))))"
  by pat_completeness auto
termination
proof (relation "measure (\<lambda>(_, _, rest). length rest)", goal_cases)
  case (2 max_octets budget rest p piece rest')
  then have "rest' = drop (fold_cut budget rest) rest" "rest \<noteq> []"
    by (auto simp: split_at_def split: if_splits)
  then show ?case
    using fold_cut_pos [of rest budget] by simp
qed simp

declare fold_rest.simps [simp del]

fun fold_lines :: "nat \<Rightarrow> str list \<Rightarrow> str outcome" where
  "fold_lines max_octets [] = Done []"
| "fold_lines max_octets [line] = fold_rest max_octets max_octets line"
| "fold_lines max_octets (line # next # lines) =
     out_bind (fold_rest max_octets max_octets line)
       (\<lambda>out. out_bind (fold_lines max_octets (next # lines)) (\<lambda>more. Done (out @ CR # LF # more)))"

definition fold_overlong_lines_at :: "str \<Rightarrow> nat \<Rightarrow> str outcome" where
  "fold_overlong_lines_at txt max_octets =
     (if list_all (\<lambda>line. length line \<le> max_octets) (split_crlf txt) then Done txt
      else fold_lines max_octets (split_crlf txt))"

definition fold_overlong_lines :: "str \<Rightarrow> str outcome" where
  "fold_overlong_lines txt = fold_overlong_lines_at txt MAX_LINE_OCTETS"


subsection \<open>Texts and their lines\<close>

fun crlf_free :: "str \<Rightarrow> bool" where
  "crlf_free (c # d # s) \<longleftrightarrow> \<not> (c = CR \<and> d = LF) \<and> crlf_free (d # s)"
| "crlf_free [c] \<longleftrightarrow> True"
| "crlf_free [] \<longleftrightarrow> True"

lemma split_crlf_not_Nil [simp]: "split_crlf s \<noteq> []"
  by (induction s rule: split_crlf.induct) (auto split: list.splits)

lemma join_crlf_Cons [simp]: "join_crlf ((c # l) # ls) = c # join_crlf (l # ls)"
  by (cases ls) simp_all

lemma join_split_crlf [simp]: "join_crlf (split_crlf s) = s"
proof (induction s rule: split_crlf.induct)
  case (3 c d s)
  then show ?case
    by (cases "split_crlf s"; cases "split_crlf (d # s)") auto
qed simp_all

lemma split_crlf_head: "split_crlf (d # s) = (e # l) # ls \<Longrightarrow> e = d"
  by (cases s) (auto split: if_splits list.splits)

lemma split_crlf_free: "l \<in> set (split_crlf s) \<Longrightarrow> crlf_free l"
proof (induction s arbitrary: l rule: split_crlf.induct)
  case (3 c d s)
  show ?case
  proof (cases "c = CR \<and> d = LF")
    case False
    obtain m ls where ls: "split_crlf (d # s) = m # ls"
      by (cases "split_crlf (d # s)") simp_all
    have "crlf_free (c # m)"
      using 3(2) [OF False, of m] False split_crlf_head [of d s] ls by (cases m) auto
    then show ?thesis
      using 3(2) [OF False, of l] 3(3) False ls by auto
  qed (use 3 in auto)
qed auto

lemma split_crlf_append: "crlf_free l \<Longrightarrow> split_crlf (l @ CR # LF # r) = l # split_crlf r"
  by (induction l rule: crlf_free.induct) auto

lemma split_crlf_id: "crlf_free l \<Longrightarrow> split_crlf l = [l]"
  by (induction l rule: crlf_free.induct) auto

lemma split_join_crlf: "ls \<noteq> [] \<Longrightarrow> list_all crlf_free ls \<Longrightarrow> split_crlf (join_crlf ls) = ls"
  by (induction ls rule: join_crlf.induct) (simp_all add: split_crlf_append split_crlf_id)

lemma join_crlf_append:
  "xs \<noteq> [] \<Longrightarrow> ys \<noteq> [] \<Longrightarrow> join_crlf (xs @ ys) = join_crlf xs @ CR # LF # join_crlf ys"
proof (induction xs rule: join_crlf.induct)
  case (2 l)
  then show ?case by (cases ys) simp_all
qed simp_all

lemma crlf_free_appendD: "crlf_free (a @ b) \<Longrightarrow> crlf_free a \<and> crlf_free b"
proof (induction a rule: crlf_free.induct)
  case (2 c)
  then show ?case by (cases b) auto
qed simp_all

lemma crlf_free_take_drop: "crlf_free s \<Longrightarrow> crlf_free (take n s) \<and> crlf_free (drop n s)"
  using crlf_free_appendD [of "take n s" "drop n s"] by simp

lemma crlf_free_SP: "crlf_free p \<Longrightarrow> crlf_free (SP # p)"
  by (cases p) simp_all

text \<open>Unfolding (RFC 5545, section 3.1): every CRLF with a space after it goes away.\<close>

fun unfold_lines :: "str \<Rightarrow> str" where
  "unfold_lines (a # b # c # s) =
     (if a = CR \<and> b = LF \<and> c = SP then unfold_lines s else a # unfold_lines (b # c # s))"
| "unfold_lines s = s"

definition opens_with_space :: "str \<Rightarrow> bool" where
  "opens_with_space s \<longleftrightarrow> (case s of [] \<Rightarrow> False | c # _ \<Rightarrow> c = SP)"

lemma opens_with_space_simps [simp]:
  "\<not> opens_with_space []" "opens_with_space (c # s) \<longleftrightarrow> c = SP"
  by (simp_all add: opens_with_space_def)

lemma unfold_lines_Cons [simp]: "c \<noteq> CR \<Longrightarrow> unfold_lines (c # s) = c # unfold_lines s"
  by (cases s; cases "tl s") auto

lemma unfold_piece: "crlf_free p \<Longrightarrow> unfold_lines (p @ CR # LF # SP # q) = p @ unfold_lines q"
proof (induction p rule: crlf_free.induct)
  case (1 c d s)
  then show ?case by (cases s) auto
qed auto

lemma unfold_line:
  "crlf_free p \<Longrightarrow> \<not> opens_with_space r \<Longrightarrow> unfold_lines (p @ CR # LF # r) = p @ CR # LF # unfold_lines r"
proof (induction p rule: crlf_free.induct)
  case (1 c d s)
  then show ?case by (cases "s @ CR # LF # r") auto
next
  case (2 c)
  then show ?case by (cases r) auto
next
  case 3
  then show ?case by (cases r) auto
qed

lemma unfold_free: "crlf_free p \<Longrightarrow> unfold_lines p = p"
  by (induction p rule: unfold_lines.induct) auto

subsection \<open>The pieces of a line\<close>

definition mark_first :: "str list \<Rightarrow> str list" where
  "mark_first ps = (case ps of [] \<Rightarrow> [] | p # ps \<Rightarrow> (SP # p) # ps)"

function fold_pieces :: "nat \<Rightarrow> nat \<Rightarrow> str \<Rightarrow> str list" where
  "fold_pieces max_octets budget rest =
     (if length rest \<le> budget then [rest]
      else take (fold_cut budget rest) rest #
           mark_first (fold_pieces max_octets (max_octets - 1) (drop (fold_cut budget rest) rest)))"
  by pat_completeness auto
termination
proof (relation "measure (\<lambda>(_, _, rest). length rest)", goal_cases)
  case (2 max_octets budget rest)
  then have "rest \<noteq> []" by auto
  then show ?case
    using fold_cut_pos [of rest budget] by simp
qed simp

declare fold_pieces.simps [simp del]

lemma fold_pieces_not_Nil [simp]: "fold_pieces m b s \<noteq> []"
  by (subst fold_pieces.simps) simp

lemma floor_boundary_props: "is_char_boundary s (floor_boundary s n)" "floor_boundary s n \<le> n"
  by (induction n) (auto simp: is_char_boundary_def)

lemma floor_boundary_greatest: "m \<le> n \<Longrightarrow> is_char_boundary s m \<Longrightarrow> m \<le> floor_boundary s n"
  by (induction n) (auto simp: le_Suc_eq)

lemma odd_backslashes:
  assumes "odd (backslashes s)"
  shows "\<exists>t. s = t @ [BACKSLASH] \<and> even (backslashes t)"
  using assms by (cases s rule: rev_cases) (auto simp: backslashes_def split: if_splits)

lemma odd_backslashes_take:
  assumes "odd (backslashes (take n s))" "n \<le> length s"
  shows "0 < n" "even (backslashes (take (n - 1) s))" "is_char_boundary s (n - 1)"
proof -
  obtain t where t: "take n s = t @ [BACKSLASH]" "even (backslashes t)"
    using odd_backslashes [OF assms(1)] by blast
  then have n: "n = Suc (length t)"
    using assms(2) by (metis length_append_singleton length_take min.absorb2)
  show "0 < n" by (simp add: n)
  show "even (backslashes (take (n - 1) s))"
    using arg_cong [OF t(1), of "take (length t)"] t(2) n by simp
  have "s ! length t = BACKSLASH"
    using t(1) n by (metis lessI nth_append_length nth_take)
  then show "is_char_boundary s (n - 1)"
    using n assms(2) by (auto simp: is_char_boundary_def is_continuation_def less_eq_char_def)
qed

lemma fold_cut_boundary:
  assumes "budget < length rest"
  shows "is_char_boundary rest (fold_cut budget rest)" "fold_cut budget rest \<le> length rest"
proof -
  note f = floor_boundary_props [of rest budget]
  have "rest \<noteq> []" using assms by auto
  then show "is_char_boundary rest (fold_cut budget rest)" "fold_cut budget rest \<le> length rest"
    using f first_boundary_props [of rest] odd_backslashes_take [of "floor_boundary rest budget" rest] assms
    by (auto simp: fold_cut_def Let_def odd_iff_mod_2_eq_one)
qed

lemma join_mark_first [simp]: "ps \<noteq> [] \<Longrightarrow> join_crlf (p # mark_first ps) = p @ CR # LF # SP # join_crlf ps"
  by (cases ps) (simp_all add: mark_first_def)

lemma fold_rest_pieces: "fold_rest m b s = Done (join_crlf (fold_pieces m b s))"
proof (induction m b s rule: fold_pieces.induct)
  case (1 m b s)
  then show ?case
    using fold_cut_boundary [of b s]
    by (subst fold_rest.simps, subst fold_pieces.simps) (auto simp: split_at_def)
qed

lemma fold_lines_pieces: "fold_lines m ls = Done (join_crlf (concat (map (fold_pieces m m) ls)))"
  by (induction m ls rule: fold_lines.induct) (simp_all add: fold_rest_pieces join_crlf_append)

lemma fold_pieces_free: "crlf_free s \<Longrightarrow> list_all crlf_free (fold_pieces m b s)"
proof (induction m b s rule: fold_pieces.induct)
  case (1 m b s)
  obtain p ps where ps: "fold_pieces m (m - 1) (drop (fold_cut b s) s) = p # ps"
    by (cases "fold_pieces m (m - 1) (drop (fold_cut b s) s)") simp_all
  show ?case
    using 1 crlf_free_take_drop [OF 1(2), of "fold_cut b s"] ps
    by (subst fold_pieces.simps) (auto simp: mark_first_def crlf_free_SP)
qed

lemma split_fold_lines:
  assumes "fold_lines m (split_crlf s) = Done out"
  shows "split_crlf out = concat (map (fold_pieces m m) (split_crlf s))"
proof -
  have "list_all crlf_free (concat (map (fold_pieces m m) (split_crlf s)))"
    using fold_pieces_free split_crlf_free by (auto simp: list_all_iff) blast
  moreover have "concat (map (fold_pieces m m) (split_crlf s)) \<noteq> []"
    by (cases "split_crlf s") auto
  ultimately show ?thesis
    using assms split_join_crlf by (auto simp: fold_lines_pieces)
qed


lemma fold_pieces_head:
  assumes s: "\<not> opens_with_space s"
  shows "\<not> opens_with_space (hd (fold_pieces m b s))"
    "\<not> opens_with_space (join_crlf (fold_pieces m b s @ ls))"
proof -
  obtain p ps where ps: "fold_pieces m b s = p # ps"
    by (cases "fold_pieces m b s") simp_all
  have p: "\<not> opens_with_space p"
  proof (cases s)
    case Nil
    then show ?thesis using ps by (subst (asm) fold_pieces.simps) simp
  next
    case (Cons c t)
    then obtain n where "fold_cut b s = Suc n"
      using fold_cut_pos [of s b] gr0_implies_Suc by blast
    then have "p = s \<or> p = take (Suc n) s"
      using ps by (subst (asm) fold_pieces.simps) (auto split: if_splits)
    then show ?thesis using s Cons by auto
  qed
  show "\<not> opens_with_space (hd (fold_pieces m b s))"
    using ps p by simp
  show "\<not> opens_with_space (join_crlf (fold_pieces m b s @ ls))"
    using ps p by (cases p; cases "ps @ ls") auto
qed

lemma unfold_pieces:
  assumes "crlf_free s" "ls = [] \<or> \<not> opens_with_space (join_crlf ls)"
  shows "unfold_lines (join_crlf (fold_pieces m b s @ ls)) = join_crlf (s # (if ls = [] then [] else [unfold_lines (join_crlf ls)]))"
  using assms
proof (induction m b s rule: fold_pieces.induct)
  case (1 m b s)
  let ?n = "fold_cut b s"
  show ?case
  proof (cases "length s \<le> b")
    case True
    then show ?thesis
      using 1(2,3) by (subst fold_pieces.simps) (cases ls; auto simp: unfold_free unfold_line)
  next
    case False
    obtain p ps where ps: "fold_pieces m (m - 1) (drop ?n s) = p # ps"
      by (cases "fold_pieces m (m - 1) (drop ?n s)") simp_all
    have "fold_pieces m b s @ ls = take ?n s # (SP # p) # (ps @ ls)"
      using False ps by (subst fold_pieces.simps) (simp add: mark_first_def)
    then have "join_crlf (fold_pieces m b s @ ls) =
        take ?n s @ CR # LF # SP # join_crlf (fold_pieces m (m - 1) (drop ?n s) @ ls)"
      using ps by simp
    moreover have "take ?n s @ join_crlf (drop ?n s # xs) = join_crlf (s # xs)" for xs
      by (cases xs) simp_all
    ultimately show ?thesis
      using 1 False crlf_free_take_drop [OF 1(2), of ?n] by (simp add: unfold_piece)
  qed
qed

lemma unfold_fold_lines:
  assumes "list_all crlf_free ls" "list_all (\<lambda>l. \<not> opens_with_space l) (tl ls)"
  shows "unfold_lines (join_crlf (concat (map (fold_pieces m m) ls))) = join_crlf ls"
  using assms
proof (induction ls rule: join_crlf.induct)
  case (2 l)
  then show ?case using unfold_pieces [of l "[]" m m] by simp
next
  case (3 l k ls)
  let ?rest = "concat (map (fold_pieces m m) (k # ls))"
  have "?rest \<noteq> []" "\<not> opens_with_space (join_crlf ?rest)"
    using 3(3) fold_pieces_head [of k] by auto
  then show ?case
    using 3 unfold_pieces [of l ?rest m m] by (auto simp: list_all_iff simp del: map_eq_conv)
qed simp

subsection \<open>Well-formed texts\<close>

text \<open>
  The octets of a \<^verbatim>\<open>str\<close> are UTF-8: every character is a first octet with the continuation octets that
  it announces. (The two rules on overlong forms and surrogates play no part here.)
\<close>

definition char_octets :: "char \<Rightarrow> nat" where
  "char_octets c =
     (if c < CHR 0x80 then 1
      else if CHR 0xC2 \<le> c \<and> c \<le> CHR 0xDF then 2
      else if CHR 0xE0 \<le> c \<and> c \<le> CHR 0xEF then 3
      else if CHR 0xF0 \<le> c \<and> c \<le> CHR 0xF4 then 4 else 0)"

fun utf8 :: "str \<Rightarrow> bool" where
  "utf8 [] \<longleftrightarrow> True"
| "utf8 (c # s) \<longleftrightarrow>
     0 < char_octets c \<and> char_octets c \<le> length (c # s)
     \<and> list_all is_continuation (take (char_octets c - 1) s) \<and> utf8 (drop (char_octets c - 1) s)"

lemma char_octets_le: "char_octets c \<le> 4"
  by (simp add: char_octets_def)

lemma utf8_first: "utf8 (c # s) \<Longrightarrow> \<not> is_continuation c"
  by (auto simp: char_octets_def is_continuation_def less_eq_char_def less_char_def split: if_splits)

lemma utf8_boundary_start: "utf8 s \<Longrightarrow> s = [] \<or> \<not> is_continuation (s ! 0)"
  using utf8_first by (cases s) auto

lemma utf8_boundary_near:
  "utf8 s \<Longrightarrow> n \<le> length s \<Longrightarrow> \<exists>m \<le> n. n \<le> m + 3 \<and> is_char_boundary s m"
proof (induction s arbitrary: n rule: utf8.induct)
  case (2 c s)
  let ?k = "char_octets c"
  show ?case
  proof (cases "n < ?k")
    case True
    then show ?thesis
      using char_octets_le [of c] by (intro exI [of _ 0]) (simp add: is_char_boundary_def)
  next
    case False
    let ?t = "drop (?k - 1) s"
    have t: "utf8 ?t" "0 < ?k" "?k \<le> Suc (length s)" using 2(2) by simp_all
    obtain m where m: "m \<le> n - ?k" "n - ?k \<le> m + 3" "is_char_boundary ?t m"
      using 2(1) [of "n - ?k"] t diff_le_mono [OF 2(3), of ?k] by auto
    have "is_char_boundary (c # s) (?k + m)"
      using m(3) t utf8_boundary_start [OF t(1)]
      by (auto simp: is_char_boundary_def nth_Cons')
    moreover have "?k + m \<le> n" "n \<le> ?k + m + 3"
      using m False by linarith+
    ultimately show ?thesis by blast
  qed
qed (auto simp: is_char_boundary_def)

lemma utf8_split:
  "utf8 s \<Longrightarrow> n \<le> length s \<Longrightarrow> is_char_boundary s n \<Longrightarrow> utf8 (take n s) \<and> utf8 (drop n s)"
proof (induction s arbitrary: n rule: utf8.induct)
  case (2 c s)
  let ?k = "char_octets c"
  have k: "0 < ?k" "?k \<le> Suc (length s)" "list_all is_continuation (take (?k - 1) s)"
    using 2(2) by simp_all
  consider "n = 0" | "0 < n" "n < ?k" | "?k \<le> n" "0 < n" by linarith
  then show ?case
  proof cases
    case 2
    then have "is_continuation (s ! (n - 1))"
      using k by (auto simp: list_all_length)
    then show ?thesis
      using 2 \<open>is_char_boundary (c # s) n\<close> k by (auto simp: is_char_boundary_def nth_Cons')
  next
    case 3
    let ?t = "drop (?k - 1) s"
    have "is_char_boundary ?t (n - ?k)"
      using 3 2(4) k by (auto simp: is_char_boundary_def nth_Cons')
    then have "utf8 (take (n - ?k) ?t) \<and> utf8 (drop (n - ?k) ?t)"
      using 2(1) [of "n - ?k"] 2(2) diff_le_mono [OF 2(3), of ?k] by simp
    moreover have "drop n (c # s) = drop (n - ?k) ?t"
      using 3 k by (simp add: drop_Cons')
    moreover have "utf8 (take n (c # s))"
      using calculation(1) 3 k 2(3) by (auto simp: take_Cons' drop_take min_def)
    ultimately show ?thesis by simp
  qed (use 2 in simp)
qed simp

lemma fold_cut_utf8:
  assumes "utf8 s" "b < length s" "5 \<le> b"
  shows "fold_cut b s \<le> b" "even (backslashes (take (fold_cut b s) s))"
proof -
  obtain m where "m \<le> b" "b \<le> m + 3" "is_char_boundary s m"
    using utf8_boundary_near [of s b] assms by auto
  then have f: "2 \<le> floor_boundary s b" "floor_boundary s b \<le> b" "floor_boundary s b \<le> length s"
    using floor_boundary_greatest [of m b s] floor_boundary_props [of s b] assms by linarith+
  have "fold_cut b s \<le> b \<and> even (backslashes (take (fold_cut b s) s))"
  proof (cases "odd (backslashes (take (floor_boundary s b) s))")
    case True
    then have "fold_cut b s = floor_boundary s b - 1"
      using f(1) by (simp add: fold_cut_def Let_def odd_iff_mod_2_eq_one)
    then show ?thesis using odd_backslashes_take(2) [OF True f(3)] f(2) by simp
  next
    case False
    then have "fold_cut b s = floor_boundary s b"
      using f(1) by (simp add: fold_cut_def Let_def odd_iff_mod_2_eq_one)
    then show ?thesis using False f(2) by simp
  qed
  then show "fold_cut b s \<le> b" "even (backslashes (take (fold_cut b s) s))" by simp_all
qed


lemma backslashes_SP [simp]: "backslashes (SP # p) = backslashes p"
proof -
  have "takeWhile (\<lambda>c. c = BACKSLASH) (xs @ [SP]) = takeWhile (\<lambda>c. c = BACKSLASH) xs" for xs
    by (induction xs) auto
  then show ?thesis by (simp add: backslashes_def)
qed

lemma utf8_SP: "utf8 p \<Longrightarrow> utf8 (SP # p)"
  by (simp add: char_octets_def less_char_def)

text \<open>The pieces of a line: their size, that they are texts, and that no escaped pair is cut.\<close>

definition keeps_pairs :: "str \<Rightarrow> str \<Rightarrow> bool" where
  "keeps_pairs line follower \<longleftrightarrow> (opens_with_space follower \<longrightarrow> even (backslashes line))"

lemma fold_pieces_bounded:
  assumes "utf8 s" "6 \<le> m" "m - 1 \<le> b" "b \<le> m"
  shows "length (hd (fold_pieces m b s)) \<le> b \<and> (\<forall>p \<in> set (fold_pieces m b s). length p \<le> m \<and> utf8 p)
    \<and> successively keeps_pairs (fold_pieces m b s)"
  using assms
proof (induction m b s rule: fold_pieces.induct)
  case (1 m b s)
  let ?n = "fold_cut b s"
  show ?case
  proof (cases "length s \<le> b")
    case True
    then show ?thesis using 1(2-) by (subst (1 2 3) fold_pieces.simps) simp
  next
    case False
    obtain p ps where ps: "fold_pieces m (m - 1) (drop ?n s) = p # ps"
      by (cases "fold_pieces m (m - 1) (drop ?n s)") simp_all
    have all: "fold_pieces m b s = take ?n s # (SP # p) # ps"
      using False ps by (subst fold_pieces.simps) (simp add: mark_first_def)
    have cut: "?n \<le> b" "even (backslashes (take ?n s))" "utf8 (take ?n s)" "utf8 (drop ?n s)"
      using False 1(2-) fold_cut_utf8 [of s b] fold_cut_boundary [of b s] utf8_split [of s ?n] by auto
    have "length p \<le> m - 1 \<and> (\<forall>q \<in> set (p # ps). length q \<le> m \<and> utf8 q)
        \<and> successively keeps_pairs (p # ps)"
      using 1(1) [OF False] cut(4) 1(3) ps by simp
    then show ?thesis
      using cut 1(3,5) all utf8_SP [of p]
      by (cases ps) (auto simp: keeps_pairs_def successively_Cons)
  qed
qed

lemma utf8_join_lines: "utf8 (join_crlf ls) \<Longrightarrow> list_all utf8 ls"
proof (induction ls rule: join_crlf.induct)
  case (3 l m ls)
  let ?r = "LF # join_crlf (m # ls)"
  have "is_char_boundary (l @ CR # ?r) (length l)"
    by (simp add: is_char_boundary_def is_continuation_def less_eq_char_def)
  then have "utf8 l" "utf8 (CR # ?r)"
    using 3(2) utf8_split [of "l @ CR # ?r" "length l"] by simp_all
  then show ?case
    using 3(1) by (simp add: char_octets_def less_char_def)
qed simp_all

lemma fold_overlong_lines_at_pieces:
  "fold_overlong_lines_at txt m = Done (join_crlf (concat (map (fold_pieces m m) (split_crlf txt))))"
proof -
  have "concat (map (fold_pieces m m) ls) = ls" if "list_all (\<lambda>line. length line \<le> m) ls" for ls
    using that by (induction ls) (simp_all add: fold_pieces.simps)
  then show ?thesis
    by (auto simp: fold_overlong_lines_at_def fold_lines_pieces)
qed

lemma concat_pieces_bounded:
  assumes "list_all utf8 ls" "list_all (\<lambda>l. \<not> opens_with_space l) (tl ls)" "6 \<le> m"
  shows "list_all (\<lambda>p. length p \<le> m \<and> utf8 p) (concat (map (fold_pieces m m) ls))
    \<and> successively keeps_pairs (concat (map (fold_pieces m m) ls))"
  using assms
proof (induction ls rule: join_crlf.induct)
  case (2 l)
  then show ?case using fold_pieces_bounded [of l m m] by (auto simp: list_all_iff)
next
  case (3 l k ls)
  let ?rest = "concat (map (fold_pieces m m) (k # ls))"
  have "keeps_pairs x (hd ?rest)" for x
    using 3(3) fold_pieces_head(1) [of k m m] by (simp add: keeps_pairs_def)
  moreover have "list_all (\<lambda>p. length p \<le> m \<and> utf8 p) ?rest \<and> successively keeps_pairs ?rest"
    using 3(1) 3(2-4) by (cases ls) simp_all
  moreover have "list_all (\<lambda>p. length p \<le> m \<and> utf8 p) (fold_pieces m m l)
      \<and> successively keeps_pairs (fold_pieces m m l)"
    using fold_pieces_bounded [of l m m] 3(2,4) by (simp add: list_all_iff)
  ultimately have "list_all (\<lambda>p. length p \<le> m \<and> utf8 p) (fold_pieces m m l @ ?rest)
      \<and> successively keeps_pairs (fold_pieces m m l @ ?rest)"
    by (simp only: list_all_append successively_append_iff) blast
  then show ?case by simp
qed simp

section \<open>Folding is faithful\<close>

text \<open>
  C33. Folding a text at a limit of at least six octets does not panic, and for a text whose lines do not
  begin with a space: unfolding gives the text back, every line of the result is a text of at most that
  many octets, so no multi-byte character is cut, and no line is broken behind an odd run of
  backslashes, so no escaped pair is cut.
\<close>

theorem fold_overlong_lines_faithful:
  assumes "utf8 txt" "list_all (\<lambda>line. \<not> opens_with_space line) (tl (split_crlf txt))" "6 \<le> max_octets"
  shows "\<exists>out. fold_overlong_lines_at txt max_octets = Done out
    \<and> unfold_lines out = txt
    \<and> list_all (\<lambda>line. length line \<le> max_octets \<and> utf8 line) (split_crlf out)
    \<and> successively keeps_pairs (split_crlf out)"
proof -
  let ?pieces = "concat (map (fold_pieces max_octets max_octets) (split_crlf txt))"
  have free: "list_all crlf_free (split_crlf txt)"
    by (simp add: list_all_iff split_crlf_free)
  have "list_all utf8 (split_crlf txt)"
    using assms(1) utf8_join_lines [of "split_crlf txt"] by simp
  moreover have "split_crlf (join_crlf ?pieces) = ?pieces"
    using split_fold_lines fold_lines_pieces by blast
  moreover have "unfold_lines (join_crlf ?pieces) = txt"
    using unfold_fold_lines [OF free assms(2)] by simp
  ultimately show ?thesis
    using concat_pieces_bounded [OF _ assms(2,3)] fold_overlong_lines_at_pieces
    by (intro exI [of _ "join_crlf ?pieces"]) metis
qed

definition folded_sample :: str where
  "folded_sample = ''ABCDE'' @ [BACKSLASH, BACKSLASH, CHR 0xC3, CHR 0xA9] @ ''FGH'' @ [CR, LF] @ ''END''"

theorem fold_overlong_lines_faithful_witness:
  "\<exists>out. fold_overlong_lines_at folded_sample 8 = Done out
    \<and> unfold_lines out = folded_sample
    \<and> list_all (\<lambda>line. length line \<le> 8 \<and> utf8 line) (split_crlf out)
    \<and> successively keeps_pairs (split_crlf out)"
proof (rule fold_overlong_lines_faithful)
  show "utf8 folded_sample" by code_simp
  show "list_all (\<lambda>line. \<not> opens_with_space line) (tl (split_crlf folded_sample))" by code_simp
qed simp

section \<open>Caret escapes\<close>

text \<open>\<^verbatim>\<open>chars.next_if_eq\<close>: one character is skipped if it is the given one.\<close>

definition next_if_eq :: "char \<Rightarrow> str \<Rightarrow> str" where
  "next_if_eq c s = (case s of [] \<Rightarrow> [] | d # t \<Rightarrow> if d = c then t else s)"

lemma length_next_if_eq [termination_simp]: "length (next_if_eq c s) < Suc (length s)"
  by (cases s) (auto simp: next_if_eq_def)

fun caret_encoded :: "str \<Rightarrow> str" where
  "caret_encoded [] = []"
| "caret_encoded (ch # chars) =
     (if ch = CHR ''^'' then ''^^'' @ caret_encoded chars
      else if ch = CHR 0x22 then [CHR ''^'', CHR 0x27] @ caret_encoded chars
      else if ch = LF then ''^n'' @ caret_encoded chars
      else if ch = CR then ''^n'' @ caret_encoded (next_if_eq LF chars)
      else ch # caret_encoded chars)"

fun caret_decoded :: "str \<Rightarrow> str" where
  "caret_decoded (ch # peek # chars) =
     (if ch = CHR ''^'' \<and> peek = CHR ''^'' then CHR ''^'' # caret_decoded chars
      else if ch = CHR ''^'' \<and> peek = CHR 0x27 then CHR 0x22 # caret_decoded chars
      else if ch = CHR ''^'' \<and> (peek = CHR ''n'' \<or> peek = CHR ''N'') then LF # caret_decoded chars
      else ch # caret_decoded (peek # chars))"
| "caret_decoded [ch] = [ch]"
| "caret_decoded [] = []"

text \<open>Line breaks as the decoder gives them: CRLF and a lone CR become LF.\<close>

fun lf_breaks :: "str \<Rightarrow> str" where
  "lf_breaks [] = []"
| "lf_breaks (ch # chars) = (if ch = CR then LF # lf_breaks (next_if_eq LF chars) else ch # lf_breaks chars)"

lemma caret_decoded_Cons [simp]: "c \<noteq> CHR ''^'' \<Longrightarrow> caret_decoded (c # s) = c # caret_decoded s"
  by (cases s) simp_all

lemma caret_roundtrip: "caret_decoded (caret_encoded s) = lf_breaks s"
  by (induction s rule: caret_encoded.induct) simp_all

lemma lf_breaks_id: "CR \<notin> set s \<Longrightarrow> lf_breaks s = s"
  by (induction s) auto

interpretation caret: codec caret_encoded "\<lambda>s. Some (caret_decoded s)" "\<lambda>s. CR \<notin> set s"
  by unfold_locales (simp add: caret_roundtrip lf_breaks_id)

lemma caret_encoded_quotable: "c \<in> {CHR 0x22, LF, CR} \<Longrightarrow> c \<notin> set (caret_encoded s)"
  by (induction s rule: caret_encoded.induct) auto

section \<open>URI schemes\<close>

definition is_valid_scheme :: "str \<Rightarrow> bool" where
  "is_valid_scheme scheme =
     (case scheme of
        [] \<Rightarrow> False
      | first # characters \<Rightarrow> is_ascii_alphabetic first
          \<and> list_all (\<lambda>c. is_ascii_alphanumeric c \<or> c \<in> set ''+-.'') characters)"

definition uri_scheme :: "str \<Rightarrow> str option" where
  "uri_scheme v =
     (case split_once (CHR '':'') v of
        None \<Rightarrow> None
      | Some (scheme, _) \<Rightarrow> if is_valid_scheme scheme then Some scheme else None)"

definition split_uri :: "str \<Rightarrow> (str \<times> str) option" where
  "split_uri v =
     (case split_once (CHR '':'') v of
        None \<Rightarrow> None
      | Some (scheme, rest) \<Rightarrow> if is_valid_scheme scheme then Some (scheme, rest) else None)"

definition has_uri_scheme :: "str \<Rightarrow> bool" where
  "has_uri_scheme v \<longleftrightarrow> uri_scheme v \<noteq> None"

lemma valid_scheme_no_colon: "is_valid_scheme s \<Longrightarrow> CHR '':'' \<notin> set s"
  by (auto simp: is_valid_scheme_def list_all_iff is_ascii_alphanumeric_def is_ascii_alphabetic_def
      is_ascii_digit_def less_eq_char_def split: list.splits)

lemma split_uri_Some_iff:
  "split_uri v = Some (scheme, rest) \<longleftrightarrow> v = scheme @ CHR '':'' # rest \<and> is_valid_scheme scheme"
proof
  show "v = scheme @ CHR '':'' # rest \<and> is_valid_scheme scheme" if "split_uri v = Some (scheme, rest)"
    using that by (auto simp: split_uri_def split_once_Some_iff split: option.splits if_splits)
  show "split_uri v = Some (scheme, rest)" if "v = scheme @ CHR '':'' # rest \<and> is_valid_scheme scheme"
    using that valid_scheme_no_colon [of scheme] by (simp add: split_uri_def)
qed

lemma uri_scheme_split_uri: "uri_scheme v = map_option fst (split_uri v)"
  by (auto simp: uri_scheme_def split_uri_def split: option.split simp del: split_once_None_iff)

section \<open>JSON Pointer segments\<close>

definition replace_char :: "char \<Rightarrow> str \<Rightarrow> str \<Rightarrow> str" where
  "replace_char c by s = concat (map (\<lambda>x. if x = c then by else [x]) s)"

definition escape_pointer_segment :: "str \<Rightarrow> str" where
  "escape_pointer_segment segment = replace_char (CHR ''/'') ''~1'' (replace_char (CHR ''~'') ''~0'' segment)"

text \<open>The reader of RFC 6901, section 4.\<close>

fun unescape_pointer_segment :: "str \<Rightarrow> str" where
  "unescape_pointer_segment (a # b # s) =
     (if a = CHR ''~'' \<and> b = CHR ''1'' then CHR ''/'' # unescape_pointer_segment s
      else if a = CHR ''~'' \<and> b = CHR ''0'' then CHR ''~'' # unescape_pointer_segment s
      else a # unescape_pointer_segment (b # s))"
| "unescape_pointer_segment s = s"

lemma escape_pointer_segment_simps [simp]:
  "escape_pointer_segment [] = []"
  "escape_pointer_segment (c # s) =
     (if c = CHR ''~'' then ''~0'' else if c = CHR ''/'' then ''~1'' else [c]) @ escape_pointer_segment s"
  by (simp_all add: escape_pointer_segment_def replace_char_def)

lemma unescape_pointer_Cons [simp]:
  "c \<noteq> CHR ''~'' \<Longrightarrow> unescape_pointer_segment (c # s) = c # unescape_pointer_segment s"
  by (cases s) simp_all

interpretation pointer: codec escape_pointer_segment "\<lambda>s. Some (unescape_pointer_segment s)" "\<lambda>_. True"
proof
  show "Some (unescape_pointer_segment (escape_pointer_segment s)) = Some s" for s
    by (induction s) auto
qed

lemma escaped_segment_no_slash: "CHR ''/'' \<notin> set (escape_pointer_segment s)"
  by (induction s) auto

end
