(* ===== verification/Mail_Keywords.thy ===== *)
theory Mail_Keywords
  imports Jmap_Types Proto_Text
begin

text \<open>
  Flag changes on the wire: the keyword sets of \<^verbatim>\<open>jmap-mail-sync/src/keywords.rs\<close>, the patch keys of
  \<^verbatim>\<open>pointer.rs\<close>, the filings of \<^verbatim>\<open>mailboxes.rs\<close> and the flags of \<^verbatim>\<open>message.rs\<close>.

  \<^verbatim>\<open>str::to_lowercase\<close> is ASCII on ASCII text; its values on other texts come from the Unicode tables, which
  are the argument \<open>uni\<close> of every definition that folds a keyword.
\<close>

section \<open>Operations\<close>

definition to_lowercase :: "(str \<Rightarrow> str) \<Rightarrow> str \<Rightarrow> str" where
  "to_lowercase uni s = (if is_ascii s then to_ascii_lowercase s else uni s)"

definition SEEN :: str where "SEEN = ''$seen''"
definition DRAFT :: str where "DRAFT = ''$draft''"
definition FLAGGED :: str where "FLAGGED = ''$flagged''"
definition ANSWERED :: str where "ANSWERED = ''$answered''"
definition FORWARDED :: str where "FORWARDED = ''$forwarded''"
definition JUNK :: str where "JUNK = ''$junk''"
definition NOT_JUNK :: str where "NOT_JUNK = ''$notjunk''"

lemmas keyword_defs = SEEN_def DRAFT_def FLAGGED_def ANSWERED_def FORWARDED_def JUNK_def NOT_JUNK_def

record message_flags =
  mf_seen :: bool
  mf_answered :: bool
  mf_flagged :: bool
  mf_draft :: bool
  mf_forwarded :: bool
  mf_junk :: bool
  mf_not_junk :: bool
  mf_attachments :: bool

definition no_flags :: message_flags where
  "no_flags =
     \<lparr>mf_seen = False, mf_answered = False, mf_flagged = False, mf_draft = False, mf_forwarded = False,
      mf_junk = False, mf_not_junk = False, mf_attachments = False\<rparr>"

text \<open>The patch key for a member of a property (\<^verbatim>\<open>pointer::member\<close>).\<close>

definition pointer_member :: "str \<Rightarrow> str \<Rightarrow> str" where
  "pointer_member property name = property @ CHR ''/'' # escape_pointer_segment name"

subsection \<open>Keyword sets\<close>

text \<open>The lower-case name is the key, the first spelling the value.\<close>

type_synonym keyword_set = "(str \<times> str) list"

definition EXCLUSIVE_PAIRS :: "(str \<times> str) list" where
  "EXCLUSIVE_PAIRS = [(JUNK, NOT_JUNK)]"

definition keywords_insert :: "(str \<Rightarrow> str) \<Rightarrow> str \<Rightarrow> keyword_set \<Rightarrow> keyword_set" where
  "keywords_insert uni name kw = bt_or_insert (to_lowercase uni name) name kw"

definition keywords_new :: "(str \<Rightarrow> str) \<Rightarrow> message_flags \<Rightarrow> str list \<Rightarrow> keyword_set" where
  "keywords_new uni flags tags =
     fold (keywords_insert uni) tags
       (fold (\<lambda>(is_set, name) kw. if is_set then keywords_insert uni name kw else kw)
         [(mf_seen flags, SEEN), (mf_answered flags, ANSWERED), (mf_flagged flags, FLAGGED),
          (mf_draft flags, DRAFT), (mf_forwarded flags, FORWARDED), (mf_junk flags, JUNK),
          (mf_not_junk flags, NOT_JUNK)] [])"

text \<open>The match on a folded name, shared by \<^verbatim>\<open>Keywords::split\<close> and \<^verbatim>\<open>read_keywords\<close>.\<close>

definition note_keyword :: "str \<Rightarrow> str \<Rightarrow> message_flags \<times> str list \<Rightarrow> message_flags \<times> str list" where
  "note_keyword folded name st =
     (case st of (flags, tags) \<Rightarrow>
        if folded = SEEN then (flags\<lparr>mf_seen := True\<rparr>, tags)
        else if folded = ANSWERED then (flags\<lparr>mf_answered := True\<rparr>, tags)
        else if folded = FLAGGED then (flags\<lparr>mf_flagged := True\<rparr>, tags)
        else if folded = DRAFT then (flags\<lparr>mf_draft := True\<rparr>, tags)
        else if folded = FORWARDED then (flags\<lparr>mf_forwarded := True\<rparr>, tags)
        else if folded = JUNK then (flags\<lparr>mf_junk := True\<rparr>, tags)
        else if folded = NOT_JUNK then (flags\<lparr>mf_not_junk := True\<rparr>, tags)
        else (flags, tags @ [name]))"

definition keywords_split :: "keyword_set \<Rightarrow> message_flags \<times> str list" where
  "keywords_split kw = fold (\<lambda>(folded, name). note_keyword folded name) kw (no_flags, [])"

record keyword_change =
  kc_set :: "str list"
  kc_cleared :: "str list"

definition drop_partner :: "str \<Rightarrow> keyword_set \<Rightarrow> keyword_set" where
  "drop_partner folded kw =
     fold (\<lambda>(a, b) kw. if folded = a then bt_remove b kw else if folded = b then bt_remove a kw else kw)
       EXCLUSIVE_PAIRS kw"

definition keywords_patched :: "(str \<Rightarrow> str) \<Rightarrow> keyword_set \<Rightarrow> keyword_change \<Rightarrow> keyword_set" where
  "keywords_patched uni kw change =
     fold (\<lambda>name kw. drop_partner (to_lowercase uni name) (keywords_insert uni name kw)) (kc_set change)
       (fold (\<lambda>name kw. bt_remove (to_lowercase uni name) kw) (kc_cleared change) kw)"

definition keywords_iter :: "keyword_set \<Rightarrow> str list" where
  "keywords_iter kw = map snd kw"

definition keywords_from_iter :: "(str \<Rightarrow> str) \<Rightarrow> str list \<Rightarrow> keyword_set" where
  "keywords_from_iter uni names = fold (keywords_insert uni) names []"

definition between :: "keyword_set \<Rightarrow> keyword_set \<Rightarrow> keyword_change" where
  "between before after =
     \<lparr>kc_set = map snd (filter (\<lambda>(folded, _). \<not> bt_contains before folded) after),
      kc_cleared = map snd (filter (\<lambda>(folded, _). \<not> bt_contains after folded) before)\<rparr>"

definition keyword_change_is_empty :: "keyword_change \<Rightarrow> bool" where
  "keyword_change_is_empty change \<longleftrightarrow> kc_set change = [] \<and> kc_cleared change = []"

definition KEYWORDS :: str where "KEYWORDS = ''keywords''"

definition keyword_patch :: "keyword_change \<Rightarrow> 'n json" where
  "keyword_patch change =
     Object (fold (\<lambda>name. bt_insert (pointer_member KEYWORDS name) Null) (kc_cleared change)
       (fold (\<lambda>name. bt_insert (pointer_member KEYWORDS name) (Bool True)) (kc_set change) []))"

subsection \<open>Filings\<close>

definition MAILBOX_IDS :: str where "MAILBOX_IDS = ''mailboxIds''"

definition out_of :: "jid \<Rightarrow> 'n json" where
  "out_of mailbox = Object (bt_insert (pointer_member MAILBOX_IDS mailbox) Null [])"

record filing =
  fi_into :: jid
  fi_out_of :: "jid option"

definition copied_into :: "jid \<Rightarrow> filing" where
  "copied_into into = \<lparr>fi_into = into, fi_out_of = None\<rparr>"

definition moved :: "jid \<Rightarrow> jid \<Rightarrow> filing" where
  "moved out_of_id into = \<lparr>fi_into = into, fi_out_of = Some out_of_id\<rparr>"

definition filing_is_empty :: "filing \<Rightarrow> bool" where
  "filing_is_empty f \<longleftrightarrow> fi_out_of f = Some (fi_into f)"

definition filing_patch :: "filing \<Rightarrow> 'n json" where
  "filing_patch f =
     (if filing_is_empty f then Object []
      else let patch = bt_insert (pointer_member MAILBOX_IDS (fi_into f)) (Bool True) [] in
           Object (case fi_out_of f of
                     None \<Rightarrow> patch
                   | Some m \<Rightarrow> bt_insert (pointer_member MAILBOX_IDS m) Null patch))"

subsection \<open>Listings\<close>

definition MAX_BLOB_BYTES :: nat where
  "MAX_BLOB_BYTES = 256 * 1024 * 1024"

text \<open>The ceiling on a download; additions saturate at the largest \<^verbatim>\<open>u64\<close>.\<close>

definition saturating_add_u64 :: "nat \<Rightarrow> nat \<Rightarrow> nat" where
  "saturating_add_u64 a b = min (a + b) U64_MAX"

definition download_ceiling :: "nat option \<Rightarrow> nat" where
  "download_ceiling advertised =
     (case advertised of
        Some advertised_size \<Rightarrow>
          saturating_add_u64 (saturating_add_u64 advertised_size (advertised_size div 8)) (64 * 1024)
      | None \<Rightarrow> MAX_BLOB_BYTES)"


text \<open>The properties of an \<^verbatim>\<open>Email\<close> that \<^verbatim>\<open>SUMMARY_PROPERTIES\<close> asks for; \<open>'a\<close> are the addresses.\<close>

record 'a email =
  em_id :: "jid option"
  em_blob_id :: "jid option"
  em_thread_id :: "jid option"
  em_keywords :: "(str \<times> bool) list option"
  em_size :: "nat option"
  em_received_at :: "str option"
  em_sent_at :: "str option"
  em_message_id :: "str list option"
  em_in_reply_to :: "str list option"
  em_references :: "str list option"
  em_from :: "'a list option"
  em_to :: "'a list option"
  em_cc :: "'a list option"
  em_subject :: "str option"
  em_has_attachment :: "bool option"
  em_preview :: "str option"

definition read_keywords :: "'a email \<Rightarrow> message_flags \<times> str list" where
  "read_keywords email =
     (let flags = no_flags\<lparr>mf_attachments := (em_has_attachment email = Some True)\<rparr> in
      case em_keywords email of
        None \<Rightarrow> (flags, [])
      | Some kws \<Rightarrow>
          fold (\<lambda>(name, is_set) st. if is_set then note_keyword (to_ascii_lowercase name) name st else st) kws (flags, []))"

definition email_references :: "'a email \<Rightarrow> str list" where
  "email_references email =
     (let references = (case em_references email of None \<Rightarrow> [] | Some r \<Rightarrow> r) in
      case em_in_reply_to email of
        Some (parent # _) \<Rightarrow> if parent \<in> set references then references else references @ [parent]
      | _ \<Rightarrow> references)"

section \<open>Keyword sets are maps\<close>

text \<open>The invariant: the keys are ordered, and each is the folded spelling that it holds.\<close>

definition keywords_wf :: "(str \<Rightarrow> str) \<Rightarrow> keyword_set \<Rightarrow> bool" where
  "keywords_wf uni kw \<longleftrightarrow> bt_wf kw \<and> (\<forall>(folded, name) \<in> set kw. to_lowercase uni name = folded)"

lemma keywords_wf_map_of:
  "keywords_wf uni kw \<longleftrightarrow> bt_wf kw \<and> (\<forall>k v. map_of kw k = Some v \<longrightarrow> to_lowercase uni v = k)"
proof -
  have "map_of kw k = Some v \<longleftrightarrow> (k, v) \<in> set kw" if "bt_wf kw" for k v
    using that bt_wf_distinct [OF that] by (simp add: bt_keys_def)
  then show ?thesis by (auto simp: keywords_wf_def)
qed

lemma bt_contains_remove [simp]: "bt_contains (bt_remove k m) k' \<longleftrightarrow> k' \<noteq> k \<and> bt_contains m k'"
  by (auto simp: bt_contains_map_of)

lemma bt_contains_or_insert [simp]: "bt_contains (bt_or_insert k v m) k' \<longleftrightarrow> k' = k \<or> bt_contains m k'"
  by (auto simp: bt_or_insert_def)

lemma keywords_wf_Nil [simp]: "keywords_wf uni []"
  by (simp add: keywords_wf_def)

lemma keywords_wf_insert [simp]: "keywords_wf uni kw \<Longrightarrow> keywords_wf uni (keywords_insert uni name kw)"
  by (auto simp: keywords_wf_map_of keywords_insert_def bt_or_insert_def map_of_bt_insert)

lemma keywords_wf_remove [simp]: "keywords_wf uni kw \<Longrightarrow> keywords_wf uni (bt_remove k kw)"
  by (auto simp: keywords_wf_map_of)

text \<open>The keyword that an added keyword excludes.\<close>

definition partner :: "str \<Rightarrow> str option" where
  "partner folded = (if folded = JUNK then Some NOT_JUNK else if folded = NOT_JUNK then Some JUNK else None)"

lemma JUNK_NOT_JUNK [simp]: "JUNK \<noteq> NOT_JUNK"
  by (simp add: keyword_defs)

lemma drop_partner_eq: "drop_partner k kw = (case partner k of None \<Rightarrow> kw | Some p \<Rightarrow> bt_remove p kw)"
  by (simp add: drop_partner_def EXCLUSIVE_PAIRS_def partner_def)

definition add_exclusive :: "(str \<Rightarrow> str) \<Rightarrow> str \<Rightarrow> keyword_set \<Rightarrow> keyword_set" where
  "add_exclusive uni name kw = drop_partner (to_lowercase uni name) (keywords_insert uni name kw)"

lemma add_exclusive_contains:
  "bt_contains (add_exclusive uni name kw) k \<longleftrightarrow>
     (k = to_lowercase uni name \<or> bt_contains kw k) \<and> partner (to_lowercase uni name) \<noteq> Some k"
  by (auto simp: add_exclusive_def drop_partner_eq keywords_insert_def split: option.splits)

lemma keywords_wf_add [simp]: "keywords_wf uni kw \<Longrightarrow> keywords_wf uni (add_exclusive uni name kw)"
  by (auto simp: add_exclusive_def drop_partner_eq split: option.splits)

lemma keywords_wf_adds: "keywords_wf uni kw \<Longrightarrow> keywords_wf uni (fold (add_exclusive uni) names kw)"
  by (induction names arbitrary: kw) simp_all

text \<open>A keyword that nothing added excludes.\<close>

lemma adds_contains:
  "\<forall>name \<in> set names. partner (to_lowercase uni name) \<noteq> Some k \<Longrightarrow>
     bt_contains (fold (add_exclusive uni) names kw) k
     \<longleftrightarrow> k \<in> to_lowercase uni ` set names \<or> bt_contains kw k"
  by (induction names arbitrary: kw) (auto simp: add_exclusive_contains)

text \<open>A keyword that something added excludes and that is not added itself.\<close>

lemma adds_excluded:
  "\<exists>name \<in> set names. partner (to_lowercase uni name) = Some k \<Longrightarrow> k \<notin> to_lowercase uni ` set names \<Longrightarrow>
     \<not> bt_contains (fold (add_exclusive uni) names kw) k"
proof (induction names arbitrary: kw)
  case (Cons name names)
  show ?case
  proof (cases "\<exists>n \<in> set names. partner (to_lowercase uni n) = Some k")
    case True
    then show ?thesis using Cons by auto
  next
    case False
    then show ?thesis using Cons(2,3) by (auto simp: adds_contains add_exclusive_contains)
  qed
qed simp

definition exclusive :: "keyword_set \<Rightarrow> bool" where
  "exclusive kw \<longleftrightarrow> \<not> (bt_contains kw JUNK \<and> bt_contains kw NOT_JUNK)"

lemma adds_exclusive: "exclusive kw \<Longrightarrow> exclusive (fold (add_exclusive uni) names kw)"
proof (induction names arbitrary: kw)
  case (Cons name names)
  have "exclusive (add_exclusive uni name kw)"
    using Cons(2) by (auto simp: exclusive_def add_exclusive_contains partner_def split: if_splits)
  then show ?case using Cons(1) by simp
qed simp

lemma removes_contains:
  "bt_contains (fold (\<lambda>name kw. bt_remove (to_lowercase uni name) kw) names kw) k
     \<longleftrightarrow> bt_contains kw k \<and> k \<notin> to_lowercase uni ` set names"
  by (induction names arbitrary: kw) auto

lemma removes_wf:
  "keywords_wf uni kw \<Longrightarrow> keywords_wf uni (fold (\<lambda>name kw. bt_remove (to_lowercase uni name) kw) names kw)"
  by (induction names arbitrary: kw) simp_all

lemma folded_difference:
  "keywords_wf uni a \<Longrightarrow>
     to_lowercase uni ` set (map snd (filter (\<lambda>(folded, _). \<not> bt_contains b folded) a)) = set (bt_keys a) - set (bt_keys b)"
  by (force simp: keywords_wf_def bt_contains_def bt_keys_def image_iff)


lemma patched_between:
  assumes "keywords_wf uni before" "keywords_wf uni after"
  defines "added \<equiv> set (bt_keys after) - set (bt_keys before)"
    and "gone \<equiv> set (bt_keys before) - set (bt_keys after)"
  shows "keywords_wf uni self \<Longrightarrow> keywords_wf uni (keywords_patched uni self (between before after))"
    and "exclusive self \<Longrightarrow> exclusive (keywords_patched uni self (between before after))"
    and "\<forall>x \<in> added. partner x \<noteq> Some k \<Longrightarrow>
      bt_contains (keywords_patched uni self (between before after)) k \<longleftrightarrow> k \<in> added \<or> bt_contains self k \<and> k \<notin> gone"
    and "\<exists>x \<in> added. partner x = Some k \<Longrightarrow> k \<notin> added \<Longrightarrow>
      \<not> bt_contains (keywords_patched uni self (between before after)) k"
proof -
  define names where "names = map snd (filter (\<lambda>(folded, _). \<not> bt_contains before folded) after)"
  define old where "old = map snd (filter (\<lambda>(folded, _). \<not> bt_contains after folded) before)"
  define kept where "kept = fold (\<lambda>name kw. bt_remove (to_lowercase uni name) kw) old self"
  have patched: "keywords_patched uni self (between before after) = fold (add_exclusive uni) names kept"
    by (simp add: keywords_patched_def between_def names_def old_def kept_def add_exclusive_def [abs_def])
  have a: "to_lowercase uni ` set names = added" and g: "to_lowercase uni ` set old = gone"
    using folded_difference [OF assms(2)] folded_difference [OF assms(1)]
    by (simp_all only: names_def old_def added_def gone_def)
  have k: "bt_contains kept k \<longleftrightarrow> bt_contains self k \<and> k \<notin> gone" for k
    by (simp add: kept_def removes_contains g)
  show "keywords_wf uni (keywords_patched uni self (between before after))" if "keywords_wf uni self"
    using that by (simp add: patched kept_def keywords_wf_adds removes_wf)
  show "exclusive (keywords_patched uni self (between before after))" if "exclusive self"
    using that k unfolding patched by (intro adds_exclusive) (auto simp: exclusive_def)
  show "bt_contains (keywords_patched uni self (between before after)) k \<longleftrightarrow> k \<in> added \<or> bt_contains self k \<and> k \<notin> gone"
    if "\<forall>x \<in> added. partner x \<noteq> Some k"
    using that a k by (auto simp: patched adds_contains)
  show "\<not> bt_contains (keywords_patched uni self (between before after)) k"
    if "\<exists>x \<in> added. partner x = Some k" "k \<notin> added"
    using that a unfolding patched by (intro adds_excluded) auto
qed

lemma partner_sym: "partner k = Some p \<longleftrightarrow> partner p = Some k"
  by (auto simp: partner_def split: if_splits)

lemma exclusive_partner: "exclusive kw \<Longrightarrow> partner k = Some p \<Longrightarrow> bt_contains kw k \<Longrightarrow> \<not> bt_contains kw p"
  by (auto simp: exclusive_def partner_def split: if_splits)




section \<open>Patches\<close>

lemma pointer_member_inj [simp]: "pointer_member p a = pointer_member p b \<longleftrightarrow> a = b"
  using pointer.enc_inj [of a b] by (simp add: pointer_member_def)

text \<open>What a patch says of one member: \<^verbatim>\<open>true\<close> adds it, \<^verbatim>\<open>null\<close> removes it.\<close>

lemma map_of_fold_members:
  "bt_wf m \<Longrightarrow> map_of (fold (\<lambda>name. bt_insert (pointer_member p name) v) names m) (pointer_member p name)
     = (if name \<in> set names then Some v else map_of m (pointer_member p name))"
proof (induction names arbitrary: m)
  case (Cons n names)
  then show ?case by (auto simp: map_of_bt_insert)
qed simp

lemma bt_wf_fold_members: "bt_wf m \<Longrightarrow> bt_wf (fold (\<lambda>name. bt_insert (pointer_member p name) v) names m)"
  by (induction names arbitrary: m) simp_all

lemma keyword_patch_members:
  "json_get (pointer_member KEYWORDS name) (keyword_patch change) =
     (if name \<in> set (kc_cleared change) then Some Null
      else if name \<in> set (kc_set change) then Some (Bool True) else None)"
  by (simp add: keyword_patch_def map_of_fold_members bt_wf_fold_members)

lemma filing_patch_members:
  "json_get (pointer_member MAILBOX_IDS mailbox) (filing_patch f) =
     (if filing_is_empty f then None
      else if mailbox = fi_into f then Some (Bool True)
      else if fi_out_of f = Some mailbox then Some Null else None)"
  by (auto simp: filing_patch_def filing_is_empty_def map_of_bt_insert Let_def split: option.splits)

text \<open>Two spellings of one keyword are one; the first stays.\<close>

lemma keywords_from_iter_contains:
  "bt_contains (keywords_from_iter uni names) k \<longleftrightarrow> k \<in> to_lowercase uni ` set names"
proof -
  have "bt_contains (fold (keywords_insert uni) names kw) k
      \<longleftrightarrow> k \<in> to_lowercase uni ` set names \<or> bt_contains kw k" for kw
    by (induction names arbitrary: kw) (auto simp: keywords_insert_def)
  then show ?thesis by (simp add: keywords_from_iter_def)
qed

lemma download_ceiling_covers: "n \<le> U64_MAX \<Longrightarrow> n \<le> download_ceiling (Some n) \<and> download_ceiling (Some n) \<le> U64_MAX"
  by (simp add: download_ceiling_def saturating_add_u64_def)


section \<open>The columns of a summary row\<close>

definition flag_names :: "message_flags \<Rightarrow> str set" where
  "flag_names flags =
     {k. k = SEEN \<and> mf_seen flags \<or> k = ANSWERED \<and> mf_answered flags \<or> k = FLAGGED \<and> mf_flagged flags
       \<or> k = DRAFT \<and> mf_draft flags \<or> k = FORWARDED \<and> mf_forwarded flags \<or> k = JUNK \<and> mf_junk flags
       \<or> k = NOT_JUNK \<and> mf_not_junk flags}"

definition flag_keyword :: "str \<Rightarrow> bool" where
  "flag_keyword k \<longleftrightarrow> k \<in> {SEEN, ANSWERED, FLAGGED, DRAFT, FORWARDED, JUNK, NOT_JUNK}"

lemma flag_keywords_distinct: "distinct [SEEN, ANSWERED, FLAGGED, DRAFT, FORWARDED, JUNK, NOT_JUNK]"
  by (simp add: keyword_defs)

lemma note_keyword_flag:
  "flag_keyword k \<Longrightarrow> flag_names (fst (note_keyword k name st)) = insert k (flag_names (fst st)) \<and> snd (note_keyword k name st) = snd st"
  using flag_keywords_distinct
  by (cases st) (auto simp: flag_keyword_def note_keyword_def flag_names_def)

lemma note_keyword_tag:
  "\<not> flag_keyword k \<Longrightarrow> note_keyword k name st = (fst st, snd st @ [name])"
  by (cases st) (auto simp: flag_keyword_def note_keyword_def)

lemma note_keywords:
  "flag_names (fst (fold (\<lambda>(folded, name). note_keyword folded name) kw st))
      = flag_names (fst st) \<union> {k \<in> fst ` set kw. flag_keyword k}
   \<and> snd (fold (\<lambda>(folded, name). note_keyword folded name) kw st)
      = snd st @ map snd (filter (\<lambda>(folded, _). \<not> flag_keyword folded) kw)"
proof (induction kw arbitrary: st)
  case (Cons e kw)
  then show ?case
    by (cases e; cases "flag_keyword (fst e)") (auto simp: note_keyword_flag note_keyword_tag)
qed simp

lemma keywords_new_contains:
  "bt_contains (keywords_new uni flags tags) k \<longleftrightarrow> k \<in> flag_names flags \<or> k \<in> to_lowercase uni ` set tags"
proof -
  have tags: "bt_contains (fold (keywords_insert uni) tags kw) k
      \<longleftrightarrow> k \<in> to_lowercase uni ` set tags \<or> bt_contains kw k" for kw
    by (induction tags arbitrary: kw) (auto simp: keywords_insert_def)
  have "to_lowercase uni n = n" if "flag_keyword n" for n
    using that unfolding flag_keyword_def to_lowercase_def
    by (elim insertE emptyE; hypsubst; code_simp)
  then have "to_lowercase uni SEEN = SEEN" "to_lowercase uni ANSWERED = ANSWERED" "to_lowercase uni FLAGGED = FLAGGED"
    "to_lowercase uni DRAFT = DRAFT" "to_lowercase uni FORWARDED = FORWARDED" "to_lowercase uni JUNK = JUNK"
    "to_lowercase uni NOT_JUNK = NOT_JUNK"
    by (simp_all add: flag_keyword_def)
  then show ?thesis
    by (auto simp: keywords_new_def tags flag_names_def keywords_insert_def)
qed

text \<open>A set that is written to the two columns of a row and read back is the same set.\<close>

lemma keywords_new_split:
  assumes "keywords_wf uni kw"
  shows "bt_contains (keywords_new uni (fst (keywords_split kw)) (snd (keywords_split kw))) k \<longleftrightarrow> bt_contains kw k"
proof -
  have "flag_names no_flags = {}" by (auto simp: flag_names_def no_flags_def)
  then have "flag_names (fst (keywords_split kw)) = {k \<in> fst ` set kw. flag_keyword k}"
    "snd (keywords_split kw) = map snd (filter (\<lambda>(folded, _). \<not> flag_keyword folded) kw)"
    using note_keywords [of kw "(no_flags, [])"] by (simp_all add: keywords_split_def)
  moreover have "to_lowercase uni ` set (map snd (filter (\<lambda>(folded, _). \<not> flag_keyword folded) kw))
      = {k \<in> fst ` set kw. \<not> flag_keyword k}"
    using assms by (force simp: keywords_wf_def image_iff)
  moreover have "bt_contains kw k \<longleftrightarrow> k \<in> fst ` set kw"
    by (simp add: bt_contains_def bt_keys_def)
  ultimately show ?thesis
    by (simp only: keywords_new_contains) blast
qed

end
