(* ===== verification/Mail_Path.thy ===== *)
theory Mail_Path
  imports Jmap_Prelude
begin

text \<open>
  Mailbox names as Camel folder paths (\<^verbatim>\<open>jmap-mail-sync/src/path.rs\<close>, with \<^verbatim>\<open>within\<close> of \<^verbatim>\<open>folder.rs\<close>): a name
  becomes one component that is a safe file name, and a path is split at its last separator.
\<close>

section \<open>Operations\<close>

abbreviation SEPARATOR :: char where "SEPARATOR \<equiv> CHR ''/''"
abbreviation PERCENT :: char where "PERCENT \<equiv> CHR 0x25"

definition encode_char :: "char \<Rightarrow> str" where
  "encode_char c =
     (if c = PERCENT then [PERCENT, CHR ''2'', CHR ''5'']
      else if c = SEPARATOR then [PERCENT, CHR ''2'', CHR ''F'']
      else if c = NUL then [PERCENT, CHR ''0'', CHR ''0'']
      else [c])"

definition encode_component :: "str \<Rightarrow> str" where
  "encode_component name =
     (if name = ''.'' then [PERCENT, CHR ''2'', CHR ''E'']
      else if name = ''..'' then [PERCENT, CHR ''2'', CHR ''E'', PERCENT, CHR ''2'', CHR ''E'']
      else concat (map encode_char name))"

definition path_split :: "str \<Rightarrow> str option \<times> str" where
  "path_split path =
     (case rsplit_once SEPARATOR path of
        Some (parent, component) \<Rightarrow> (Some parent, component)
      | None \<Rightarrow> (None, path))"

definition path_join :: "str option \<Rightarrow> str \<Rightarrow> str" where
  "path_join parent component =
     (case parent of Some p \<Rightarrow> p @ SEPARATOR # component | None \<Rightarrow> component)"

definition within :: "str \<Rightarrow> str \<Rightarrow> bool" where
  "within path ancestor \<longleftrightarrow>
     path = ancestor
     \<or> (case strip_prefix ancestor path of None \<Rightarrow> False | Some below \<Rightarrow> below \<noteq> [] \<and> hd below = SEPARATOR)"

section \<open>Properties\<close>

text \<open>The reader of an encoded component.\<close>

fun decode_component :: "str \<Rightarrow> str" where
  "decode_component (a # b # c # s) =
     (if a \<noteq> PERCENT then a # decode_component (b # c # s)
      else if b = CHR ''2'' \<and> c = CHR ''5'' then PERCENT # decode_component s
      else if b = CHR ''2'' \<and> c = CHR ''F'' then SEPARATOR # decode_component s
      else if b = CHR ''2'' \<and> c = CHR ''E'' then CHR ''.'' # decode_component s
      else NUL # decode_component s)"
| "decode_component s = s"

lemma decode_component_Cons: "c \<noteq> PERCENT \<Longrightarrow> decode_component (c # s) = c # decode_component s"
  by (cases s; cases "tl s") auto

lemma decode_encode_chars: "decode_component (concat (map encode_char name)) = name"
  by (induction name) (auto simp: encode_char_def decode_component_Cons)

interpretation component: codec encode_component "\<lambda>s. Some (decode_component s)" "\<lambda>_. True"
  by unfold_locales (simp add: encode_component_def decode_encode_chars)

lemma encode_chars_safe: "c \<in> set (concat (map encode_char name)) \<Longrightarrow> c \<noteq> SEPARATOR \<and> c \<noteq> NUL"
  by (induction name) (auto simp: encode_char_def split: if_splits)

lemma encode_component_chars: "SEPARATOR \<notin> set (encode_component name)" "NUL \<notin> set (encode_component name)"
  using encode_chars_safe [of _ name] by (auto simp: encode_component_def)

lemma encode_chars_plain:
  "PERCENT \<notin> set s \<Longrightarrow> concat (map encode_char name) = s \<Longrightarrow> name = s"
  using decode_encode_chars [of name]
proof -
  assume s: "PERCENT \<notin> set s" "concat (map encode_char name) = s"
  have "decode_component s = s" if "PERCENT \<notin> set s" for s
    using that by (induction s) (auto simp: decode_component_Cons)
  then show ?thesis using s decode_encode_chars [of name] by simp
qed

lemma encode_component_dots: "encode_component name \<noteq> ''.''" "encode_component name \<noteq> ''..''"
  using encode_chars_plain [of "''.''" name] encode_chars_plain [of "''..''" name]
  by (auto simp: encode_component_def)

lemma encode_component_Nil_iff: "encode_component name = [] \<longleftrightarrow> name = []"
proof
  assume "encode_component name = []"
  then show "name = []" using component.rd_enc [of name] by simp
qed (simp add: encode_component_def)

lemma path_split_join: "SEPARATOR \<notin> set component \<Longrightarrow> path_split (path_join parent component) = (parent, component)"
  by (auto simp: path_split_def path_join_def split: option.splits)

lemma path_join_split: "path_join (fst (path_split path)) (snd (path_split path)) = path"
  by (auto simp: path_split_def path_join_def rsplit_once_Some_iff split: option.splits)

lemma path_join_inj:
  assumes "SEPARATOR \<notin> set c" "SEPARATOR \<notin> set d"
  shows "path_join p c = path_join q d \<longleftrightarrow> p = q \<and> c = d"
proof
  assume "path_join p c = path_join q d"
  then have "path_split (path_join p c) = path_split (path_join q d)" by simp
  then show "p = q \<and> c = d" by (simp add: path_split_join assms)
qed simp

lemma within_iff: "within path ancestor \<longleftrightarrow> (\<exists>below. path = ancestor @ below \<and> (below = [] \<or> hd below = SEPARATOR))"
  by (auto simp: within_def strip_prefix_Some_iff split: option.splits)

text \<open>
  In an encoded name every percent sign begins one of four escapes; \<^verbatim>\<open>%23\<close> is none of them. So a component
  that the tree makes unique with \<^verbatim>\<open>%23\<close> and an id is never the encoding of a name.
\<close>

fun escapes_only :: "str \<Rightarrow> bool" where
  "escapes_only [] \<longleftrightarrow> True"
| "escapes_only (a # s) \<longleftrightarrow> (a = PERCENT \<longrightarrow> \<not> prefix ''23'' s) \<and> escapes_only s"

lemma escapes_only_encode: "escapes_only (encode_component name)"
proof -
  have "escapes_only (concat (map encode_char name))"
    by (induction name) (auto simp: encode_char_def)
  then show ?thesis by (simp add: encode_component_def)
qed

lemma mark_prefix: "CHR ''2'' # CHR ''3'' # x = l @ PERCENT # r \<Longrightarrow> prefix ''23'' l"
  by (cases l; cases "tl l") auto

lemma escapes_only_split:
  assumes "escapes_only a" "escapes_only b" "a @ PERCENT # ''23'' @ x = b @ PERCENT # ''23'' @ y"
  shows "a = b \<and> x = y"
  using assms
proof (induction a arbitrary: b)
  case Nil
  then show ?case by (cases b) (auto dest: mark_prefix)
next
  case (Cons c a)
  then show ?case by (cases b) (auto dest: mark_prefix [OF sym])
qed

lemma escapes_only_marked: "\<not> escapes_only (a @ PERCENT # ''23'' @ x)"
  by (induction a) simp_all

end
