(* ===== verification/Mail_Folders.thy ===== *)
theory Mail_Folders
  imports Client_Error Mail_Path "HOL-Library.Product_Lexorder" "HOL-Library.Multiset"
begin

text \<open>
  The folder tree of an account, \<^verbatim>\<open>jmap-mail-sync/src/folder.rs\<close>: how a \<^verbatim>\<open>Mailbox/get\<close> list becomes a forest of
  folders, whatever parents the server names.

  A folder is its data with its children. The vectors that the code indexes are lists, and an index out
  of range is None, as in the code it is a panic; it is shown that this does not happen. The stack of the
  walk is a list with its top in front.
\<close>

section \<open>Mailboxes and folders\<close>

record 'n mailbox_rights =
  mr_may_read_items :: "bool option"
  mr_may_add_items :: "bool option"
  mr_may_remove_items :: "bool option"
  mr_may_set_seen :: "bool option"
  mr_may_set_keywords :: "bool option"
  mr_may_create_child :: "bool option"
  mr_may_rename :: "bool option"
  mr_may_delete :: "bool option"
  mr_may_submit :: "bool option"
  mr_may_share :: "bool option"
  mr_extra :: "(str \<times> 'n json) list"

record 'n mailbox =
  mb_id :: "jid option"
  mb_name :: str
  mb_parent_id :: "jid option"
  mb_role :: "str option"
  mb_sort_order :: "nat option"
  mb_total_emails :: "nat option"
  mb_unread_emails :: "nat option"
  mb_total_threads :: "nat option"
  mb_unread_threads :: "nat option"
  mb_is_subscribed :: "bool option"
  mb_share_with :: "(jid \<times> 'n mailbox_rights) list option"
  mb_my_rights :: "'n mailbox_rights option"
  mb_extra :: "(str \<times> 'n json) list"

datatype folder_role = Inbox | Drafts | Sent | Trash | Junk | Archive

definition from_jmap :: "str \<Rightarrow> folder_role option" where
  "from_jmap role =
     (let folded = to_ascii_lowercase role in
      if folded = ''inbox'' then Some Inbox
      else if folded = ''drafts'' then Some Drafts
      else if folded = ''sent'' then Some Sent
      else if folded = ''trash'' then Some Trash
      else if folded = ''junk'' then Some Junk
      else if folded = ''archive'' then Some Archive
      else None)"

fun as_jmap :: "folder_role \<Rightarrow> str" where
  "as_jmap Inbox = ''inbox''"
| "as_jmap Drafts = ''drafts''"
| "as_jmap Sent = ''sent''"
| "as_jmap Trash = ''trash''"
| "as_jmap Junk = ''junk''"
| "as_jmap Archive = ''archive''"

record folder_data =
  fo_id :: jid
  fo_path :: str
  fo_display_name :: str
  fo_role :: "folder_role option"
  fo_total :: nat
  fo_unread :: nat
  fo_subscribed :: bool
  fo_may_add_items :: "bool option"
  fo_account_id :: "jid option"

datatype folder_info = Folder (fo_data: folder_data) (fo_children: "folder_info list")

datatype 'n sync_error =
    Client "'n error"
  | NoSuchMessage jid
  | NoSuchFolder jid
  | NoIdentity str
  | NoOutgoingFolder

definition protocol :: "str \<Rightarrow> 'n sync_error" where
  "protocol message = Client (Protocol message)"

definition MAX_DEPTH :: nat where "MAX_DEPTH = 64"

section \<open>Nodes\<close>

record 'n node =
  nd_mailbox :: "'n mailbox"
  nd_id :: jid

definition sort_order :: "'n node \<Rightarrow> nat" where
  "sort_order node = (case mb_sort_order (nd_mailbox node) of None \<Rightarrow> 0 | Some n \<Rightarrow> n)"

text \<open>The validation of one mailbox.\<close>

definition check_mailbox :: "'n mailbox \<Rightarrow> 'n sync_error + 'n node" where
  "check_mailbox mailbox =
     res_bind (ok_or (mb_id mailbox) (protocol ''Mailbox/get returned a mailbox without an id'')) (\<lambda>i.
       if mb_name mailbox = []
       then Err (protocol (''Mailbox/get returned mailbox '' @ i @ '' without a name''))
       else Ok \<lparr>nd_mailbox = mailbox, nd_id = i\<rparr>)"

definition sort_nodes :: "'n node list \<Rightarrow> 'n node list" where
  "sort_nodes nodes = sort_key (\<lambda>n. (sort_order n, mb_name (nd_mailbox n), nd_id n)) nodes"

text \<open>The index of each id; a second mailbox with an id is an error.\<close>

fun index_nodes :: "nat \<Rightarrow> 'n node list \<Rightarrow> (jid \<times> nat) list \<Rightarrow> 'n sync_error + (jid \<times> nat) list" where
  "index_nodes index [] index_of = Ok index_of"
| "index_nodes index (node # nodes) index_of =
     (if bt_contains index_of (nd_id node)
      then Err (protocol (''Mailbox/get returned mailbox '' @ nd_id node @ '' twice''))
      else index_nodes (Suc index) nodes (bt_insert (nd_id node) index index_of))"

definition parents_of :: "(jid \<times> nat) list \<Rightarrow> 'n node list \<Rightarrow> nat option list" where
  "parents_of index_of nodes =
     map (\<lambda>node. Option.bind (mb_parent_id (nd_mailbox node)) (map_of index_of)) nodes"

text \<open>Each role goes to the first mailbox that claims it.\<close>

fun claim_roles :: "folder_role list \<Rightarrow> 'n node list \<Rightarrow> folder_role option list" where
  "claim_roles claimed [] = []"
| "claim_roles claimed (node # nodes) =
     (case Option.bind (mb_role (nd_mailbox node)) from_jmap of
        None \<Rightarrow> None # claim_roles claimed nodes
      | Some role \<Rightarrow>
          if role \<in> set claimed then None # claim_roles claimed nodes
          else Some role # claim_roles (role # claimed) nodes)"

text \<open>The children of each node and the roots, in index order.\<close>

definition add_child :: "nat option list \<Rightarrow> nat \<Rightarrow> nat list list \<times> nat list \<Rightarrow> nat list list \<times> nat list" where
  "add_child parent index st =
     (case st of (children, roots) \<Rightarrow>
        (case parent ! index of
           Some p \<Rightarrow> (children[p := children ! p @ [index]], roots)
         | None \<Rightarrow> (children, roots @ [index])))"

definition children_of :: "nat option list \<Rightarrow> nat list list \<times> nat list" where
  "children_of parent =
     fold (add_child parent) [0..<length parent] (replicate (length parent) [], [])"

section \<open>The walk\<close>

record walk_state =
  wk_parent :: "nat option list"
  wk_children :: "nat list list"
  wk_visited :: "bool list"
  wk_order :: "nat list"

text \<open>\<^verbatim>\<open>if let Some(p) = parent[index].take()\<close>: the node leaves its parent.\<close>

definition cut_parent :: "nat \<Rightarrow> walk_state \<Rightarrow> walk_state option" where
  "cut_parent index st =
     (if index < length (wk_parent st)
      then (case wk_parent st ! index of
              None \<Rightarrow> Some st
            | Some p \<Rightarrow>
                if p < length (wk_children st)
                then Some (st\<lparr>wk_parent := (wk_parent st)[index := None],
                              wk_children := (wk_children st)[p := filter (\<lambda>c. c \<noteq> index) (wk_children st ! p)]\<rparr>)
                else None)
      else None)"

text \<open>The depth of a visited node; a node that is too deep becomes a root.\<close>

definition place :: "nat \<Rightarrow> nat \<Rightarrow> walk_state \<Rightarrow> (walk_state \<times> nat) option" where
  "place index depth st =
     (if depth > MAX_DEPTH then map_option (\<lambda>st. (st, 1)) (cut_parent index st) else Some (st, depth))"

definition visit :: "nat \<Rightarrow> walk_state \<Rightarrow> walk_state" where
  "visit index st = st\<lparr>wk_visited := (wk_visited st)[index := True], wk_order := wk_order st @ [index]\<rparr>"

lemma cut_parent_visited: "cut_parent i st = Some st' \<Longrightarrow> wk_visited st' = wk_visited st \<and> wk_order st' = wk_order st"
  by (auto simp: cut_parent_def split: if_splits option.splits)

lemma place_visited: "place i d st = Some (st', d') \<Longrightarrow> wk_visited st' = wk_visited st \<and> wk_order st' = wk_order st"
  by (auto simp: place_def cut_parent_visited split: if_splits)

lemma unvisited_decreases:
  "i < length bs \<Longrightarrow> \<not> bs ! i \<Longrightarrow> length (filter Not (bs[i := True])) < length (filter Not bs)"
proof (induction bs arbitrary: i)
  case (Cons b bs)
  then show ?case by (cases i) (auto simp: less_Suc_eq_0_disj)
qed simp

function walk_stack :: "walk_state \<Rightarrow> (nat \<times> nat) list \<Rightarrow> walk_state option" where
  "walk_stack st [] = Some st"
| "walk_stack st ((index, depth) # stack) =
     (if index < length (wk_visited st)
      then if wk_visited st ! index then walk_stack st stack
           else (case place index depth st of
                   None \<Rightarrow> None
                 | Some (st', depth') \<Rightarrow>
                     if index < length (wk_children st')
                     then walk_stack (visit index st')
                            (map (\<lambda>child. (child, depth' + 1)) (wk_children st' ! index) @ stack)
                     else None)
      else None)"
  by pat_completeness auto
termination
proof (relation "measures [\<lambda>(st, stack). length (filter Not (wk_visited st)), \<lambda>(st, stack). length stack]", goal_cases)
  case (3 st index depth stack p st' depth')
  then show ?case
    using place_visited [of index depth st st' depth'] unvisited_decreases [of index "wk_visited st"]
    by (simp add: visit_def)
qed simp_all

lemma walk_stack_visited_length: "walk_stack st stack = Some st' \<Longrightarrow> length (wk_visited st') = length (wk_visited st)"
proof (induction st stack rule: walk_stack.induct)
  case (2 st index depth stack)
  then show ?case
    by (auto simp: visit_def dest: place_visited split: if_splits option.splits)
qed simp

text \<open>The outer loop: the first mailbox that was not reached becomes a root.\<close>

function walk_loop :: "walk_state \<Rightarrow> (nat \<times> nat) list \<Rightarrow> nat \<Rightarrow> walk_state option" where
  "walk_loop st stack cut_at =
     (case walk_stack st stack of
        None \<Rightarrow> None
      | Some st' \<Rightarrow>
          (case find (\<lambda>index. \<not> wk_visited st' ! index) [cut_at..<length (wk_visited st')] of
             None \<Rightarrow> Some st'
           | Some orphan \<Rightarrow>
               (case cut_parent orphan st' of
                  None \<Rightarrow> None
                | Some st'' \<Rightarrow> walk_loop st'' [(orphan, 1)] (orphan + 1))))"
  by pat_completeness auto
termination
proof (relation "measure (\<lambda>(st, _, cut_at). length (wk_visited st) - cut_at)", goal_cases)
  case (2 st stack cut_at st' orphan st'')
  then have "cut_at \<le> orphan" "orphan < length (wk_visited st')"
    by (auto simp: find_Some_iff)
  then show ?case
    using 2 walk_stack_visited_length [of st stack st'] cut_parent_visited [of orphan st' st''] by auto
qed simp

declare walk_loop.simps [simp del]

definition walk :: "nat option list \<Rightarrow> nat list list \<Rightarrow> nat list \<Rightarrow> walk_state option" where
  "walk parent children roots =
     walk_loop \<lparr>wk_parent = parent, wk_children = children, wk_visited = replicate (length parent) False, wk_order = []\<rparr>
       (map (\<lambda>index. (index, 1)) roots) 0"


section \<open>Paths and the forest\<close>

text \<open>The path of one node, after the path of its parent. A path that is in use gets the id of the mailbox.\<close>

definition add_path :: "'n node list \<Rightarrow> nat option list \<Rightarrow> nat \<Rightarrow> str list \<times> str list \<Rightarrow> str list \<times> str list" where
  "add_path nodes parent index st =
     (case st of (paths, used) \<Rightarrow>
        let parent_path = map_option (\<lambda>p. paths ! p) (parent ! index);
            component = encode_component (mb_name (nd_mailbox (nodes ! index)));
            path = path_join parent_path component;
            path = (if path \<in> set used
                    then path_join parent_path
                           (component @ [PERCENT, CHR ''2'', CHR ''3''] @ encode_component (nd_id (nodes ! index)))
                    else path)
        in (paths[index := path], path # used))"

definition folder_paths :: "'n node list \<Rightarrow> nat option list \<Rightarrow> nat list \<Rightarrow> str list" where
  "folder_paths nodes parent order =
     fst (fold (add_path nodes parent) order (replicate (length nodes) [], []))"

definition saturate :: "nat option \<Rightarrow> nat" where
  "saturate n_opt = min (case n_opt of None \<Rightarrow> 0 | Some n \<Rightarrow> n) U32_MAX"

definition folder_of :: "'n node list \<Rightarrow> folder_role option list \<Rightarrow> str list \<Rightarrow> nat \<Rightarrow> folder_data" where
  "folder_of nodes roles paths index =
     (let mailbox = nd_mailbox (nodes ! index) in
      \<lparr>fo_id = nd_id (nodes ! index), fo_path = paths ! index, fo_display_name = mb_name mailbox,
       fo_role = roles ! index, fo_total = saturate (mb_total_emails mailbox),
       fo_unread = saturate (mb_unread_emails mailbox),
       fo_subscribed = (case mb_is_subscribed mailbox of None \<Rightarrow> True | Some b \<Rightarrow> b),
       fo_may_add_items = Option.bind (mb_my_rights mailbox) mr_may_add_items,
       fo_account_id = None\<rparr>)"

definition assemble_step ::
  "(nat \<Rightarrow> folder_data) \<Rightarrow> nat option list \<Rightarrow> nat
   \<Rightarrow> folder_info list list \<times> folder_info list \<Rightarrow> folder_info list list \<times> folder_info list" where
  "assemble_step data parent index st =
     (case st of (built, roots) \<Rightarrow>
        let folder = Folder (data index) (rev (built ! index)); built = built[index := []] in
        (case parent ! index of
           Some p \<Rightarrow> (built[p := built ! p @ [folder]], roots)
         | None \<Rightarrow> (built, roots @ [folder])))"

definition assemble ::
  "'n node list \<Rightarrow> nat option list \<Rightarrow> folder_role option list \<Rightarrow> str list \<Rightarrow> nat list \<Rightarrow> folder_info list" where
  "assemble nodes parent roles paths order =
     rev (snd (fold (assemble_step (folder_of nodes roles paths) parent) (rev order) (replicate (length nodes) [], [])))"

definition from_mailboxes :: "'n mailbox list \<Rightarrow> ('n sync_error + folder_info list) option" where
  "from_mailboxes mailboxes =
     (case collect_results check_mailbox mailboxes of
        Inl e \<Rightarrow> Some (Err e)
      | Inr unsorted \<Rightarrow>
          let nodes = sort_nodes unsorted in
          (case index_nodes 0 nodes [] of
             Inl e \<Rightarrow> Some (Err e)
           | Inr index_of \<Rightarrow>
               let parent = parents_of index_of nodes; roles = claim_roles [] nodes;
                   (children, roots) = children_of parent
               in map_option (\<lambda>st. Ok (assemble nodes (wk_parent st) roles
                      (folder_paths nodes (wk_parent st) (wk_order st)) (wk_order st)))
                    (walk parent children roots)))"

section \<open>The walk reaches every node once\<close>

definition walk_links :: "nat \<Rightarrow> walk_state \<Rightarrow> bool" where
  "walk_links n st \<longleftrightarrow> length (wk_parent st) = n \<and> length (wk_children st) = n \<and> length (wk_visited st) = n
     \<and> (\<forall>p < n. \<forall>c \<in> set (wk_children st ! p). c < n \<and> wk_parent st ! c = Some p)
     \<and> (\<forall>c < n. \<forall>p. wk_parent st ! c = Some p \<longrightarrow> p < n)"

text \<open>Parents come first, one level higher.\<close>

definition parents_first :: "nat option list \<Rightarrow> (nat \<Rightarrow> nat) \<Rightarrow> nat list \<Rightarrow> bool" where
  "parents_first parent dep order \<longleftrightarrow>
     (\<forall>xs i ys p. order = xs @ i # ys \<longrightarrow> parent ! i = Some p \<longrightarrow> p \<in> set xs \<and> dep i = dep p + 1)"

definition walk_inv :: "nat \<Rightarrow> (nat \<Rightarrow> nat) \<Rightarrow> walk_state \<Rightarrow> bool" where
  "walk_inv n dep st \<longleftrightarrow> walk_links n st \<and> distinct (wk_order st)
     \<and> (\<forall>i < n. wk_visited st ! i \<longleftrightarrow> i \<in> set (wk_order st)) \<and> set (wk_order st) \<subseteq> {..<n}
     \<and> parents_first (wk_parent st) dep (wk_order st)
     \<and> (\<forall>i \<in> set (wk_order st). 1 \<le> dep i \<and> dep i \<le> MAX_DEPTH)"

definition stack_ok :: "nat \<Rightarrow> (nat \<Rightarrow> nat) \<Rightarrow> walk_state \<Rightarrow> (nat \<times> nat) list \<Rightarrow> bool" where
  "stack_ok n dep st stack \<longleftrightarrow>
     (\<forall>(c, d) \<in> set stack. c < n \<and> 1 \<le> d \<and> (c \<notin> set (wk_order st) \<longrightarrow>
        (\<forall>p. wk_parent st ! c = Some p \<longrightarrow> p \<in> set (wk_order st) \<and> d = dep p + 1)))"

lemma parents_first_snoc:
  assumes "parents_first parent dep order" "i \<notin> set order"
    "\<And>p. parent' ! i = Some p \<Longrightarrow> p \<in> set order \<and> d = dep p + 1"
    "\<And>j. j \<in> set order \<Longrightarrow> parent' ! j = parent ! j"
  shows "parents_first parent' (dep(i := d)) (order @ [i])"
  unfolding parents_first_def
proof (intro allI impI)
  fix xs j ys p
  assume e: "order @ [i] = xs @ j # ys" and p: "parent' ! j = Some p"
  show "p \<in> set xs \<and> (dep(i := d)) j = (dep(i := d)) p + 1"
  proof (cases ys rule: rev_cases)
    case Nil
    then have "j = i" "xs = order" using e by auto
    then show ?thesis using assms(2) assms(3) [of p] p by auto
  next
    case (snoc zs z)
    then have o: "order = xs @ j # zs" using e by simp
    then have "p \<in> set xs \<and> dep j = dep p + 1"
      using assms(1) assms(4) [of j] p unfolding parents_first_def by fastforce
    moreover have "j \<noteq> i" "p \<noteq> i" using assms(2) o calculation by auto
    ultimately show ?thesis by simp
  qed
qed

lemma walk_linksD:
  assumes "walk_links n st"
  shows "length (wk_parent st) = n" "length (wk_children st) = n" "length (wk_visited st) = n"
    and "q < n \<Longrightarrow> c \<in> set (wk_children st ! q) \<Longrightarrow> c < n"
    and "q < n \<Longrightarrow> c \<in> set (wk_children st ! q) \<Longrightarrow> wk_parent st ! c = Some q"
    and "i < n \<Longrightarrow> wk_parent st ! i = Some p \<Longrightarrow> p < n"
  using assms unfolding walk_links_def by blast+

lemma walk_linksI:
  assumes "length (wk_parent st) = n" "length (wk_children st) = n" "length (wk_visited st) = n"
    and "\<And>q c. q < n \<Longrightarrow> c \<in> set (wk_children st ! q) \<Longrightarrow> c < n \<and> wk_parent st ! c = Some q"
    and "\<And>c q. c < n \<Longrightarrow> wk_parent st ! c = Some q \<Longrightarrow> q < n"
  shows "walk_links n st"
  using assms unfolding walk_links_def by blast

lemma cut_parent_ok:
  assumes "walk_links n st" "i < n"
  shows "\<exists>st'. cut_parent i st = Some st' \<and> walk_links n st' \<and> wk_parent st' ! i = None
    \<and> (\<forall>j. j \<noteq> i \<longrightarrow> wk_parent st' ! j = wk_parent st ! j)
    \<and> wk_visited st' = wk_visited st \<and> wk_order st' = wk_order st"
proof (cases "wk_parent st ! i")
  case None
  then have "cut_parent i st = Some st"
    using assms(2) walk_linksD(1) [OF assms(1)] by (simp add: cut_parent_def)
  then show ?thesis using assms(1) None by blast
next
  case (Some p)
  let ?P = "(wk_parent st)[i := None]"
  let ?C = "(wk_children st)[p := filter (\<lambda>c. c \<noteq> i) (wk_children st ! p)]"
  let ?st = "st\<lparr>wk_parent := ?P, wk_children := ?C\<rparr>"
  note len = walk_linksD(1-3) [OF assms(1)] and child = walk_linksD(4,5) [OF assms(1)]
  have p: "p < n" using walk_linksD(6) [OF assms(1) assms(2) Some] .
  have kids: "c < n \<and> ?P ! c = Some q" if "q < n" "c \<in> set (?C ! q)" for q c
  proof -
    have c: "c \<in> set (wk_children st ! q)" "q = p \<Longrightarrow> c \<noteq> i"
      using that p len(2) by (auto simp: nth_list_update split: if_splits)
    have "c \<noteq> i"
    proof
      assume "c = i"
      then show False using child(2) [OF that(1) c(1)] c(2) Some by simp
    qed
    then show ?thesis using child [OF that(1) c(1)] by simp
  qed
  have pars: "q < n" if "c < n" "?P ! c = Some q" for c q
    using that walk_linksD(6) [OF assms(1), of c q] assms(2) len(1) by (cases "c = i") simp_all
  have "walk_links n ?st"
  proof (rule walk_linksI)
    show "c < n \<and> wk_parent ?st ! c = Some q" if "q < n" "c \<in> set (wk_children ?st ! q)" for q c
      using kids [of q c] that by simp
    show "q < n" if "c < n" "wk_parent ?st ! c = Some q" for c q
      using pars [of c q] that by simp
  qed (simp_all add: len)
  moreover have "cut_parent i st = Some ?st"
    using assms(2) len p Some by (simp add: cut_parent_def)
  ultimately show ?thesis
    using assms(2) len(1) by (intro exI [of _ ?st]) simp
qed

lemma place_ok:
  assumes "walk_links n st" "i < n" "1 \<le> d"
  shows "\<exists>st' d'. place i d st = Some (st', d') \<and> walk_links n st' \<and> 1 \<le> d' \<and> d' \<le> MAX_DEPTH
    \<and> (wk_parent st' ! i \<noteq> None \<longrightarrow> wk_parent st' ! i = wk_parent st ! i \<and> d' = d)
    \<and> (\<forall>j. j \<noteq> i \<longrightarrow> wk_parent st' ! j = wk_parent st ! j)
    \<and> wk_visited st' = wk_visited st \<and> wk_order st' = wk_order st"
proof (cases "d > MAX_DEPTH")
  case True
  then show ?thesis using cut_parent_ok [OF assms(1,2)] by (auto simp: place_def MAX_DEPTH_def)
qed (use assms in \<open>auto simp: place_def\<close>)


lemma walk_invD:
  assumes "walk_inv n dep st"
  shows "walk_links n st" "distinct (wk_order st)" "set (wk_order st) \<subseteq> {..<n}"
    and "parents_first (wk_parent st) dep (wk_order st)"
    and "i < n \<Longrightarrow> wk_visited st ! i \<longleftrightarrow> i \<in> set (wk_order st)"
    and "i \<in> set (wk_order st) \<Longrightarrow> 1 \<le> dep i \<and> dep i \<le> MAX_DEPTH"
  using assms unfolding walk_inv_def by blast+

lemma stack_okD:
  assumes "stack_ok n dep st stack" "(c, d) \<in> set stack"
  shows "c < n" "1 \<le> d"
    and "c \<notin> set (wk_order st) \<Longrightarrow> wk_parent st ! c = Some p \<Longrightarrow> p \<in> set (wk_order st) \<and> d = dep p + 1"
  using assms unfolding stack_ok_def by blast+

lemma walk_links_visit: "walk_links n (visit i st) \<longleftrightarrow> walk_links n st"
proof -
  have "wk_parent (visit i st) = wk_parent st" "wk_children (visit i st) = wk_children st"
    "length (wk_visited (visit i st)) = length (wk_visited st)"
    by (simp_all add: visit_def)
  then show ?thesis by (simp only: walk_links_def)
qed

lemma visit_ok:
  assumes inv: "walk_inv n dep st" and stack: "stack_ok n dep st ((i, d) # stack)"
    and new: "i \<notin> set (wk_order st)"
  shows "\<exists>st' d'. place i d st = Some (st', d') \<and> i < length (wk_children st')
    \<and> walk_inv n (dep(i := d')) (visit i st')
    \<and> stack_ok n (dep(i := d')) (visit i st') (map (\<lambda>c. (c, d' + 1)) (wk_children st' ! i) @ stack)
    \<and> wk_order (visit i st') = wk_order st @ [i]"
proof -
  have i: "i < n" "1 \<le> d" using stack_okD(1,2) [OF stack, of i d] by simp_all
  obtain st' d' where pl: "place i d st = Some (st', d')" "walk_links n st'" "1 \<le> d'" "d' \<le> MAX_DEPTH"
    and own: "wk_parent st' ! i \<noteq> None \<longrightarrow> wk_parent st' ! i = wk_parent st ! i \<and> d' = d"
    and other: "\<forall>j. j \<noteq> i \<longrightarrow> wk_parent st' ! j = wk_parent st ! j"
    and same: "wk_visited st' = wk_visited st" "wk_order st' = wk_order st"
    using place_ok [OF walk_invD(1) [OF inv] i] by blast
  have order: "wk_order (visit i st') = wk_order st @ [i]" by (simp add: visit_def same)
  have parent: "wk_parent (visit i st') = wk_parent st'" by (simp add: visit_def)
  have p: "p \<in> set (wk_order st) \<and> d' = dep p + 1" if "wk_parent st' ! i = Some p" for p
    using that own stack_okD(3) [OF stack, of i d p] new by simp
  have "walk_inv n (dep(i := d')) (visit i st')"
    unfolding walk_inv_def
  proof (intro conjI)
    show "walk_links n (visit i st')" using pl(2) by (simp only: walk_links_visit)
    show "distinct (wk_order (visit i st'))" using walk_invD(2) [OF inv] new by (simp add: order)
    show "set (wk_order (visit i st')) \<subseteq> {..<n}" using walk_invD(3) [OF inv] i by (simp add: order)
    show "parents_first (wk_parent (visit i st')) (dep(i := d')) (wk_order (visit i st'))"
      unfolding order parent
    proof (rule parents_first_snoc [OF walk_invD(4) [OF inv] new])
      show "wk_parent st' ! j = wk_parent st ! j" if "j \<in> set (wk_order st)" for j
        using other that new by metis
    qed (rule p)
    show "\<forall>j \<in> set (wk_order (visit i st')). 1 \<le> (dep(i := d')) j \<and> (dep(i := d')) j \<le> MAX_DEPTH"
      using walk_invD(6) [OF inv] pl(3,4) by (auto simp: order)
    show "\<forall>j < n. wk_visited (visit i st') ! j \<longleftrightarrow> j \<in> set (wk_order (visit i st'))"
    proof (intro allI impI)
      fix j assume "j < n"
      moreover have "length (wk_visited st) = n" using walk_linksD(3) [OF walk_invD(1) [OF inv]] .
      ultimately show "wk_visited (visit i st') ! j \<longleftrightarrow> j \<in> set (wk_order (visit i st'))"
        using walk_invD(5) [OF inv, of j] by (cases "j = i") (simp_all add: visit_def same nth_list_update)
    qed
  qed
  moreover have "stack_ok n (dep(i := d')) (visit i st') (map (\<lambda>c. (c, d' + 1)) (wk_children st' ! i) @ stack)"
    unfolding stack_ok_def
  proof (intro ballI, clarify)
    fix c e
    assume "(c, e) \<in> set (map (\<lambda>c. (c, d' + 1)) (wk_children st' ! i) @ stack)"
    then consider "c \<in> set (wk_children st' ! i)" "e = d' + 1" | "(c, e) \<in> set stack" by auto
    then show "c < n \<and> 1 \<le> e \<and> (c \<notin> set (wk_order (visit i st')) \<longrightarrow>
        (\<forall>p. wk_parent (visit i st') ! c = Some p \<longrightarrow> p \<in> set (wk_order (visit i st')) \<and> e = (dep(i := d')) p + 1))"
    proof cases
      case 1
      then show ?thesis using walk_linksD(4,5) [OF pl(2) i(1)] by (auto simp: order parent)
    next
      case 2
      then have m: "(c, e) \<in> set ((i, d) # stack)" by simp
      have "p \<in> set (wk_order st) \<and> e = (dep(i := d')) p + 1"
        if "c \<notin> set (wk_order st @ [i])" "wk_parent st' ! c = Some p" for p
      proof -
        have "wk_parent st ! c = Some p" using that other by auto
        then have "p \<in> set (wk_order st) \<and> e = dep p + 1"
          using stack_okD(3) [OF stack m] that(1) by simp
        then show ?thesis using new by auto
      qed
      then show ?thesis using stack_okD(1,2) [OF stack m] by (simp add: order parent)
    qed
  qed
  moreover have "i < length (wk_children st')" using i(1) walk_linksD(2) [OF pl(2)] by simp
  ultimately show ?thesis using pl(1) order by blast
qed


lemma stack_ok_mono: "stack_ok n dep st (e # stack) \<Longrightarrow> stack_ok n dep st stack"
  by (simp add: stack_ok_def)

lemma walk_stack_ok:
  assumes "walk_inv n dep st" "stack_ok n dep st stack"
  shows "\<exists>st' dep'. walk_stack st stack = Some st' \<and> walk_inv n dep' st'
    \<and> set (wk_order st) \<union> fst ` set stack \<subseteq> set (wk_order st')"
  using assms
proof (induction st stack arbitrary: dep rule: walk_stack.induct)
  case (1 st)
  then show ?case by auto
next
  case (2 st i d stack)
  have i: "i < n" using stack_okD(1) [OF 2(4), of i d] by simp
  have len: "i < length (wk_visited st)" using i walk_linksD(3) [OF walk_invD(1) [OF 2(3)]] by simp
  show ?case
  proof (cases "wk_visited st ! i")
    case True
    then have seen: "i \<in> set (wk_order st)" using walk_invD(5) [OF 2(3) i] by simp
    obtain st' dep' where "walk_stack st stack = Some st'" "walk_inv n dep' st'"
      "set (wk_order st) \<union> fst ` set stack \<subseteq> set (wk_order st')"
      using 2(1) [OF len True 2(3) stack_ok_mono [OF 2(4)]] by blast
    then show ?thesis using True len seen by auto
  next
    case False
    then have new: "i \<notin> set (wk_order st)" using walk_invD(5) [OF 2(3) i] by simp
    obtain st1 d1 where v: "place i d st = Some (st1, d1)" "i < length (wk_children st1)"
      "walk_inv n (dep(i := d1)) (visit i st1)"
      "stack_ok n (dep(i := d1)) (visit i st1) (map (\<lambda>c. (c, d1 + 1)) (wk_children st1 ! i) @ stack)"
      "wk_order (visit i st1) = wk_order st @ [i]"
      using visit_ok [OF 2(3,4) new] by blast
    obtain st' dep' where r: "walk_stack (visit i st1) (map (\<lambda>c. (c, d1 + 1)) (wk_children st1 ! i) @ stack) = Some st'"
      "walk_inv n dep' st'"
      "set (wk_order (visit i st1)) \<union> fst ` set (map (\<lambda>c. (c, d1 + 1)) (wk_children st1 ! i) @ stack) \<subseteq> set (wk_order st')"
      using 2(2) [OF len False v(1) refl v(2) v(3) v(4)] by blast
    have "walk_stack st ((i, d) # stack) = Some st'"
      using len False v(1,2) r(1) by simp
    moreover have "set (wk_order st) \<union> fst ` set ((i, d) # stack) \<subseteq> set (wk_order st')"
      using r(3) v(5) by auto
    ultimately show ?thesis using r(2) by blast
  qed
qed

lemma find_upt:
  assumes "find P [a..<b] = Some i"
  shows "a \<le> i" "i < b" "P i" "a \<le> j \<Longrightarrow> j < i \<Longrightarrow> \<not> P j"
proof -
  obtain k where k: "k < b - a" "i = a + k" "P i" "\<forall>m < k. \<not> P (a + m)"
    using assms by (auto simp: find_Some_iff)
  then show "a \<le> i" "i < b" "P i" by simp_all
  show "\<not> P j" if "a \<le> j" "j < i" using k(2) spec [OF k(4), of "j - a"] that by simp
qed

lemma walk_loop_ok:
  assumes "walk_inv n dep st" "stack_ok n dep st stack" "{..<cut_at} \<subseteq> set (wk_order st) \<union> fst ` set stack"
  shows "\<exists>st' dep'. walk_loop st stack cut_at = Some st' \<and> walk_inv n dep' st' \<and> set (wk_order st') = {..<n}"
  using assms
proof (induction st stack cut_at arbitrary: dep rule: walk_loop.induct)
  case (1 st stack cut_at)
  obtain st1 dep1 where w: "walk_stack st stack = Some st1" and inv: "walk_inv n dep1 st1"
    and sub: "set (wk_order st) \<union> fst ` set stack \<subseteq> set (wk_order st1)"
    using walk_stack_ok [OF 1(2,3)] by blast
  have len: "length (wk_visited st1) = n" using walk_linksD(3) [OF walk_invD(1) [OF inv]] .
  have low: "{..<cut_at} \<subseteq> set (wk_order st1)" using 1(4) sub by blast
  show ?case
  proof (cases "find (\<lambda>i. \<not> wk_visited st1 ! i) [cut_at..<length (wk_visited st1)]")
    case None
    have "i \<in> set (wk_order st1)" if "i < n" for i
      using None low that walk_invD(5) [OF inv that] len by (cases "i < cut_at") (auto simp: find_None_iff)
    then have "set (wk_order st1) = {..<n}" using walk_invD(3) [OF inv] by auto
    then show ?thesis using w None inv by (subst walk_loop.simps) auto
  next
    case (Some orphan)
    have o: "cut_at \<le> orphan" "orphan < n" "\<not> wk_visited st1 ! orphan"
      "\<forall>i. cut_at \<le> i \<and> i < orphan \<longrightarrow> wk_visited st1 ! i"
      using find_upt [OF Some] len by blast+
    obtain st2 where c: "cut_parent orphan st1 = Some st2" "walk_links n st2" "wk_parent st2 ! orphan = None"
      "\<forall>j. j \<noteq> orphan \<longrightarrow> wk_parent st2 ! j = wk_parent st1 ! j"
      "wk_visited st2 = wk_visited st1" "wk_order st2 = wk_order st1"
      using cut_parent_ok [OF walk_invD(1) [OF inv] o(2)] by blast
    have new: "orphan \<notin> set (wk_order st1)" using o(2,3) walk_invD(5) [OF inv o(2)] by simp
    have "parents_first (wk_parent st2) dep1 (wk_order st1)"
      unfolding parents_first_def
    proof (intro allI impI)
      fix xs i ys p
      assume "wk_order st1 = xs @ i # ys" "wk_parent st2 ! i = Some p"
      moreover from this have "wk_parent st1 ! i = Some p" using c(4) new by auto
      ultimately show "p \<in> set xs \<and> dep1 i = dep1 p + 1"
        using walk_invD(4) [OF inv] unfolding parents_first_def by blast
    qed
    then have inv2: "walk_inv n dep1 st2"
      using inv c(2,5,6) unfolding walk_inv_def by simp
    have stack2: "stack_ok n dep1 st2 [(orphan, 1)]" using o(2) c(3) by (simp add: stack_ok_def)
    have "i \<in> set (wk_order st1)" if "i < orphan" for i
      using that low o(2,4) walk_invD(5) [OF inv, of i] by (cases "i < cut_at") auto
    then have low2: "{..<orphan + 1} \<subseteq> set (wk_order st2) \<union> fst ` set [(orphan, 1 :: nat)]"
      using c(6) by (auto simp: less_Suc_eq)
    show ?thesis
      using 1(1) [OF w Some c(1) inv2 stack2 low2] w Some c(1) by (subst walk_loop.simps) simp
  qed
qed

end
