(* ===== verification/Mail_Tree.thy ===== *)
theory Mail_Tree
  imports Mail_Folders
begin

text \<open>
  What \<open>from_mailboxes\<close> of \<open>Mail_Folders\<close> builds: the forest has every mailbox once, is not deep, and its paths
  and roles identify its folders.
\<close>

section \<open>Forests\<close>

text \<open>The folders of a forest, each parent before its children (\<^verbatim>\<open>FolderTree::iter\<close>).\<close>

fun flatten :: "folder_info \<Rightarrow> folder_data list" where
  "flatten (Folder d cs) = d # concat (map flatten cs)"

definition forest_data :: "folder_info list \<Rightarrow> folder_data list" where
  "forest_data fs = concat (map flatten fs)"

fun folder_depth :: "folder_info \<Rightarrow> nat" where
  "folder_depth (Folder d cs) = Suc (foldr max (map folder_depth cs) 0)"

text \<open>The path of a child is the path of its parent with one more component.\<close>

fun nested :: "folder_info \<Rightarrow> bool" where
  "nested (Folder d cs) \<longleftrightarrow>
     list_all (\<lambda>c. fst (path_split (fo_path (fo_data c))) = Some (fo_path d) \<and> nested c) cs"

lemma foldr_max_le: "foldr max ns 0 \<le> (k :: nat) \<longleftrightarrow> (\<forall>n \<in> set ns. n \<le> k)"
  by (induction ns) auto

lemma folder_depth_le: "folder_depth (Folder d cs) \<le> Suc k \<longleftrightarrow> (\<forall>c \<in> set cs. folder_depth c \<le> k)"
  by (simp add: foldr_max_le)

lemma forest_data_simps [simp]:
  "forest_data [] = []" "forest_data (f # fs) = flatten f @ forest_data fs"
  "forest_data (fs @ gs) = forest_data fs @ forest_data gs"
  by (simp_all add: forest_data_def)

lemma mset_forest_rev [simp]: "mset (forest_data (rev fs)) = mset (forest_data fs)"
  by (induction fs) simp_all

lemma flatten_Folder: "flatten (Folder d cs) = d # forest_data cs"
  by (simp add: forest_data_def)

section \<open>Assembling\<close>

definition assembled ::
  "nat \<Rightarrow> nat option list \<Rightarrow> (nat \<Rightarrow> nat) \<Rightarrow> (nat \<Rightarrow> folder_data) \<Rightarrow> nat list
   \<Rightarrow> folder_info list list \<times> folder_info list \<Rightarrow> bool" where
  "assembled n parent dep data post st \<longleftrightarrow>
     length (fst st) = n
     \<and> mset (concat (map forest_data (fst st))) + mset (forest_data (snd st)) = mset (map data post)
     \<and> (\<forall>j \<in> set post. fst st ! j = [])
     \<and> (\<forall>j < n. \<forall>f \<in> set (fst st ! j). \<exists>i \<in> set post. fo_data f = data i \<and> parent ! i = Some j
          \<and> folder_depth f + dep i \<le> Suc MAX_DEPTH \<and> nested f)
     \<and> (\<forall>f \<in> set (snd st). \<exists>i \<in> set post. fo_data f = data i \<and> parent ! i = None
          \<and> folder_depth f + dep i \<le> Suc MAX_DEPTH \<and> nested f)"

lemma mset_concat_update:
  "i < length xs \<Longrightarrow> mset (concat (map g (xs[i := y]))) + mset (g (xs ! i)) = mset (concat (map g xs)) + mset (g y)"
proof (induction xs arbitrary: i)
  case (Cons x xs)
  then show ?case by (cases i) (auto simp: ac_simps)
qed simp

lemma assembled_child:
  assumes "assembled n parent dep data post st" "j < n" "f \<in> set (fst st ! j)"
  obtains i where "i \<in> set post" "fo_data f = data i" "parent ! i = Some j"
    "folder_depth f + dep i \<le> Suc MAX_DEPTH" "nested f"
  using assms unfolding assembled_def by (elim conjE) (drule spec [of _ j], auto)

lemma assembled_folder:
  assumes inv: "assembled n parent dep data post st"
    and i: "i < n" "dep i \<le> MAX_DEPTH"
    and kids: "\<And>j. j \<in> set post \<Longrightarrow> parent ! j = Some i \<Longrightarrow> dep j = dep i + 1
      \<and> fst (path_split (fo_path (data j))) = Some (fo_path (data i))"
  defines "folder \<equiv> Folder (data i) (rev (fst st ! i))"
  shows "folder_depth folder + dep i \<le> Suc MAX_DEPTH" "nested folder" "fo_data folder = data i"
    "mset (flatten folder) = {#data i#} + mset (forest_data (fst st ! i))"
proof -
  have child: "folder_depth f \<le> MAX_DEPTH - dep i \<and> fst (path_split (fo_path (fo_data f))) = Some (fo_path (data i)) \<and> nested f"
    if f: "f \<in> set (fst st ! i)" for f
  proof -
    obtain j where j: "j \<in> set post" "fo_data f = data j" "parent ! j = Some i"
      "folder_depth f + dep j \<le> Suc MAX_DEPTH" "nested f"
      using assembled_child [OF inv i(1) f] .
    have "dep j = dep i + 1" "fst (path_split (fo_path (data j))) = Some (fo_path (data i))"
      using kids [OF j(1,3)] by blast+
    then show ?thesis using j by simp
  qed
  have "folder_depth folder \<le> Suc (MAX_DEPTH - dep i)"
    unfolding folder_def folder_depth_le using child by auto
  then show "folder_depth folder + dep i \<le> Suc MAX_DEPTH" using i(2) by simp
  show "nested folder" using child by (simp add: folder_def list_all_iff)
  show "fo_data folder = data i" by (simp add: folder_def)
  show "mset (flatten folder) = {#data i#} + mset (forest_data (fst st ! i))"
    unfolding folder_def flatten_Folder by simp
qed

lemma assembled_step:
  assumes inv: "assembled n parent dep data post st" and new: "i \<notin> set post"
    and i: "i < n" "dep i \<le> MAX_DEPTH"
    and kids: "\<And>j. j \<in> set post \<Longrightarrow> parent ! j = Some i \<Longrightarrow> dep j = dep i + 1
      \<and> fst (path_split (fo_path (data j))) = Some (fo_path (data i))"
    and par: "\<And>p. parent ! i = Some p \<Longrightarrow> p < n \<and> p \<noteq> i \<and> p \<notin> set post"
  shows "assembled n parent dep data (i # post) (assemble_step data parent i st)"
proof -
  obtain built roots where st: "st = (built, roots)" by (cases st)
  define folder where "folder = Folder (data i) (rev (built ! i))"
  note f = assembled_folder [OF inv i kids, folded folder_def, unfolded st fst_conv, folded folder_def]
  have len: "length built = n" using inv by (simp add: assembled_def st)
  have sum: "mset (concat (map forest_data (built[i := []]))) + mset (flatten folder) + mset (forest_data roots)
      = mset (map data (i # post))"
    using inv mset_concat_update [of i built forest_data "[]"] i(1) len f(4)
    by (simp add: assembled_def st ac_simps)
  show ?thesis
  proof (cases "parent ! i")
    case None
    then have "assemble_step data parent i st = (built[i := []], roots @ [folder])"
      by (simp add: assemble_step_def st folder_def Let_def)
    then show ?thesis
      using inv sum f(1-3) None len i(1)
      by (auto simp: assembled_def st nth_list_update ac_simps split: if_splits)
  next
    case (Some p)
    note p = par [OF Some]
    have step: "assemble_step data parent i st = (built[i := [], p := built ! p @ [folder]], roots)"
      using Some p by (simp add: assemble_step_def st folder_def Let_def)
    have "mset (concat (map forest_data (built[i := [], p := built ! p @ [folder]])))
        = mset (concat (map forest_data (built[i := []]))) + mset (flatten folder)"
      using mset_concat_update [of p "built[i := []]" forest_data "built ! p @ [folder]"] p len by simp
    then show ?thesis
      unfolding step using inv sum f(1-3) Some len i(1) p new
      by (auto simp: assembled_def st nth_list_update ac_simps split: if_splits)
  qed
qed


lemma parents_firstD:
  assumes "parents_first parent dep order" "order = xs @ i # ys" "parent ! i = Some p"
  shows "p \<in> set xs" "dep i = dep p + 1"
  using assms unfolding parents_first_def by blast+

lemma assembled_fold:
  assumes order: "distinct order" "set order = {..<n}" "parents_first parent dep order"
    and dep: "\<And>i. i < n \<Longrightarrow> dep i \<le> MAX_DEPTH"
    and paths: "\<And>i. i < n \<Longrightarrow> fst (path_split (fo_path (data i))) = map_option (\<lambda>p. fo_path (data p)) (parent ! i)"
  shows "order = pre @ post \<Longrightarrow>
    assembled n parent dep data post (fold (assemble_step data parent) (rev post) (replicate n [], []))"
proof (induction post arbitrary: pre)
  case Nil
  have "mset (concat (map forest_data (replicate n []))) = {#}" by (induction n) simp_all
  then show ?case by (auto simp: assembled_def)
next
  case (Cons i post)
  have inv: "assembled n parent dep data post (fold (assemble_step data parent) (rev post) (replicate n [], []))"
    using Cons(1) [of "pre @ [i]"] Cons(2) by simp
  have sub: "set (i # post) \<subseteq> {..<n}" "i \<notin> set pre \<union> set post" "set pre \<inter> set post = {}"
    using Cons(2) order(1,2) by auto
  have "dep j = dep i + 1 \<and> fst (path_split (fo_path (data j))) = Some (fo_path (data i))"
    if j: "j \<in> set post" "parent ! j = Some i" for j
  proof -
    obtain ys zs where "post = ys @ j # zs" using split_list [OF j(1)] by blast
    then show ?thesis
      using parents_firstD(2) [OF order(3), of "pre @ i # ys" j zs i] Cons(2) j paths [of j] sub(1) by auto
  qed
  moreover have "p < n \<and> p \<noteq> i \<and> p \<notin> set post" if "parent ! i = Some p" for p
  proof -
    have "p \<in> set pre" using parents_firstD(1) [OF order(3) Cons(2) that] .
    moreover have "set pre \<subseteq> {..<n}" using Cons(2) order(2) by auto
    ultimately show ?thesis using sub by auto
  qed
  ultimately show ?case
    using assembled_step [OF inv, of i] sub dep [of i] by simp
qed

lemma assemble_ok:
  fixes nodes :: "'n node list" and roles :: "folder_role option list"
  assumes order: "distinct order" "set order = {..<length nodes}" "parents_first parent dep order"
    and dep: "\<And>i. i < length nodes \<Longrightarrow> 1 \<le> dep i \<and> dep i \<le> MAX_DEPTH"
    and paths: "\<And>i. i < length nodes \<Longrightarrow> fst (path_split (paths ! i)) = map_option (\<lambda>p. paths ! p) (parent ! i)"
  defines "forest \<equiv> assemble nodes parent roles paths order"
  shows "mset (forest_data forest) = mset (map (folder_of nodes roles paths) order)"
    and "f \<in> set forest \<Longrightarrow> folder_depth f \<le> MAX_DEPTH \<and> nested f \<and> fst (path_split (fo_path (fo_data f))) = None"
proof -
  let ?data = "folder_of nodes roles paths" and ?n = "length nodes"
  let ?st = "fold (assemble_step ?data parent) (rev order) (replicate ?n [], [])"
  have path: "fo_path (?data i) = paths ! i" for i by (simp add: folder_of_def Let_def)
  have inv: "assembled ?n parent dep ?data order ?st"
    using assembled_fold [OF order, of ?data "[]" order] dep paths by (simp add: path)
  have "fst ?st = replicate ?n []"
    using inv order(2) by (intro nth_equalityI) (auto simp: assembled_def)
  then have none: "concat (map forest_data (fst ?st)) = []" by simp
  have "mset (concat (map forest_data (fst ?st))) + mset (forest_data (snd ?st)) = mset (map ?data order)"
    using inv unfolding assembled_def by blast
  then show "mset (forest_data forest) = mset (map ?data order)"
    unfolding none by (simp add: forest_def assemble_def)
  show "folder_depth f \<le> MAX_DEPTH \<and> nested f \<and> fst (path_split (fo_path (fo_data f))) = None" if "f \<in> set forest"
  proof -
    have "f \<in> set (snd ?st)" using that by (simp add: forest_def assemble_def)
    then obtain i where i: "i \<in> set order" "fo_data f = ?data i" "parent ! i = None"
      "folder_depth f + dep i \<le> Suc MAX_DEPTH" "nested f"
      using inv unfolding assembled_def by blast
    then show ?thesis using dep [of i] paths [of i] order(2) by (auto simp: path)
  qed
qed


section \<open>Paths\<close>

text \<open>The last component of a node: its encoded name, or that with the mark and the encoded id.\<close>

definition component_of :: "'n node \<Rightarrow> str \<Rightarrow> bool" where
  "component_of node c \<longleftrightarrow>
     c = encode_component (mb_name (nd_mailbox node))
     \<or> c = encode_component (mb_name (nd_mailbox node)) @ [PERCENT, CHR ''2'', CHR ''3''] @ encode_component (nd_id node)"

lemma component_of_no_separator: "component_of node c \<Longrightarrow> SEPARATOR \<notin> set c"
  using encode_component_chars(1) by (auto simp: component_of_def)

lemma marked_component:
  assumes "component_of m (encode_component a @ [PERCENT, CHR ''2'', CHR ''3''] @ encode_component i)"
  shows "nd_id m = i"
proof -
  have "encode_component a @ PERCENT # ''23'' @ encode_component i
      = encode_component (mb_name (nd_mailbox m)) @ PERCENT # ''23'' @ encode_component (nd_id m)"
    using assms escapes_only_marked [of "encode_component a" "encode_component i"]
      escapes_only_encode [of "mb_name (nd_mailbox m)"]
    by (auto simp: component_of_def)
  then have "encode_component i = encode_component (nd_id m)"
    using escapes_only_split escapes_only_encode by blast
  then show ?thesis by (simp add: component.enc_inj)
qed

definition paths_ok :: "'n node list \<Rightarrow> nat option list \<Rightarrow> nat list \<Rightarrow> str list \<times> str list \<Rightarrow> bool" where
  "paths_ok nodes parent xs st \<longleftrightarrow>
     length (fst st) = length nodes \<and> set (snd st) = (\<lambda>i. fst st ! i) ` set xs
     \<and> distinct (map (\<lambda>i. fst st ! i) xs)
     \<and> (\<forall>i \<in> set xs. \<exists>c. component_of (nodes ! i) c \<and> fst st ! i = path_join (map_option (\<lambda>p. fst st ! p) (parent ! i)) c)"

text \<open>The path that a node gets is new.\<close>

lemma new_path:
  assumes inv: "paths_ok nodes parent xs (paths, used)" and ids: "distinct (map nd_id nodes)"
    and i: "i < length nodes" "i \<notin> set xs" "set xs \<subseteq> {..<length nodes}"
  defines "pp \<equiv> map_option (\<lambda>p. paths ! p) (parent ! i)"
  shows "\<exists>path c. add_path nodes parent i (paths, used) = (paths[i := path], path # used)
    \<and> path \<notin> set used \<and> component_of (nodes ! i) c \<and> path = path_join pp c"
proof -
  let ?c = "encode_component (mb_name (nd_mailbox (nodes ! i)))"
  let ?m = "?c @ [PERCENT, CHR ''2'', CHR ''3''] @ encode_component (nd_id (nodes ! i))"
  have c: "component_of (nodes ! i) ?c" "component_of (nodes ! i) ?m" by (simp_all add: component_of_def)
  show ?thesis
  proof (cases "path_join pp ?c \<in> set used")
    case False
    then have "add_path nodes parent i (paths, used) = (paths[i := path_join pp ?c], path_join pp ?c # used)"
      by (simp add: add_path_def pp_def Let_def)
    then show ?thesis using False c(1) by blast
  next
    case True
    have "path_join pp ?m \<notin> set used"
    proof
      assume "path_join pp ?m \<in> set used"
      then obtain j d where j: "j \<in> set xs" "component_of (nodes ! j) d"
        "path_join pp ?m = path_join (map_option (\<lambda>p. paths ! p) (parent ! j)) d"
        using inv unfolding paths_ok_def by auto
      then have "d = ?m"
        using path_join_inj [OF component_of_no_separator [OF c(2)] component_of_no_separator [OF j(2)]] by blast
      then have "nd_id (nodes ! j) = nd_id (nodes ! i)" using j(2) marked_component by blast
      then have "j = i"
        using ids i(1,3) j(1) nth_eq_iff_index_eq [OF ids, of j i] by auto
      then show False using i(2) j(1) by simp
    qed
    moreover have "add_path nodes parent i (paths, used) = (paths[i := path_join pp ?m], path_join pp ?m # used)"
      using True by (simp add: add_path_def pp_def Let_def)
    ultimately show ?thesis using c(2) by blast
  qed
qed

lemma paths_ok_step:
  assumes inv: "paths_ok nodes parent xs st" and ids: "distinct (map nd_id nodes)"
    and i: "i < length nodes" "i \<notin> set xs" "set xs \<subseteq> {..<length nodes}"
    and par: "\<And>j p. j \<in> set (xs @ [i]) \<Longrightarrow> parent ! j = Some p \<Longrightarrow> p \<in> set xs"
  shows "paths_ok nodes parent (xs @ [i]) (add_path nodes parent i st)"
proof -
  obtain paths used where st: "st = (paths, used)" by (cases st)
  obtain path c where new: "add_path nodes parent i (paths, used) = (paths[i := path], path # used)"
    "path \<notin> set used" "component_of (nodes ! i) c" "path = path_join (map_option (\<lambda>p. paths ! p) (parent ! i)) c"
    using new_path [OF inv [unfolded st] ids i] by blast
  have len: "length paths = length nodes" using inv by (simp add: paths_ok_def st)
  have old: "paths[i := path] ! j = paths ! j" if "j \<in> set xs" for j using that i(2) by (cases "j = i") simp_all
  have at: "paths[i := path] ! i = path" using i(1) len by simp
  have parent: "map_option (\<lambda>p. paths[i := path] ! p) (parent ! j) = map_option (\<lambda>p. paths ! p) (parent ! j)"
    if "j \<in> set (xs @ [i])" for j
    using par [OF that] old by (cases "parent ! j") auto
  have used: "set used = (\<lambda>i. paths ! i) ` set xs" "distinct (map (\<lambda>i. paths ! i) xs)"
    using inv by (simp_all add: paths_ok_def st)
  have maps: "map (\<lambda>j. paths[i := path] ! j) xs = map (\<lambda>j. paths ! j) xs"
    using old by (intro map_cong) auto
  have each: "\<exists>c. component_of (nodes ! j) c
      \<and> paths[i := path] ! j = path_join (map_option (\<lambda>p. paths[i := path] ! p) (parent ! j)) c"
    if j: "j \<in> set (xs @ [i])" for j
  proof (cases "j = i")
    case True
    then show ?thesis using new(3,4) parent [OF j] at by auto
  next
    case False
    then have "j \<in> set xs" using j by simp
    then show ?thesis using inv parent [OF j] old unfolding paths_ok_def st by auto
  qed
  have "distinct (map (\<lambda>j. paths[i := path] ! j) (xs @ [i]))"
    using used new(2) at by (simp add: maps)
  moreover have "set (path # used) = (\<lambda>j. paths[i := path] ! j) ` set (xs @ [i])"
    using used(1) at old by auto
  ultimately show ?thesis
    using each len unfolding paths_ok_def st new(1) by simp
qed

lemma folder_paths_ok:
  assumes ids: "distinct (map nd_id nodes)" and order: "distinct order" "set order = {..<length nodes}"
    "parents_first parent dep order"
  defines "paths \<equiv> folder_paths nodes parent order"
  shows "distinct (map (\<lambda>i. paths ! i) order)"
    and "i < length nodes \<Longrightarrow> fst (path_split (paths ! i)) = map_option (\<lambda>p. paths ! p) (parent ! i)"
proof -
  have "paths_ok nodes parent xs (fold (add_path nodes parent) xs (replicate (length nodes) [], []))"
    if "order = xs @ ys" for xs ys
    using that
  proof (induction xs arbitrary: ys rule: rev_induct)
    case Nil
    then show ?case by (simp add: paths_ok_def)
  next
    case (snoc i xs)
    have i: "i < length nodes" "i \<notin> set xs" "set xs \<subseteq> {..<length nodes}"
      using snoc(2) order(1,2) by auto
    have "p \<in> set xs" if j: "j \<in> set (xs @ [i])" "parent ! j = Some p" for j p
    proof -
      obtain as bs where s: "xs @ [i] = as @ j # bs" using split_list [OF j(1)] by blast
      then have "p \<in> set as" using parents_firstD(1) [OF order(3), of as j "bs @ ys" p] snoc(2) j(2) by simp
      moreover have "set as \<subseteq> set xs" using s by (cases bs rule: rev_cases) auto
      ultimately show ?thesis by blast
    qed
    then show ?case
      using paths_ok_step [OF snoc(1) [of "i # ys"] ids i] snoc(2) by simp
  qed
  from this [of order "[]"]
  have ok: "paths_ok nodes parent order (paths, snd (fold (add_path nodes parent) order (replicate (length nodes) [], [])))"
    by (simp add: paths_def folder_paths_def)
  then show "distinct (map (\<lambda>i. paths ! i) order)" by (simp add: paths_ok_def)
  show "fst (path_split (paths ! i)) = map_option (\<lambda>p. paths ! p) (parent ! i)" if i: "i < length nodes"
  proof -
    have "i \<in> set order" using i order(2) by simp
    then obtain c where "component_of (nodes ! i) c" "paths ! i = path_join (map_option (\<lambda>p. paths ! p) (parent ! i)) c"
      using ok unfolding paths_ok_def fst_conv by blast
    then show ?thesis by (simp add: path_split_join component_of_no_separator)
  qed
qed


section \<open>Roles, indices and children\<close>

lemma claim_roles_length [simp]: "length (claim_roles claimed nodes) = length nodes"
  by (induction claimed nodes rule: claim_roles.induct) (auto split: option.splits)

lemma claim_roles_distinct:
  "distinct (filter (\<lambda>r. r \<noteq> None) (claim_roles claimed nodes)) \<and> Some ` set claimed \<inter> set (claim_roles claimed nodes) = {}"
  by (induction claimed nodes rule: claim_roles.induct) (auto split: option.splits)

lemma index_nodes_Ok:
  assumes "distinct (map nd_id nodes)" "set (map nd_id nodes) \<inter> set (bt_keys m) = {}" "bt_wf m"
    and "\<And>k v. map_of m k = Some v \<Longrightarrow> v < i"
  shows "\<exists>m'. index_nodes i nodes m = Ok m' \<and> (\<forall>k v. map_of m' k = Some v \<longrightarrow> v < i + length nodes)"
  using assms
proof (induction i nodes m rule: index_nodes.induct)
  case (2 i node nodes m)
  have new: "\<not> bt_contains m (nd_id node)" using 2(3) by (auto simp: bt_contains_def)
  have "\<exists>m'. index_nodes (Suc i) nodes (bt_insert (nd_id node) i m) = Ok m'
      \<and> (\<forall>k v. map_of m' k = Some v \<longrightarrow> v < Suc i + length nodes)"
  proof (rule 2(1) [OF new])
    show "distinct (map nd_id nodes)" using 2(2) by simp
    show "set (map nd_id nodes) \<inter> set (bt_keys (bt_insert (nd_id node) i m)) = {}"
      using 2(2,3) by (auto simp: bt_keys_insert)
    show "bt_wf (bt_insert (nd_id node) i m)" using 2(4) by simp
    show "v < Suc i" if "map_of (bt_insert (nd_id node) i m) k = Some v" for k v
      using that 2(5) [of k v] by (auto simp: map_of_bt_insert [OF 2(4)] split: if_splits)
  qed
  then show ?case using new by simp
qed auto

lemma parents_of_range:
  assumes "\<And>k v. map_of m k = Some v \<Longrightarrow> v < length nodes" "i < length nodes" "parents_of m nodes ! i = Some p"
  shows "p < length nodes"
  using assms by (auto simp: parents_of_def Option.bind_eq_Some_conv)

definition children_ok :: "nat option list \<Rightarrow> nat list list \<times> nat list \<Rightarrow> bool" where
  "children_ok parent st \<longleftrightarrow>
     length (fst st) = length parent
     \<and> (\<forall>p < length parent. \<forall>c \<in> set (fst st ! p). c < length parent \<and> parent ! c = Some p)
     \<and> (\<forall>r \<in> set (snd st). r < length parent \<and> parent ! r = None)"

lemma add_child_ok:
  assumes "children_ok parent st" "i < length parent"
  shows "children_ok parent (add_child parent i st)"
proof (cases "parent ! i")
  case None
  then show ?thesis using assms by (auto simp: children_ok_def add_child_def split: prod.splits)
next
  case (Some p)
  obtain children roots where st: "st = (children, roots)" by (cases st)
  have "length children = length parent" using assms(1) by (simp add: children_ok_def st)
  then have "children[p := children ! p @ [i]] ! q = (if q = p then children ! p @ [i] else children ! q)"
    if "q < length parent" for q
    using that by (cases "q = p") simp_all
  then show ?thesis
    using assms Some by (auto simp: children_ok_def add_child_def st split: if_splits)
qed

lemma children_of_ok: "children_ok parent (children_of parent)"
proof -
  have "children_ok parent (fold (add_child parent) xs st)"
    if "children_ok parent st" "set xs \<subseteq> {..<length parent}" for xs st
    using that by (induction xs arbitrary: st) (simp_all add: add_child_ok)
  moreover have "children_ok parent (replicate (length parent) [], [])"
    by (simp add: children_ok_def)
  ultimately show ?thesis by (simp add: children_of_def lessThan_atLeast0)
qed

lemma walk_ok:
  assumes range: "\<And>i p. i < length parent \<Longrightarrow> parent ! i = Some p \<Longrightarrow> p < length parent"
    and "children_of parent = (children, roots)"
  shows "\<exists>st dep. walk parent children roots = Some st \<and> walk_inv (length parent) dep st
    \<and> set (wk_order st) = {..<length parent}"
proof -
  let ?n = "length parent"
  let ?st = "\<lparr>wk_parent = parent, wk_children = children, wk_visited = replicate ?n False, wk_order = []\<rparr>"
  have ok: "children_ok parent (children, roots)" using children_of_ok [of parent] assms(2) by simp
  have "walk_links ?n ?st"
  proof (rule walk_linksI)
    show "c < ?n \<and> wk_parent ?st ! c = Some q" if "q < ?n" "c \<in> set (wk_children ?st ! q)" for q c
      using ok that unfolding children_ok_def by simp
    show "q < ?n" if "c < ?n" "wk_parent ?st ! c = Some q" for c q using range that by simp
  qed (use ok in \<open>simp_all add: children_ok_def\<close>)
  then have "walk_inv ?n (\<lambda>_. 0) ?st" by (simp add: walk_inv_def parents_first_def)
  moreover have "stack_ok ?n (\<lambda>_. 0) ?st (map (\<lambda>i. (i, 1)) roots)"
    using ok by (auto simp: stack_ok_def children_ok_def)
  ultimately show ?thesis
    using walk_loop_ok [of ?n "\<lambda>_. 0" ?st "map (\<lambda>i. (i, 1)) roots" 0] unfolding walk_def by simp
qed


section \<open>The tree of a listing\<close>

lemma check_mailbox_Ok:
  "check_mailbox m = Ok node \<longleftrightarrow> mb_name m \<noteq> [] \<and> mb_id m = Some (nd_id node) \<and> node = \<lparr>nd_mailbox = m, nd_id = nd_id node\<rparr>"
  by (cases "mb_id m") (auto simp: check_mailbox_def)

lemma collect_nodes:
  "collect_results check_mailbox ms = Ok nodes \<longleftrightarrow>
     list_all (\<lambda>m. mb_id m \<noteq> None \<and> mb_name m \<noteq> []) ms
     \<and> nodes = map (\<lambda>m. \<lparr>nd_mailbox = m, nd_id = the (mb_id m)\<rparr>) ms"
proof (induction ms arbitrary: nodes)
  case (Cons m ms)
  show ?case
    by (cases nodes) (auto simp: res_bind_Inr_iff check_mailbox_Ok Cons.IH)
qed auto

lemma index_nodes_distinct:
  "index_nodes i nodes m = Ok m' \<Longrightarrow> distinct (map nd_id nodes) \<and> set (map nd_id nodes) \<inter> set (bt_keys m) = {}"
proof (induction i nodes m rule: index_nodes.induct)
  case (2 i node nodes m)
  then show ?case by (auto simp: bt_keys_insert bt_contains_def split: if_splits)
qed simp

definition listed :: "'n mailbox list \<Rightarrow> bool" where
  "listed ms \<longleftrightarrow> list_all (\<lambda>m. mb_id m \<noteq> None \<and> mb_name m \<noteq> []) ms \<and> distinct (map mb_id ms)"

lemma mset_permuted:
  assumes "distinct order" "set order = {..<length xs}"
  shows "mset (map (\<lambda>i. xs ! i) order) = mset xs"
proof -
  have "mset order = mset [0..<length xs]"
    using assms set_eq_iff_mset_eq_distinct [of order "[0..<length xs]"] by (simp add: lessThan_atLeast0)
  then have "mset (map (\<lambda>i. xs ! i) order) = mset (map (\<lambda>i. xs ! i) [0..<length xs])"
    by (simp only: mset_map)
  then show ?thesis by (simp add: map_nth)
qed

lemma mset_distinct_filter: "mset xs = mset ys \<Longrightarrow> distinct (filter P xs) \<longleftrightarrow> distinct (filter P ys)"
  by (metis mset_eq_imp_distinct_iff mset_filter)

lemma distinct_map_Some: "distinct (map Some xs) \<longleftrightarrow> distinct xs"
  by (simp add: distinct_map)

lemma sorted_nodes:
  assumes "listed ms"
  defines "nodes \<equiv> sort_nodes (map (\<lambda>m. \<lparr>nd_mailbox = m, nd_id = the (mb_id m)\<rparr>) ms)"
  shows "mset (map nd_id nodes) = mset (map (\<lambda>m. the (mb_id m)) ms)" "distinct (map nd_id nodes)"
proof -
  show perm: "mset (map nd_id nodes) = mset (map (\<lambda>m. the (mb_id m)) ms)"
    by (simp add: nodes_def sort_nodes_def image_mset.compositionality comp_def)
  have "map mb_id ms = map Some (map (\<lambda>m. the (mb_id m)) ms)"
    using assms(1) by (auto simp: listed_def list_all_iff)
  then have "distinct (map (\<lambda>m. the (mb_id m)) ms)"
    using assms(1) distinct_map_Some unfolding listed_def by metis
  then show "distinct (map nd_id nodes)" using mset_eq_imp_distinct_iff [OF perm] by simp
qed

text \<open>What the forest of a listing is like.\<close>

definition forest_ok :: "'n mailbox list \<Rightarrow> folder_info list \<Rightarrow> bool" where
  "forest_ok ms forest \<longleftrightarrow>
     mset (map fo_id (forest_data forest)) = mset (map (\<lambda>m. the (mb_id m)) ms)
     \<and> list_all (\<lambda>f. folder_depth f \<le> MAX_DEPTH) forest
     \<and> list_all (\<lambda>f. fst (path_split (fo_path (fo_data f))) = None \<and> nested f) forest
     \<and> distinct (map fo_path (forest_data forest))
     \<and> distinct (filter (\<lambda>r. r \<noteq> None) (map fo_role (forest_data forest)))"

lemma assemble_forest_ok:
  fixes nodes :: "'n node list"
  assumes ids: "mset (map nd_id nodes) = mset (map (\<lambda>m. the (mb_id m)) ms)" "distinct (map nd_id nodes)"
    and inv: "walk_inv (length nodes) dep st" "set (wk_order st) = {..<length nodes}"
  defines "paths \<equiv> folder_paths nodes (wk_parent st) (wk_order st)"
  shows "forest_ok ms (assemble nodes (wk_parent st) (claim_roles [] nodes) paths (wk_order st))"
proof -
  let ?roles = "claim_roles [] nodes" and ?order = "wk_order st"
  let ?forest = "assemble nodes (wk_parent st) ?roles paths ?order"
  note order = walk_invD(2) [OF inv(1)] inv(2) walk_invD(4) [OF inv(1)]
  note path = folder_paths_ok [OF ids(2) order, folded paths_def]
  have dep: "1 \<le> dep i \<and> dep i \<le> MAX_DEPTH" if "i < length nodes" for i
    using walk_invD(6) [OF inv(1), of i] inv(2) that by simp
  note a = assemble_ok [OF order dep path(2), where roles = ?roles]
  have maps: "mset (map g (forest_data ?forest)) = mset (map (\<lambda>i. g (folder_of nodes ?roles paths i)) ?order)" for g
    using a(1) by (simp add: comp_def flip: mset_map) (simp add: image_mset.compositionality comp_def)
  have "mset (map fo_id (forest_data ?forest)) = mset (map nd_id nodes)"
  proof -
    have "mset (map (\<lambda>i. map nd_id nodes ! i) ?order) = mset (map nd_id nodes)"
      by (rule mset_permuted) (simp_all add: order)
    moreover have "map (\<lambda>i. map nd_id nodes ! i) ?order = map (\<lambda>i. nd_id (nodes ! i)) ?order"
      using order(2) by (intro map_cong) auto
    ultimately have "mset (map (\<lambda>i. nd_id (nodes ! i)) ?order) = mset (map nd_id nodes)" by (simp only:)
    then show ?thesis
      using maps [of fo_id] by (simp add: folder_of_def Let_def flip: mset_map)
  qed
  moreover have "mset (map fo_path (forest_data ?forest)) = mset (map (\<lambda>i. paths ! i) ?order)"
    using maps [of fo_path] by (simp add: folder_of_def Let_def)
  then have "distinct (map fo_path (forest_data ?forest))"
    using path(1) mset_eq_imp_distinct_iff by blast
  moreover have "mset (map fo_role (forest_data ?forest)) = mset ?roles"
    using maps [of fo_role] mset_permuted [of ?order ?roles] order(1,2) by (simp add: folder_of_def Let_def)
  then have "distinct (filter (\<lambda>r. r \<noteq> None) (map fo_role (forest_data ?forest)))"
    using mset_distinct_filter claim_roles_distinct [of "[]" nodes] by blast
  ultimately show ?thesis
    using a(2) ids(1) by (simp add: forest_ok_def list_all_iff)
qed

lemma from_mailboxes_listed:
  assumes "listed ms"
  shows "\<exists>forest. from_mailboxes ms = Some (Ok forest) \<and> forest_ok ms forest"
proof -
  define nodes where "nodes = sort_nodes (map (\<lambda>m. \<lparr>nd_mailbox = m, nd_id = the (mb_id m)\<rparr>) ms)"
  note ids = sorted_nodes [OF assms, folded nodes_def]
  obtain m where m: "index_nodes 0 nodes [] = Ok m" "\<And>k v. map_of m k = Some v \<Longrightarrow> v < length nodes"
    using index_nodes_Ok [OF ids(2), of "[]" 0] by auto
  obtain children roots where c: "children_of (parents_of m nodes) = (children, roots)"
    by (cases "children_of (parents_of m nodes)")
  have len: "length (parents_of m nodes) = length nodes" by (simp add: parents_of_def)
  obtain st dep where w: "walk (parents_of m nodes) children roots = Some st"
    "walk_inv (length nodes) dep st" "set (wk_order st) = {..<length nodes}"
    using walk_ok [OF _ c] parents_of_range [OF m(2)] by (auto simp: len)
  have "collect_results check_mailbox ms = Ok (map (\<lambda>m. \<lparr>nd_mailbox = m, nd_id = the (mb_id m)\<rparr>) ms)"
    using assms by (simp add: collect_nodes listed_def)
  then have "from_mailboxes ms = Some (Ok (assemble nodes (wk_parent st) (claim_roles [] nodes)
      (folder_paths nodes (wk_parent st) (wk_order st)) (wk_order st)))"
    using m(1) c w(1) by (simp add: from_mailboxes_def Let_def nodes_def)
  then show ?thesis using assemble_forest_ok [OF ids w(2,3)] by blast
qed

lemma from_mailboxes_unlisted:
  assumes "\<not> listed ms"
  shows "\<exists>e. from_mailboxes ms = Some (Err e)"
proof (cases "collect_results check_mailbox ms")
  case (Inr nodes)
  then have n: "list_all (\<lambda>m. mb_id m \<noteq> None \<and> mb_name m \<noteq> []) ms"
    "nodes = map (\<lambda>m. \<lparr>nd_mailbox = m, nd_id = the (mb_id m)\<rparr>) ms"
    using collect_nodes by blast+
  have "map mb_id ms = map Some (map nd_id nodes)"
    using n by (auto simp: list_all_iff)
  then have "\<not> distinct (map nd_id nodes)"
    using assms n(1) distinct_map_Some unfolding listed_def by metis
  moreover have "mset (map nd_id (sort_nodes nodes)) = mset (map nd_id nodes)" by (simp add: sort_nodes_def)
  ultimately have "\<not> distinct (map nd_id (sort_nodes nodes))" using mset_eq_imp_distinct_iff by blast
  then obtain e where "index_nodes 0 (sort_nodes nodes) [] = Err e"
    using index_nodes_distinct by (cases "index_nodes 0 (sort_nodes nodes) []") blast+
  then show ?thesis using Inr by (simp add: from_mailboxes_def Let_def)
qed (simp add: from_mailboxes_def)


text \<open>
  C39. Building the tree of any \<^verbatim>\<open>Mailbox/get\<close> list ends without a panic, whatever parents the server names: it
  succeeds exactly when every mailbox has an id and a name and no id occurs twice, and then every mailbox
  is in the forest exactly once and no branch is deeper than 64, also when the parents form loops.
\<close>

theorem folder_tree_complete:
  "from_mailboxes ms \<noteq> None
   \<and> ((\<exists>forest. from_mailboxes ms = Some (Ok forest)) \<longleftrightarrow> listed ms)
   \<and> (\<forall>forest. from_mailboxes ms = Some (Ok forest) \<longrightarrow>
        mset (map fo_id (forest_data forest)) = mset (map (\<lambda>m. the (mb_id m)) ms)
        \<and> list_all (\<lambda>f. folder_depth f \<le> MAX_DEPTH) forest)"
proof (cases "listed ms")
  case True
  then show ?thesis using from_mailboxes_listed [OF True] by (auto simp: forest_ok_def)
next
  case False
  then show ?thesis using from_mailboxes_unlisted [OF False] by auto
qed

text \<open>Two mailboxes that are each other's parent, and two of one name.\<close>

definition plain_mailbox :: "str \<Rightarrow> str \<Rightarrow> str option \<Rightarrow> str option \<Rightarrow> nat mailbox" where
  "plain_mailbox i name parent role =
     \<lparr>mb_id = Some i, mb_name = name, mb_parent_id = parent, mb_role = role, mb_sort_order = None,
      mb_total_emails = None, mb_unread_emails = None, mb_total_threads = None, mb_unread_threads = None,
      mb_is_subscribed = None, mb_share_with = None, mb_my_rights = None, mb_extra = []\<rparr>"

definition sample_listing :: "nat mailbox list" where
  "sample_listing =
     [plain_mailbox ''1'' ''A'' (Some ''2'') None, plain_mailbox ''2'' ''B'' (Some ''1'') (Some ''inbox''),
      plain_mailbox ''3'' ''A'' None (Some ''Inbox'')]"

definition plain_folder :: "str \<Rightarrow> str \<Rightarrow> str \<Rightarrow> folder_role option \<Rightarrow> folder_data" where
  "plain_folder i path name role =
     \<lparr>fo_id = i, fo_path = path, fo_display_name = name, fo_role = role, fo_total = 0, fo_unread = 0,
      fo_subscribed = True, fo_may_add_items = None, fo_account_id = None\<rparr>"

definition sample_forest :: "folder_info list" where
  "sample_forest =
     [Folder (plain_folder ''3'' ''A'' ''A'' (Some Inbox)) [],
      Folder (plain_folder ''1'' (''A'' @ [PERCENT] @ ''231'') ''A'' None)
        [Folder (plain_folder ''2'' (''A'' @ [PERCENT] @ ''231/B'') ''B'' None) []]]"


definition sample_nodes :: "nat node list" where
  "sample_nodes =
     map (\<lambda>m. \<lparr>nd_mailbox = m, nd_id = the (mb_id m)\<rparr>)
       [plain_mailbox ''1'' ''A'' (Some ''2'') None, plain_mailbox ''3'' ''A'' None (Some ''Inbox''),
        plain_mailbox ''2'' ''B'' (Some ''1'') (Some ''inbox'')]"

definition sample_walk :: walk_state where
  "sample_walk =
     \<lparr>wk_parent = [None, None, Some 0], wk_children = [[2], [], []], wk_visited = [True, True, True], wk_order = [1, 0, 2]\<rparr>"

lemma sample_from_mailboxes: "from_mailboxes sample_listing = Some (Ok sample_forest)"
proof -
  let ?paths = "[''A'' @ [PERCENT] @ ''231'', ''A'', ''A'' @ [PERCENT] @ ''231/B'']"
  have "map_sum id sort_nodes (collect_results check_mailbox sample_listing) = Inr sample_nodes" by code_simp
  then obtain ns where ns: "collect_results check_mailbox sample_listing = Inr ns" "sort_nodes ns = sample_nodes"
    by (cases "collect_results check_mailbox sample_listing") auto
  have m: "index_nodes 0 sample_nodes [] = Inr [(''1'', 0), (''2'', 2), (''3'', 1)]" by code_simp
  have p: "parents_of [(''1'', 0), (''2'', 2), (''3'', 1)] sample_nodes = [Some 2, None, Some 0]" by code_simp
  have c: "children_of [Some 2, None, Some 0] = ([[2], [], [0]], [1])" by code_simp
  have w: "walk [Some 2, None, Some 0] [[2], [], [0]] [1] = Some sample_walk" by code_simp
  have f: "folder_paths sample_nodes (wk_parent sample_walk) (wk_order sample_walk) = ?paths" by code_simp
  have r: "claim_roles [] sample_nodes = [None, Some Inbox, None]" by code_simp
  have "assemble sample_nodes (wk_parent sample_walk) [None, Some Inbox, None] ?paths (wk_order sample_walk) = sample_forest"
    by (simp add: assemble_def assemble_step_def folder_of_def saturate_def sample_walk_def sample_nodes_def
        plain_mailbox_def sample_forest_def plain_folder_def Let_def)
  then show ?thesis
    by (simp only: from_mailboxes_def ns m p c w f r sum.case Let_def prod.case option.map)
qed

theorem folder_tree_complete_witness:
  "listed sample_listing
   \<and> mset (map fo_id (forest_data sample_forest)) = mset (map (\<lambda>m. the (mb_id m)) sample_listing)
   \<and> list_all (\<lambda>f. folder_depth f \<le> MAX_DEPTH) sample_forest"
  using folder_tree_complete [of sample_listing] sample_from_mailboxes by blast

text \<open>
  C40. The paths of a tree identify its folders: no two folders of an account have one path, a root has no
  separator in its path and the path of every other folder is that of its parent with one more component,
  and no role is given to two folders.
\<close>

theorem folder_tree_paths:
  assumes "from_mailboxes ms = Some (Ok forest)"
  shows "distinct (map fo_path (forest_data forest))
    \<and> list_all (\<lambda>f. fst (path_split (fo_path (fo_data f))) = None \<and> nested f) forest
    \<and> distinct (filter (\<lambda>r. r \<noteq> None) (map fo_role (forest_data forest)))"
proof -
  have "listed ms" using assms from_mailboxes_unlisted [of ms] by auto
  then show ?thesis using from_mailboxes_listed [of ms] assms by (auto simp: forest_ok_def)
qed

theorem folder_tree_paths_witness:
  "distinct (map fo_path (forest_data sample_forest))
   \<and> list_all (\<lambda>f. fst (path_split (fo_path (fo_data f))) = None \<and> nested f) sample_forest
   \<and> distinct (filter (\<lambda>r. r \<noteq> None) (map fo_role (forest_data sample_forest)))"
  by (rule folder_tree_paths [OF sample_from_mailboxes])

end
