(* ===== verification/Spec2Isabelle.thy ===== *)
theory Spec2Isabelle
  imports Mail_Date Client_Changes Client_Limiter Set_Send Object_Sync Mail_Keywords Mail_Tree
begin

text \<open>
  A verification library for \<^verbatim>\<open>evolution-jmap\<close>, the JMAP backends of Evolution.
\<close>

end
